(* ===== verification/Prelude.thy ===== *)
theory Prelude
  imports Main "HOL-Library.Word" "HOL-Library.Monad_Syntax"
begin

text \<open>
  Shared ground of the development: the machine integers of the i386 C compiler, byte
  addressed memory with little-endian 16 and 32 bit accesses, and the lemmas every component
  needs to read memory over a write elsewhere.
\<close>

unbundle bit_operations_syntax

section \<open>Machine integers and memory\<close>

type_synonym u8 = "8 word"
type_synonym u16 = "16 word"
type_synonym u32 = "32 word"
type_synonym u64 = "64 word"
type_synonym mem = "u32 \<Rightarrow> u8"

named_theorems mem_simps \<open>reading memory over a write\<close>

definition load16 :: "mem \<Rightarrow> u32 \<Rightarrow> u16" where
  "load16 m a = push_bit 8 (ucast (m (a + 1))) OR ucast (m a)"

definition store16 :: "mem \<Rightarrow> u32 \<Rightarrow> u16 \<Rightarrow> mem" where
  "store16 m a v = m(a := ucast v, a + 1 := ucast (drop_bit 8 v))"

definition load32 :: "mem \<Rightarrow> u32 \<Rightarrow> u32" where
  "load32 m a = push_bit 24 (ucast (m (a + 3))) OR push_bit 16 (ucast (m (a + 2)))
     OR push_bit 8 (ucast (m (a + 1))) OR ucast (m a)"

definition store32 :: "mem \<Rightarrow> u32 \<Rightarrow> u32 \<Rightarrow> mem" where
  "store32 m a v = m(a := ucast v, a + 1 := ucast (drop_bit 8 v),
     a + 2 := ucast (drop_bit 16 v), a + 3 := ucast (drop_bit 24 v))"

section \<open>Words as natural numbers\<close>

named_theorems unat_simps \<open>bit operations as arithmetic on \<open>unat\<close>\<close>

lemma unat_and_mask [unat_simps]: "unat (a AND mask n) = unat a mod 2 ^ n"
  for a :: "'a :: len word"
  unfolding take_bit_eq_mask [symmetric] unsigned_take_bit_eq by (rule take_bit_eq_mod)

lemma unat_drop_bit_div [unat_simps]: "unat (drop_bit n a) = unat a div 2 ^ n"
  for a :: "'a :: len word"
  unfolding unat_drop_bit_eq by (rule drop_bit_eq_div)

lemma unat_ucast_mod [unat_simps]: "unat (ucast a :: 'b :: len word) = unat a mod 2 ^ LENGTH('b)"
  for a :: "'a :: len word"
  by (simp add: unsigned_ucast_eq take_bit_eq_mod)

lemma unat_u16_u32: "unat (ucast w :: u32) = unat w" for w :: u16
proof -
  have "unat w < 2 ^ LENGTH(16)" by (rule unsigned_less)
  then show ?thesis by (simp add: unat_ucast_mod)
qed

section \<open>Reading over a write\<close>

lemma load16_store16_same [simp, mem_simps]: "load16 (store16 m a v) a = v"
  by (rule bit_word_eqI) (auto simp: load16_def store16_def bit_simps)

lemma load32_store32_same [simp, mem_simps]: "load32 (store32 m a v) a = v"
proof (rule bit_word_eqI)
  fix n
  assume "n < LENGTH(32)"
  then consider "n < 8" | "8 \<le> n" "n < 16" | "16 \<le> n" "n < 24" | "24 \<le> n" "n < 32"
    by fastforce
  then show "bit (load32 (store32 m a v) a) n = bit v n"
    by cases (auto simp: load32_def store32_def bit_simps)
qed

lemma u32_bound: "unat (a :: u32) < 2 ^ 32"
proof -
  have "unat a < 2 ^ LENGTH(32)" by (rule unsigned_less)
  then show ?thesis by simp
qed

lemma word_add_neq:
  fixes a b :: u32
  assumes "unat a + i < unat b + j \<or> unat b + j < unat a + i"
    and "unat a + i < 2 ^ 32" and "unat b + j < 2 ^ 32"
  shows "a + of_nat i \<noteq> b + of_nat j"
proof
  assume eq: "a + of_nat i = b + of_nat j"
  have "unat (a + of_nat i) = unat a + i" "unat (b + of_nat j) = unat b + j"
    using assms(2,3) by (simp_all add: unat_word_ariths unat_of_nat)
  with eq assms(1) show False by simp
qed

lemma unat_add_nat:
  fixes a :: u32
  shows "unat a + i < 2 ^ 32 \<Longrightarrow> unat (a + of_nat i) = unat a + i"
  by (simp add: unat_word_ariths unat_of_nat)

lemma unat_add_u32: "unat a + unat b < 2 ^ 32 \<Longrightarrow> unat (a + b) = unat a + unat b" for a b :: u32
  using unat_add_nat [of a "unat b"] by simp

text \<open>Two address ranges of lengths \<open>i\<close> and \<open>j\<close> that do not meet and do not wrap.\<close>

definition apart :: "u32 \<Rightarrow> nat \<Rightarrow> u32 \<Rightarrow> nat \<Rightarrow> bool" where
  "apart a i b j \<longleftrightarrow> (unat a + i \<le> unat b \<or> unat b + j \<le> unat a)
     \<and> unat a + i \<le> 2 ^ 32 \<and> unat b + j \<le> 2 ^ 32"

lemma apart_sym: "apart a i b j \<Longrightarrow> apart b j a i"
  by (auto simp: apart_def)

lemma apart_neq:
  assumes "apart a i b j" and "k < i" and "l < j"
  shows "a + of_nat k \<noteq> b + of_nat l"
  by (rule word_add_neq) (use assms in \<open>auto simp: apart_def\<close>)

lemma store32_byte [mem_simps]:
  assumes "apart a 4 b 1"
  shows "store32 m a v b = m b"
proof -
  have "a + of_nat k \<noteq> b" if "k < 4" for k
    using apart_neq [OF assms that, of 0] by simp
  from this[of 0] this[of 1] this[of 2] this[of 3] show ?thesis
    by (auto simp: store32_def)
qed

lemma store16_byte [mem_simps]:
  assumes "apart a 2 b 1"
  shows "store16 m a v b = m b"
proof -
  have "a + of_nat k \<noteq> b" if "k < 2" for k
    using apart_neq [OF assms that, of 0] by simp
  from this[of 0] this[of 1] show ?thesis
    by (auto simp: store16_def)
qed

text \<open>Loads depend on the bytes they read only.\<close>

lemma load32_cong:
  assumes "\<And>k. k < 4 \<Longrightarrow> m (a + of_nat k) = m' (a + of_nat k)"
  shows "load32 m a = load32 m' a"
  using assms[of 0] assms[of 1] assms[of 2] assms[of 3] by (simp add: load32_def)

lemma load16_cong:
  assumes "\<And>k. k < 2 \<Longrightarrow> m (a + of_nat k) = m' (a + of_nat k)"
  shows "load16 m a = load16 m' a"
  using assms[of 0] assms[of 1] by (simp add: load16_def)

lemma apart_byte:
  assumes "apart a i b j" and "k < j"
  shows "apart a i (b + of_nat k) 1"
proof -
  have "unat (b + of_nat k) = unat b + k"
    by (rule unat_add_nat) (use assms in \<open>auto simp: apart_def\<close>)
  with assms show ?thesis by (auto simp: apart_def)
qed

lemma load32_store32_apart [mem_simps]:
  "apart a 4 b 4 \<Longrightarrow> load32 (store32 m a v) b = load32 m b"
  by (rule load32_cong) (blast intro: store32_byte apart_byte)

lemma load32_store16_apart [mem_simps]:
  "apart a 2 b 4 \<Longrightarrow> load32 (store16 m a v) b = load32 m b"
  by (rule load32_cong) (blast intro: store16_byte apart_byte)

lemma load16_store16_apart [mem_simps]:
  "apart a 2 b 2 \<Longrightarrow> load16 (store16 m a v) b = load16 m b"
  by (rule load16_cong) (blast intro: store16_byte apart_byte)

lemma load16_store32_apart [mem_simps]:
  "apart a 4 b 2 \<Longrightarrow> load16 (store32 m a v) b = load16 m b"
  by (rule load16_cong) (blast intro: store32_byte apart_byte)

lemma load32_upd_apart [mem_simps]:
  assumes "apart a 1 b 4"
  shows "load32 (m(a := v)) b = load32 m b"
proof (rule load32_cong)
  fix k :: nat
  assume "k < 4"
  from apart_neq [OF assms _ this, of 0] show "(m(a := v)) (b + of_nat k) = m (b + of_nat k)"
    by simp
qed

section \<open>Loops whose body may not return\<close>

text \<open>A counting loop over a list of indices; \<open>None\<close> when a body does not return.\<close>

fun for_each :: "('i \<Rightarrow> 's \<Rightarrow> 's option) \<Rightarrow> 'i list \<Rightarrow> 's \<Rightarrow> 's option" where
  "for_each f [] s = Some s"
| "for_each f (i # is) s = do { s' \<leftarrow> f i s; for_each f is s' }"

lemma for_each_append:
  "for_each f (is @ js) s = do { s' \<leftarrow> for_each f is s; for_each f js s' }"
  by (induction "is" arbitrary: s) (simp_all split: bind_split)

text \<open>The loop rule: an invariant on the number of iterations done.\<close>

lemma for_each_upt_rule:
  assumes "for_each f [0..<n] s = Some s'" and "I 0 s"
    and "\<And>i t t'. i < n \<Longrightarrow> I i t \<Longrightarrow> f i t = Some t' \<Longrightarrow> I (Suc i) t'"
  shows "I n s'"
  using assms
proof (induction n arbitrary: s')
  case (Suc n)
  then obtain t where t: "for_each f [0..<n] s = Some t" and "f n t = Some s'"
    by (auto simp: for_each_append bind_eq_Some_conv)
  moreover have "I n t" using Suc by (blast intro: Suc.IH t less_SucI)
  ultimately show ?case using Suc.prems(3) [of n t s'] by simp
qed simp

text \<open>A loop returns when each body does from a state the invariant describes.\<close>

lemma for_each_upt_total:
  assumes "I 0 s"
    and "\<And>i t. i < n \<Longrightarrow> I i t \<Longrightarrow> \<exists>t'. f i t = Some t' \<and> I (Suc i) t'"
  shows "\<exists>s'. for_each f [0..<n] s = Some s' \<and> I n s'"
  using assms
proof (induction n)
  case (Suc n)
  then obtain t where "for_each f [0..<n] s = Some t" "I n t" by (meson less_SucI)
  moreover obtain t' where "f n t = Some t'" "I (Suc n) t'"
    using Suc.prems(2) [of n t] calculation(2) by blast
  ultimately show ?case by (auto simp: for_each_append)
qed simp

end
