(* ===== verification/Machine.thy ===== *)
theory Machine
  imports Prelude
begin

text \<open>
  The machine the kernel runs on, as one record: the linear memory, the paging registers, the
  C globals of the modelled components and the sequence of port accesses made so far. All
  kernel accesses go through the identity mapped part of the address space, so the memory
  below is at once physical and linear memory. A device is a function from the port accesses
  made so far to the value the next input returns; nothing else is known of it.
\<close>

unbundle bit_operations_syntax

datatype io_event =
    OutB u16 u8   \<comment> \<open>\<open>outb(value,port)\<close>, port first\<close>
  | InB u16 u8    \<comment> \<open>\<open>inb(port)\<close> and the value it returned\<close>
  | OutW u16 u16
  | InW u16 u16
  | Cli
  | Sti

type_synonym device = "io_event list \<Rightarrow> u16 \<Rightarrow> u16"

record machine =
  mem :: mem
  HMEM :: u32       \<comment> \<open>\<open>kernel/mm.c\<close>: end of memory\<close>
  LMEM :: u32       \<comment> \<open>\<open>kernel/mm.c\<close>: start of memory\<close>
  KMEM :: u32       \<comment> \<open>\<open>kernel/mm.c\<close>: end of the memory the kernel allocates from\<close>
  CR0 :: u32
  CR3 :: u32
  mmList :: u32     \<comment> \<open>\<open>kernel/malloc.c\<close>: head of the free list\<close>
  con_x :: int      \<comment> \<open>\<open>kernel/dg.c\<close>: cursor column\<close>
  con_y :: int      \<comment> \<open>\<open>kernel/dg.c\<close>: cursor row\<close>
  sendQueue :: u32  \<comment> \<open>\<open>net/ne2k/ne2k.c\<close>: packets waiting for the transmitter\<close>
  MAC :: u64        \<comment> \<open>\<open>net/ne2k/ne2k.c\<close>: the card's address\<close>
  arpTable :: u32   \<comment> \<open>\<open>net/arp.c\<close>: the list of known hosts, \<open>NULL\<close> until first used\<close>
  io :: "io_event list"

section \<open>Port access\<close>

definition outb :: "u8 \<Rightarrow> u16 \<Rightarrow> machine \<Rightarrow> machine" where
  "outb v port s = s\<lparr>io := io s @ [OutB port v]\<rparr>"

definition outw :: "u16 \<Rightarrow> u16 \<Rightarrow> machine \<Rightarrow> machine" where
  "outw v port s = s\<lparr>io := io s @ [OutW port v]\<rparr>"

definition inb :: "device \<Rightarrow> u16 \<Rightarrow> machine \<Rightarrow> u8 \<times> machine" where
  "inb dev port s = (let v = ucast (dev (io s) port) in (v, s\<lparr>io := io s @ [InB port v]\<rparr>))"

definition inw :: "device \<Rightarrow> u16 \<Rightarrow> machine \<Rightarrow> u16 \<times> machine" where
  "inw dev port s = (let v = dev (io s) port in (v, s\<lparr>io := io s @ [InW port v]\<rparr>))"

definition cli :: "machine \<Rightarrow> machine" where
  "cli s = s\<lparr>io := io s @ [Cli]\<rparr>"

definition sti :: "machine \<Rightarrow> machine" where
  "sti s = s\<lparr>io := io s @ [Sti]\<rparr>"

text \<open>
  The variants with a delay: two jumps to the next instruction. \<open>inw_p\<close>, which no file uses, reads a
  byte; the upper half of its result is what \<open>ah\<close> held.
\<close>

definition outb_p :: "u8 \<Rightarrow> u16 \<Rightarrow> machine \<Rightarrow> machine" where "outb_p v port s = outb v port s"

definition outw_p :: "u16 \<Rightarrow> u16 \<Rightarrow> machine \<Rightarrow> machine" where "outw_p v port s = outw v port s"

definition inb_p :: "device \<Rightarrow> u16 \<Rightarrow> machine \<Rightarrow> u8 \<times> machine" where "inb_p dev port s = inb dev port s"

definition inw_p :: "device \<Rightarrow> u16 \<Rightarrow> u16 \<Rightarrow> machine \<Rightarrow> u16 \<times> machine" where
  "inw_p dev ax port s = (let (v, s) = inb dev port s in ((ax AND 0xff00) OR ucast v, s))"

named_theorems io_defs \<open>the port primitives, unfolded to the access sequence\<close>

declare outb_p_def [io_defs] inb_p_def [io_defs] outb_def [io_defs] outw_def [io_defs] inb_def [io_defs] inw_def [io_defs]
  cli_def [io_defs] sti_def [io_defs] Let_def [io_defs]

section \<open>Memory accesses on the machine\<close>

abbreviation put32 :: "u32 \<Rightarrow> u32 \<Rightarrow> machine \<Rightarrow> machine" where
  "put32 a v s \<equiv> s\<lparr>mem := store32 (mem s) a v\<rparr>"

abbreviation get32 :: "machine \<Rightarrow> u32 \<Rightarrow> u32" where
  "get32 s a \<equiv> load32 (mem s) a"

text \<open>A state that differs from another in memory only.\<close>

lemma mem_only:
  assumes "s' = s\<lparr>mem := mem s'\<rparr>"
  shows "s'\<lparr>mem := m\<rparr> = s\<lparr>mem := m\<rparr>" "mmList s' = mmList s" "io s' = io s"
    "sendQueue s' = sendQueue s" "MAC s' = MAC s" "arpTable s' = arpTable s"
  by (subst assms, simp)+

text \<open>Two states that agree in everything but memory.\<close>

definition only_mem :: "machine \<Rightarrow> machine \<Rightarrow> bool" where
  "only_mem s0 s \<longleftrightarrow> (\<exists>m. s = s0\<lparr>mem := m\<rparr>)"

lemma only_mem_refl [simp]: "only_mem s s"
  unfolding only_mem_def by (rule exI [of _ "mem s"]) simp

lemma only_mem_upd [simp]: "only_mem s0 (s\<lparr>mem := m\<rparr>) = only_mem s0 s"
proof
  assume "only_mem s0 (s\<lparr>mem := m\<rparr>)"
  then obtain m' where "s\<lparr>mem := m\<rparr> = s0\<lparr>mem := m'\<rparr>" by (auto simp: only_mem_def)
  then have "s\<lparr>mem := m\<rparr>\<lparr>mem := mem s\<rparr> = s0\<lparr>mem := m'\<rparr>\<lparr>mem := mem s\<rparr>" by simp
  then show "only_mem s0 s" by (auto simp: only_mem_def)
qed (auto simp: only_mem_def)

lemma only_mem_trans: "only_mem s t \<Longrightarrow> only_mem t u \<Longrightarrow> only_mem s u"
  by (auto simp: only_mem_def)

lemma only_mem_fields:
  assumes "only_mem s0 s"
  shows "KMEM s = KMEM s0" "HMEM s = HMEM s0" "LMEM s = LMEM s0" "CR0 s = CR0 s0"
    "CR3 s = CR3 s0" "mmList s = mmList s0" "io s = io s0" "con_x s = con_x s0" "con_y s = con_y s0"
  using assms by (auto simp: only_mem_def)

text \<open>
  The state in which the boot loader enters the kernel, for the values the C sources give
  their globals: \<open>HMEM\<close>, \<open>LMEM\<close>, \<open>KMEM\<close> of \<open>kernel/mm.c\<close>, the console cursor of
  \<open>kernel/dg.c\<close>, empty queues. The memory contents and the address of the free list's
  static head node are arguments.
\<close>

definition boot_machine :: "mem \<Rightarrow> u32 \<Rightarrow> machine" where
  "boot_machine m mmlist = \<lparr>mem = m, HMEM = 0, LMEM = 0x100000, KMEM = 0x40000000,
     CR0 = 0, CR3 = 0, mmList = mmlist, con_x = 0, con_y = 10, sendQueue = 0, MAC = 0, arpTable = 0,
     io = []\<rparr>"

end
