(* ===== verification/CString.thy ===== *)
theory CString
  imports Machine
begin

text \<open>
  \<open>c/string.c\<close>: \<open>memcpy\<close>, \<open>memset\<close> and \<open>strcpy\<close> as the inline assembly runs them. \<open>rep movsb\<close>
  with a zero counter copies nothing, but \<open>loop\<close> decrements before it tests, so \<open>memset\<close> with a
  zero count runs \<open>2 ^ 32\<close> times. The direction flag is clear, as the C calling convention has
  it.
\<close>

unbundle bit_operations_syntax

section \<open>The three routines\<close>

fun copy_bytes :: "nat \<Rightarrow> u32 \<Rightarrow> u32 \<Rightarrow> mem \<Rightarrow> mem" where
  "copy_bytes 0 d s m = m"
| "copy_bytes (Suc n) d s m = copy_bytes n (d + 1) (s + 1) (m(d := m s))"

definition memcpy :: "mem \<Rightarrow> u32 \<Rightarrow> u32 \<Rightarrow> u32 \<Rightarrow> u32 \<times> mem" where
  "memcpy m dest src n = (dest, copy_bytes (unat n) dest src m)"

fun fill_bytes :: "nat \<Rightarrow> u32 \<Rightarrow> u8 \<Rightarrow> mem \<Rightarrow> mem" where
  "fill_bytes 0 d c m = m"
| "fill_bytes (Suc n) d c m = fill_bytes n (d + 1) c (m(d := c))"

text \<open>How often \<open>loop\<close> runs a body entered with counter \<open>n\<close>.\<close>

definition loop_count :: "u32 \<Rightarrow> nat" where
  "loop_count n = (if n = 0 then 2 ^ 32 else unat n)"

definition memset :: "mem \<Rightarrow> u32 \<Rightarrow> u32 \<Rightarrow> u32 \<Rightarrow> u32 \<times> mem" where
  "memset m dest ch n = (dest, fill_bytes (loop_count n) dest (ucast ch) m)"

partial_function (option) copy_string :: "u32 \<Rightarrow> u32 \<Rightarrow> mem \<Rightarrow> mem option" where
  "copy_string d s m =
     (let al = m s; m' = m(d := al)
      in if al \<noteq> 0 then copy_string (d + 1) (s + 1) m' else Some m')"

definition strcpy :: "mem \<Rightarrow> u32 \<Rightarrow> u32 \<Rightarrow> (u32 \<times> mem) option" where
  "strcpy m dest src = do { m' \<leftarrow> copy_string dest src m; Some (dest, m') }"

section \<open>What they do to memory\<close>

lemma unat_Suc_word:
  fixes a :: u32
  shows "unat a + 1 < 2 ^ 32 \<Longrightarrow> unat (a + 1) = unat a + 1"
  using unat_add_nat [of a 1] by simp

text \<open>Offsets of a range that does not wrap.\<close>

lemma unat_diff_word:
  fixes a d :: u32
  shows "unat d \<le> unat a \<Longrightarrow> unat (a - d) = unat a - unat d"
  by (simp add: unat_sub word_le_nat_alt)

lemma unat_offset:
  fixes a d s :: u32
  assumes "unat d \<le> unat a" and "unat a < unat d + n" and "unat s + n \<le> 2 ^ 32"
  shows "unat (s + (a - d)) = unat s + (unat a - unat d)"
proof -
  have "unat (a - d) = unat a - unat d" by (rule unat_diff_word) fact
  moreover have "unat s + unat (a - d) < 2 ^ 32" using assms calculation by arith
  ultimately show ?thesis by (simp add: unat_word_ariths)
qed

text \<open>
  The whole effect of a forward copy: where the source lies above the destination (even if it
  overlaps it) or ends below it, every byte of the destination range is the old byte at the
  same offset of the source, and no other byte changes.
\<close>

definition in_range :: "u32 \<Rightarrow> nat \<Rightarrow> u32 \<Rightarrow> bool" where
  "in_range d n a \<longleftrightarrow> unat d \<le> unat a \<and> unat a < unat d + n"

lemma in_range_iff:
  assumes "unat d + n \<le> 2 ^ 32"
  shows "in_range d n a \<longleftrightarrow> unat (a - d) < n"
proof
  assume "in_range d n a"
  then show "unat (a - d) < n" by (auto simp: in_range_def unat_diff_word)
next
  assume "unat (a - d) < n"
  moreover from this have "unat (d + of_nat (unat (a - d))) = unat d + unat (a - d)"
    by (intro unat_add_nat) (use assms in simp)
  ultimately show "in_range d n a" by (simp add: in_range_def)
qed

lemma copy_bytes_eq:
  assumes "unat d \<le> unat s \<or> unat s + n \<le> unat d"
    and "unat s + n \<le> 2 ^ 32" and "unat d + n \<le> 2 ^ 32"
  shows "copy_bytes n d s m a = (if in_range d n a then m (s + (a - d)) else m a)"
  using assms
proof (induction n arbitrary: d s m)
  case 0
  then show ?case by (auto simp: in_range_def)
next
  case (Suc n)
  show ?case
  proof (cases "n = 0")
    case True
    have "in_range d 1 a \<longleftrightarrow> a = d"
      by (auto simp: in_range_def word_unat_eq_iff)
    with True show ?thesis by simp
  next
    case False
    with Suc.prems have u: "unat (d + 1) = unat d + 1" "unat (s + 1) = unat s + 1"
      by (simp_all add: unat_Suc_word)
    let ?m = "m(d := m s)"
    have IH: "copy_bytes n (d + 1) (s + 1) ?m a
        = (if in_range (d + 1) n a then ?m (s + 1 + (a - (d + 1))) else ?m a)"
      using Suc.prems by (intro Suc.IH) (auto simp: u)
    show ?thesis
    proof (cases "in_range (d + 1) n a")
      case True
      then have r: "unat d \<le> unat a" "unat a < unat d + Suc n" "unat d < unat a"
        by (auto simp: in_range_def u)
      have "unat (s + (a - d)) = unat s + (unat a - unat d)"
        by (rule unat_offset [OF r(1,2)]) (use Suc.prems in simp)
      with r Suc.prems have "s + (a - d) \<noteq> d"
        by (auto simp: word_unat_eq_iff)
      moreover have "s + 1 + (a - (d + 1)) = s + (a - d)" by simp
      ultimately show ?thesis using True r IH by (simp add: in_range_def u)
    next
      case False
      then have "in_range d (Suc n) a \<longleftrightarrow> a = d"
        by (auto simp: in_range_def u word_unat_eq_iff)
      with False show ?thesis using IH by simp
    qed
  qed
qed

lemma copy_bytes_frame:
  assumes "unat d + n \<le> 2 ^ 32" and "\<not> in_range d n a"
  shows "copy_bytes n d s m a = m a"
  using assms
proof (induction n arbitrary: d s m)
  case (Suc n)
  then have "a \<noteq> d" by (auto simp: in_range_def)
  show ?case
  proof (cases "n = 0")
    case True
    with \<open>a \<noteq> d\<close> show ?thesis by simp
  next
    case False
    with Suc.prems have "unat (d + 1) = unat d + 1" by (simp add: unat_Suc_word)
    with Suc.prems False \<open>a \<noteq> d\<close> show ?thesis
      by (simp add: Suc.IH in_range_def)
  qed
qed simp

text \<open>The whole effect of a fill, the range wrapping around the address space if need be.\<close>

lemma fill_bytes_eq:
  assumes "n \<le> 2 ^ 32"
  shows "fill_bytes n d c m a = (if unat (a - d) < n then c else m a)"
  using assms
proof (induction n arbitrary: d m)
  case (Suc n)
  have "unat (a - (d + 1)) < n \<or> a = d \<longleftrightarrow> unat (a - d) < Suc n"
  proof (cases "a = d")
    case False
    then have "a - d \<noteq> 0" by simp
    then have "unat (a - d - 1) = unat (a - d) - 1" and "0 < unat (a - d)"
      by (simp_all add: unat_minus_one unat_gt_0)
    then show ?thesis using False by (auto simp: diff_diff_eq)
  qed simp
  with Suc show ?case by auto
qed simp

section \<open>NUL-terminated strings\<close>

primrec cstring :: "mem \<Rightarrow> u32 \<Rightarrow> u8 list \<Rightarrow> bool" where
  "cstring m a [] \<longleftrightarrow> m a = 0"
| "cstring m a (b # bs) \<longleftrightarrow> m a = b \<and> b \<noteq> 0 \<and> cstring m (a + 1) bs"

lemma cstring_iff:
  "cstring m a bs \<longleftrightarrow>
     (\<forall>k < length bs. m (a + of_nat k) = bs ! k \<and> bs ! k \<noteq> 0) \<and> m (a + of_nat (length bs)) = 0"
proof (induction bs arbitrary: a)
  case (Cons b bs)
  have shift: "a + 1 + of_nat k = a + of_nat (Suc k)" for k by simp
  show ?case
    unfolding cstring.simps Cons.IH shift by (auto simp: less_Suc_eq_0_disj)
qed simp

lemma cstring_cong:
  assumes "\<And>k. k \<le> length bs \<Longrightarrow> m (a + of_nat k) = m' (a + of_nat k)"
  shows "cstring m a bs \<longleftrightarrow> cstring m' a bs"
  unfolding cstring_iff using assms by auto

lemma copy_string_copies:
  assumes "cstring m s bs" and "apart d (length bs + 1) s (length bs + 1)"
  shows "copy_string d s m = Some (copy_bytes (length bs + 1) d s m)"
  using assms
proof (induction bs arbitrary: d s m)
  case Nil
  then show ?case by (simp add: copy_string.simps fun_eq_iff)
next
  case (Cons b bs)
  let ?n = "length bs + 1" and ?m = "m(d := m s)"
  have u: "unat (d + 1) = unat d + 1" "unat (s + 1) = unat s + 1"
    using Cons.prems(2) by (simp_all add: apart_def unat_Suc_word)
  have ne: "s + 1 + of_nat k \<noteq> d" if "k < ?n" for k
    using apart_neq [OF apart_sym [OF Cons.prems(2)], of "Suc k" 0] that
    by (simp add: algebra_simps)
  have "cstring ?m (s + 1) bs \<longleftrightarrow> cstring m (s + 1) bs"
    by (rule cstring_cong) (use ne in simp)
  with Cons.prems(1) have "cstring ?m (s + 1) bs" by simp
  moreover have "apart (d + 1) ?n (s + 1) ?n"
    using Cons.prems(2) by (auto simp: apart_def u)
  ultimately have "copy_string (d + 1) (s + 1) ?m = Some (copy_bytes ?n (d + 1) (s + 1) ?m)"
    by (rule Cons.IH)
  with Cons.prems(1) show ?case by (subst copy_string.simps) simp
qed

lemma copy_bytes_offset:
  assumes "unat d \<le> unat s \<or> unat s + n \<le> unat d"
    and "unat s + n \<le> 2 ^ 32" and "unat d + n \<le> 2 ^ 32" and "k < n"
  shows "copy_bytes n d s m (d + of_nat k) = m (s + of_nat k)"
proof -
  have "unat (d + of_nat k) = unat d + k"
    by (rule unat_add_nat) (use assms in simp)
  with assms show ?thesis by (simp add: copy_bytes_eq in_range_def)
qed

section \<open>Properties\<close>

text \<open>
  \<open>memcpy\<close> on ranges that do not wrap, the source not below the destination inside its
  range: it returns the destination, the destination bytes are the old source bytes at the
  same offsets, and no other byte changes. Overlapping ranges are covered where the
  destination is the lower one, which is how the console scrolls.
\<close>

theorem memcpy_copies:
  assumes "unat d \<le> unat s \<or> unat s + unat n \<le> unat d"
    and "unat s + unat n \<le> 2 ^ 32" and "unat d + unat n \<le> 2 ^ 32"
  shows "fst (memcpy m d s n) = d
    \<and> (\<forall>k < unat n. snd (memcpy m d s n) (d + of_nat k) = m (s + of_nat k))
    \<and> (\<forall>a. \<not> in_range d (unat n) a \<longrightarrow> snd (memcpy m d s n) a = m a)"
  using assms by (simp add: memcpy_def copy_bytes_offset copy_bytes_frame)

theorem memcpy_copies_witness:
  "snd (memcpy (\<lambda>a. ucast a) 0xb8000 0xb80a0 4000) 0xb8003 = (0xa3 :: u8)
   \<and> snd (memcpy (\<lambda>a. ucast a) 0xb8000 0xb80a0 4000) 7 = (7 :: u8)"
proof -
  from memcpy_copies [of "0xb8000" "0xb80a0" 4000 "\<lambda>a. ucast a"] have
    "\<forall>k < 4000. snd (memcpy (\<lambda>a. ucast a) 0xb8000 0xb80a0 4000) (0xb8000 + of_nat k)
       = (ucast ((0xb80a0 :: u32) + of_nat k) :: u8)"
    and frame: "\<forall>a. \<not> in_range 0xb8000 4000 a
       \<longrightarrow> snd (memcpy (\<lambda>a. ucast a) 0xb8000 0xb80a0 4000) a = (ucast a :: u8)"
    by simp_all
  from this(1) [rule_format, of 3] show ?thesis
    using frame [rule_format, of 7] by (simp add: in_range_def)
qed

text \<open>
  \<open>memset\<close> with a non-zero count fills exactly the range it is given; with a zero count it
  does not return at once: the \<open>loop\<close> instruction counts down from zero, and every byte of
  memory is overwritten.
\<close>

theorem memset_fills:
  "snd (memset m d c n) a = (if n = 0 \<or> unat (a - d) < unat n then ucast c else m a)"
proof -
  have "unat n \<le> 2 ^ 32" and "unat (a - d) < 2 ^ 32"
    using u32_bound [of n] u32_bound [of "a - d"] by simp_all
  then show ?thesis
    by (simp add: memset_def loop_count_def fill_bytes_eq)
qed

text \<open>
  \<open>strcpy\<close> of a NUL-terminated string that does not overlap its destination returns, the
  destination then holds the string and its terminator, and no other byte changes.
\<close>

theorem strcpy_copies:
  assumes "cstring m src bs" and "apart dest (length bs + 1) src (length bs + 1)"
  shows "\<exists>m'. strcpy m dest src = Some (dest, m') \<and> cstring m' dest bs
    \<and> (\<forall>a. \<not> in_range dest (length bs + 1) a \<longrightarrow> m' a = m a)"
proof -
  let ?n = "length bs + 1" and ?m = "copy_bytes (length bs + 1) dest src m"
  have r: "unat dest \<le> unat src \<or> unat src + ?n \<le> unat dest" "unat src + ?n \<le> 2 ^ 32"
    "unat dest + ?n \<le> 2 ^ 32"
    using assms(2) by (auto simp: apart_def)
  have "?m (dest + of_nat k) = m (src + of_nat k)" if "k < ?n" for k
    by (rule copy_bytes_offset [OF r that])
  with assms(1) have "cstring ?m dest bs" by (simp add: cstring_iff del: copy_bytes.simps)
  moreover have "strcpy m dest src = Some (dest, ?m)"
    using copy_string_copies [OF assms] by (simp add: strcpy_def)
  ultimately show ?thesis using copy_bytes_frame [OF r(3)] by blast
qed

theorem strcpy_copies_witness:
  "\<exists>m'. strcpy ((\<lambda>_. 0)(16 := 72, 17 := 105)) 64 16 = Some (64, m') \<and> cstring m' 64 [72, 105]"
  using strcpy_copies [of "(\<lambda>_. 0)(16 := 72, 17 := 105)" 16 "[72, 105]" 64]
  by (auto simp: apart_def)

end
