(* ===== verification/PageAlloc.thy ===== *)
theory PageAlloc
  imports CString
begin

text \<open>
  The frame allocator of \<open>kernel/mm.c\<close>: one reference count per 4 KB frame in the byte array
  \<open>mmap\<close> at \<open>MMAP_ADDR\<close>. A search that finds no free frame starts again, so allocation from
  full memory does not return; \<open>None\<close> is that outcome. Frames are named by their index, a page
  by its address.
\<close>

unbundle bit_operations_syntax

section \<open>The code\<close>

definition MMAP_ADDR :: u32 where "MMAP_ADDR = 0x200000"
definition KERNEL_SPACE :: u32 where "KERNEL_SPACE = 0x400000"

abbreviation mmap :: "machine \<Rightarrow> u32 \<Rightarrow> u8" where
  "mmap s i \<equiv> mem s (MMAP_ADDR + i)"

abbreviation set_mmap :: "u32 \<Rightarrow> u8 \<Rightarrow> machine \<Rightarrow> machine" where
  "set_mmap i c s \<equiv> s\<lparr>mem := (mem s)(MMAP_ADDR + i := c)\<rparr>"

text \<open>The search loop from frame \<open>i\<close> to below frame \<open>hi\<close>.\<close>

lemma unat_inc: "(i :: u32) < hi \<Longrightarrow> unat (i + 1) = unat i + 1"
  using unat_add_nat [of i 1] u32_bound [of hi] by (simp add: word_less_nat_alt)

function scan_free :: "mem \<Rightarrow> u32 \<Rightarrow> u32 \<Rightarrow> u32 option" where
  "scan_free m i hi =
     (if i < hi then if m (MMAP_ADDR + i) = 0 then Some i else scan_free m (i + 1) hi else None)"
  by pat_completeness auto
termination
  by (relation "measure (\<lambda>(m, i, hi). unat hi - unat i)") (auto simp: unat_inc word_less_nat_alt)

declare scan_free.simps [simp del]

partial_function (option) get_free_page :: "machine \<Rightarrow> (u32 \<times> machine) option" where
  "get_free_page s =
     (case scan_free (mem s) (drop_bit 12 KERNEL_SPACE) (drop_bit 12 (KMEM s)) of
        Some i \<Rightarrow> Some (push_bit 12 i, set_mmap i 1 s)
      | None \<Rightarrow> get_free_page s)"

definition uget_free_page :: "machine \<Rightarrow> (u32 \<times> machine) option" where
  "uget_free_page s =
     (case scan_free (mem s) (drop_bit 12 (KMEM s)) (drop_bit 12 (HMEM s)) of
        Some i \<Rightarrow> Some (push_bit 12 i, set_mmap i 1 s)
      | None \<Rightarrow> get_free_page s)"

definition free_page :: "u32 \<Rightarrow> machine \<Rightarrow> int \<times> machine" where
  "free_page addr s =
     (if addr > HMEM s then (-1, s)
      else if mmap s (drop_bit 12 addr) = 0 then (-1, s)
      else (0, set_mmap (drop_bit 12 addr) (mmap s (drop_bit 12 addr) - 1) s))"

section \<open>Pages and frames\<close>

definition page :: "u32 \<Rightarrow> bool" where
  "page p \<longleftrightarrow> unat p mod 4096 = 0"

text \<open>A page the kernel allocator hands out: above the first 4 MB, so clear of \<open>mmap\<close>.\<close>

definition kpage :: "u32 \<Rightarrow> bool" where
  "kpage p \<longleftrightarrow> page p \<and> 0x400000 \<le> unat p"

definition taken :: "machine \<Rightarrow> u32 \<Rightarrow> bool" where
  "taken s p \<longleftrightarrow> mmap s (drop_bit 12 p) \<noteq> 0"

lemma page_end: "page p \<Longrightarrow> unat p + 4096 \<le> 2 ^ 32"
  using u32_bound [of p] by (auto simp: page_def)

lemma unat_frame: "unat (drop_bit 12 (p :: u32)) = unat p div 4096"
  by (simp add: unat_simps)

lemma unat_mmap: "unat (MMAP_ADDR + drop_bit 12 p) = 0x200000 + unat p div 4096"
proof -
  have "unat p div 4096 < 2 ^ 20" using u32_bound [of p] by (simp add: div_less_iff_less_mult)
  then have "unat (drop_bit 12 p) < 2 ^ 20" by (simp add: unat_frame)
  then have "unat (MMAP_ADDR + drop_bit 12 p) = 0x200000 + unat (drop_bit 12 p)"
    using unat_add_nat [of MMAP_ADDR "unat (drop_bit 12 p)"] by (simp add: MMAP_ADDR_def)
  then show ?thesis by (simp add: unat_frame)
qed

lemma unat_push_page: "unat i < 2 ^ 20 \<Longrightarrow> unat (push_bit 12 (i :: u32)) = unat i * 4096"
  by (simp add: push_bit_eq_mult unat_word_ariths)

lemma push_page:
  assumes "unat i < 2 ^ 20"
  shows "page (push_bit 12 i)" and "drop_bit 12 (push_bit 12 i) = (i :: u32)"
  using unat_push_page [OF assms]
  by (simp_all add: page_def word_unat_eq_iff unat_frame)

lemma page_frame: "page p \<Longrightarrow> push_bit 12 (drop_bit 12 p) = p"
  using unat_push_page [of "drop_bit 12 p"] u32_bound [of p]
  by (auto simp: word_unat_eq_iff unat_frame page_def div_less_iff_less_mult)

lemma frame_inj: "page p \<Longrightarrow> page q \<Longrightarrow> drop_bit 12 p = drop_bit 12 q \<longleftrightarrow> p = q"
  using page_frame by metis

lemma page_gap:
  assumes "page p" and "page q" and "p \<noteq> q"
  shows "unat p + 4096 \<le> unat q \<or> unat q + 4096 \<le> unat p"
proof -
  obtain a b where "unat p = 4096 * a" "unat q = 4096 * b"
    using assms(1,2) unfolding page_def by (auto simp: mod_eq_0_iff_dvd elim!: dvdE)
  moreover have "a \<noteq> b" using assms(3) calculation by (auto simp: word_unat_eq_iff)
  ultimately show ?thesis by linarith
qed

section \<open>The search\<close>

text \<open>The first free frame of an interval, if there is one.\<close>

lemma scan_free_Some:
  assumes "scan_free m i hi = Some k"
  shows "i \<le> k \<and> k < hi \<and> m (MMAP_ADDR + k) = 0 \<and> (\<forall>l. i \<le> l \<and> l < k \<longrightarrow> m (MMAP_ADDR + l) \<noteq> 0)"
  using assms
proof (induction m i hi rule: scan_free.induct)
  case (1 m i hi)
  show ?case
  proof (cases "i < hi \<and> m (MMAP_ADDR + i) \<noteq> 0")
    case True
    then have IH: "i + 1 \<le> k \<and> k < hi \<and> m (MMAP_ADDR + k) = 0
        \<and> (\<forall>l. i + 1 \<le> l \<and> l < k \<longrightarrow> m (MMAP_ADDR + l) \<noteq> 0)"
      using 1 by (simp add: scan_free.simps [of m i hi])
    have "i + 1 \<le> l \<longleftrightarrow> i \<le> l \<and> l \<noteq> i" for l
      using True unat_inc [of i hi] by (auto simp: word_le_nat_alt word_unat_eq_iff)
    with IH True show ?thesis by auto
  next
    case False
    with "1.prems" show ?thesis
      by (auto simp: scan_free.simps [of m i hi] split: if_splits)
  qed
qed

lemma scan_free_None:
  "scan_free m i hi = None \<longleftrightarrow> (\<forall>l. i \<le> l \<and> l < hi \<longrightarrow> m (MMAP_ADDR + l) \<noteq> 0)"
proof (induction m i hi rule: scan_free.induct)
  case (1 m i hi)
  show ?case
  proof (cases "i < hi \<and> m (MMAP_ADDR + i) \<noteq> 0")
    case True
    have "i + 1 \<le> l \<longleftrightarrow> i \<le> l \<and> l \<noteq> i" for l
      using True unat_inc [of i hi] by (auto simp: word_le_nat_alt word_unat_eq_iff)
    with 1 True show ?thesis by (auto simp: scan_free.simps [of m i hi])
  next
    case False
    then show ?thesis by (auto simp: scan_free.simps [of m i hi])
  qed
qed

section \<open>Allocation returns or hangs\<close>

text \<open>Frames the kernel allocates from, and frames reserved for user space.\<close>

definition kernel_frame :: "machine \<Rightarrow> u32 \<Rightarrow> bool" where
  "kernel_frame s i \<longleftrightarrow> 0x400 \<le> i \<and> i < drop_bit 12 (KMEM s)"

definition user_frame :: "machine \<Rightarrow> u32 \<Rightarrow> bool" where
  "user_frame s i \<longleftrightarrow> drop_bit 12 (KMEM s) \<le> i \<and> i < drop_bit 12 (HMEM s)"

lemma kernel_start: "drop_bit 12 KERNEL_SPACE = 0x400"
  by (simp add: KERNEL_SPACE_def drop_bit_eq_div)

lemma get_free_page_found:
  "scan_free (mem s) 0x400 (drop_bit 12 (KMEM s)) = Some i
    \<Longrightarrow> get_free_page s = Some (push_bit 12 i, set_mmap i 1 s)"
  by (subst get_free_page.simps) (simp add: kernel_start)

lemma get_free_page_scan:
  assumes "get_free_page s = Some r"
  shows "scan_free (mem s) 0x400 (drop_bit 12 (KMEM s)) \<noteq> None"
proof (rule get_free_page.raw_induct
    [where P = "\<lambda>s r. scan_free (mem s) 0x400 (drop_bit 12 (KMEM s)) \<noteq> None", OF _ assms])
  fix f s r
  assume IH: "\<And>s r. f s = Some r \<Longrightarrow> scan_free (mem s) 0x400 (drop_bit 12 (KMEM s)) \<noteq> None"
    and eq: "(case scan_free (mem s) (drop_bit 12 KERNEL_SPACE) (drop_bit 12 (KMEM s)) of
        None \<Rightarrow> f s | Some i \<Rightarrow> Some (push_bit 12 i, set_mmap i 1 s)) = Some r"
  show "scan_free (mem s) 0x400 (drop_bit 12 (KMEM s)) \<noteq> None"
  proof
    assume "scan_free (mem s) 0x400 (drop_bit 12 (KMEM s)) = None"
    moreover from this eq have "f s = Some r" by (simp add: kernel_start)
    ultimately show False using IH by blast
  qed
qed

lemma get_free_page_cases:
  "get_free_page s =
    (case scan_free (mem s) 0x400 (drop_bit 12 (KMEM s)) of
       Some i \<Rightarrow> Some (push_bit 12 i, set_mmap i 1 s) | None \<Rightarrow> None)"
  using get_free_page_found [of s] get_free_page_scan [of s]
  by (cases "scan_free (mem s) 0x400 (drop_bit 12 (KMEM s))"; cases "get_free_page s") auto

lemma frame_bound: "i < drop_bit 12 (k :: u32) \<Longrightarrow> unat i < 2 ^ 20"
  using u32_bound [of k] by (simp add: word_less_nat_alt unat_frame)

section \<open>The allocators as sources of frames\<close>

text \<open>
  What the rest of the kernel relies on when it takes a page: it is a page nobody holds, and
  the only effect is its reference count, which becomes one.
\<close>

locale frame_source =
  fixes get :: "machine \<Rightarrow> (u32 \<times> machine) option"
  assumes get_page: "get s = Some (p, s') \<Longrightarrow> page p"
    and get_fresh: "get s = Some (p, s') \<Longrightarrow> \<not> taken s p"
    and get_state: "get s = Some (p, s') \<Longrightarrow> s' = set_mmap (drop_bit 12 p) 1 s"
begin

lemma taken_after:
  assumes "get s = Some (p, s')" and "page q"
  shows "taken s' q \<longleftrightarrow> taken s q \<or> q = p"
proof -
  have "drop_bit 12 q = drop_bit 12 p \<longleftrightarrow> q = p"
    by (rule frame_inj [OF assms(2) get_page [OF assms(1)]])
  then show ?thesis by (auto simp: taken_def get_state [OF assms(1)])
qed

lemma distinct_from_taken:
  "get s = Some (p, s') \<Longrightarrow> taken s q \<Longrightarrow> p \<noteq> q"
  using get_fresh by auto

lemma only_mem_after: "get s = Some (p, s') \<Longrightarrow> only_mem s s'"
  by (drule get_state) simp

lemmas globals_kept = only_mem_fields [OF only_mem_after]

lemma mem_after:
  assumes "get s = Some (p, s')" and "\<not> in_range MMAP_ADDR 0x100000 a"
  shows "mem s' a = mem s a"
proof -
  have "a \<noteq> MMAP_ADDR + drop_bit 12 p"
    using assms(2) unat_mmap [of p] u32_bound [of p]
    by (auto simp: in_range_def MMAP_ADDR_def)
  then show ?thesis by (simp add: get_state [OF assms(1)])
qed

end

interpretation kernel_pages: frame_source get_free_page
proof
  fix s p s'
  assume "get_free_page s = Some (p, s')"
  then obtain i where i: "scan_free (mem s) 0x400 (drop_bit 12 (KMEM s)) = Some i"
    and p: "p = push_bit 12 i" and s': "s' = set_mmap i 1 s"
    by (auto simp: get_free_page_cases split: option.splits)
  have b: "unat i < 2 ^ 20" using scan_free_Some [OF i] frame_bound by blast
  show "page p" and "\<not> taken s p" and "s' = set_mmap (drop_bit 12 p) 1 s"
    using scan_free_Some [OF i] by (simp_all add: p s' push_page [OF b] taken_def)
qed

interpretation user_pages: frame_source uget_free_page
proof
  fix s p s'
  assume u: "uget_free_page s = Some (p, s')"
  have "page p \<and> \<not> taken s p \<and> s' = set_mmap (drop_bit 12 p) 1 s"
  proof (cases "scan_free (mem s) (drop_bit 12 (KMEM s)) (drop_bit 12 (HMEM s))")
    case None
    with u have "get_free_page s = Some (p, s')" by (simp add: uget_free_page_def)
    then show ?thesis
      using kernel_pages.get_page kernel_pages.get_fresh kernel_pages.get_state by blast
  next
    case (Some i)
    then have b: "unat i < 2 ^ 20" using scan_free_Some frame_bound by blast
    from Some u have "p = push_bit 12 i" "s' = set_mmap i 1 s" by (auto simp: uget_free_page_def)
    then show ?thesis
      using scan_free_Some [OF Some] by (simp add: push_page [OF b] taken_def)
  qed
  then show "page p" and "\<not> taken s p" and "s' = set_mmap (drop_bit 12 p) 1 s" by auto
qed

lemma kernel_kpage:
  assumes "get_free_page s = Some (p, s')"
  shows "kpage p" and "unat p + 4096 \<le> unat (KMEM s)"
proof -
  from assms obtain i where i: "scan_free (mem s) 0x400 (drop_bit 12 (KMEM s)) = Some i"
    and p: "p = push_bit 12 i"
    by (auto simp: get_free_page_cases split: option.splits)
  from scan_free_Some [OF i] have r: "0x400 \<le> i" "i < drop_bit 12 (KMEM s)" by auto
  then have "0x400 \<le> unat i" "unat i + 1 \<le> unat (KMEM s) div 4096"
    by (simp_all add: word_le_nat_alt word_less_nat_alt unat_frame)
  moreover have "unat p = unat i * 4096"
    unfolding p by (rule unat_push_page [OF frame_bound [OF r(2)]])
  moreover have "unat (KMEM s) div 4096 * 4096 \<le> unat (KMEM s)" by simp
  ultimately show "kpage p" and "unat p + 4096 \<le> unat (KMEM s)"
    by (auto simp: kpage_def page_def)
qed

lemma user_page_bound:
  assumes "uget_free_page s = Some (p, s')" and "KMEM s \<le> HMEM s"
  shows "unat p + 4096 \<le> unat (HMEM s)"
proof (cases "scan_free (mem s) (drop_bit 12 (KMEM s)) (drop_bit 12 (HMEM s))")
  case None
  with assms(1) have "get_free_page s = Some (p, s')" by (simp add: uget_free_page_def)
  from kernel_kpage(2) [OF this] assms(2) show ?thesis by (simp add: word_le_nat_alt)
next
  case (Some i)
  with assms(1) have p: "p = push_bit 12 i" by (simp add: uget_free_page_def)
  from scan_free_Some [OF Some] have r: "i < drop_bit 12 (HMEM s)" by auto
  then have "unat i + 1 \<le> unat (HMEM s) div 4096" by (simp add: word_less_nat_alt unat_frame)
  moreover have "unat p = unat i * 4096"
    unfolding p by (rule unat_push_page [OF frame_bound [OF r]])
  moreover have "unat (HMEM s) div 4096 * 4096 \<le> unat (HMEM s)" by simp
  ultimately show ?thesis by linarith
qed

section \<open>Counting free pages\<close>

text \<open>The pages \<open>get_free_page\<close> can still hand out.\<close>

definition free_pages :: "machine \<Rightarrow> u32 set" where
  "free_pages s = {p. kpage p \<and> unat p div 4096 < unat (KMEM s) div 4096 \<and> \<not> taken s p}"

lemma get_free_page_progress:
  assumes "p \<in> free_pages s"
  shows "\<exists>q s'. get_free_page s = Some (q, s')"
proof -
  have "0x400 \<le> drop_bit 12 p" "drop_bit 12 p < drop_bit 12 (KMEM s)" "mmap s (drop_bit 12 p) = 0"
    using assms by (auto simp: free_pages_def kpage_def taken_def word_le_nat_alt
        word_less_nat_alt unat_frame)
  then have "scan_free (mem s) 0x400 (drop_bit 12 (KMEM s)) \<noteq> None"
    by (auto simp: scan_free_None)
  then show ?thesis by (auto simp: get_free_page_cases)
qed

lemma free_pages_get:
  assumes "get_free_page s = Some (p, s')"
  shows "p \<in> free_pages s" and "free_pages s' = free_pages s - {p}"
proof -
  have "unat p div 4096 < unat (KMEM s) div 4096"
    using kernel_kpage(2) [OF assms] by (simp add: less_eq_div_iff_mult_less_eq Suc_le_eq [symmetric])
  then show "p \<in> free_pages s"
    using kernel_kpage(1) [OF assms] kernel_pages.get_fresh [OF assms] by (simp add: free_pages_def)
  show "free_pages s' = free_pages s - {p}"
    using kernel_pages.taken_after [OF assms] kernel_pages.globals_kept(1) [OF assms]
    by (auto simp: free_pages_def kpage_def)
qed

section \<open>Clients of the allocator\<close>

text \<open>
  A run of the allocator: pages are taken for the kernel or for user space and given back by
  whoever holds them, in any order. The set is what is held.
\<close>

inductive alloc_run :: "machine \<Rightarrow> machine \<Rightarrow> u32 set \<Rightarrow> bool" for s0 :: machine where
  start: "alloc_run s0 s0 {}"
| take_kernel: "alloc_run s0 s H \<Longrightarrow> get_free_page s = Some (p, s') \<Longrightarrow> alloc_run s0 s' (insert p H)"
| take_user: "alloc_run s0 s H \<Longrightarrow> uget_free_page s = Some (p, s') \<Longrightarrow> alloc_run s0 s' (insert p H)"
| give_back: "alloc_run s0 s H \<Longrightarrow> p \<in> H \<Longrightarrow> free_page p s = (r, s') \<Longrightarrow> alloc_run s0 s' (H - {p})"

definition holds :: "machine \<Rightarrow> u32 set \<Rightarrow> bool" where
  "holds s H \<longleftrightarrow> KMEM s \<le> HMEM s
     \<and> (\<forall>p \<in> H. page p \<and> mmap s (drop_bit 12 p) = 1 \<and> unat p < unat (HMEM s))"

lemma holds_insert:
  assumes "holds s H" and "page p" and "\<not> taken s p" and "s' = set_mmap (drop_bit 12 p) 1 s"
    and "unat p < unat (HMEM s)"
  shows "holds s' (insert p H)"
  using assms by (auto simp: holds_def)

lemma free_page_held:
  assumes "holds s H" and "p \<in> H"
  shows "free_page p s = (0, set_mmap (drop_bit 12 p) 0 s)"
  using assms by (auto simp: holds_def free_page_def word_less_nat_alt)

lemma holds_remove:
  assumes "holds s H" and "p \<in> H"
  shows "holds (set_mmap (drop_bit 12 p) 0 s) (H - {p})"
proof -
  have "drop_bit 12 q \<noteq> drop_bit 12 p" if "q \<in> H - {p}" for q
    using that assms frame_inj [of q p] by (auto simp: holds_def)
  then show ?thesis using assms(1) by (auto simp: holds_def)
qed

lemma alloc_run_holds:
  assumes "alloc_run s0 s H" and "KMEM s0 \<le> HMEM s0"
  shows "holds s H"
  using assms(1)
proof (induction rule: alloc_run.induct)
  case start
  then show ?case using assms(2) by (simp add: holds_def)
next
  case (take_kernel s H p s')
  have "unat p < unat (HMEM s)"
    using kernel_kpage(2) [OF take_kernel.hyps(2)] take_kernel.IH
    by (auto simp: holds_def word_le_nat_alt)
  then show ?case
    using take_kernel kernel_pages.get_page kernel_pages.get_fresh kernel_pages.get_state
    by (blast intro: holds_insert)
next
  case (take_user s H p s')
  have "unat p < unat (HMEM s)"
    using user_page_bound [OF take_user.hyps(2)] take_user.IH by (auto simp: holds_def)
  then show ?case
    using take_user user_pages.get_page user_pages.get_fresh user_pages.get_state
    by (blast intro: holds_insert)
next
  case (give_back s H p r s')
  then show ?case using free_page_held holds_remove by fastforce
qed

section \<open>Properties\<close>

text \<open>
  \<open>get_free_page\<close> is a first fit over the frames from 4 MB to \<open>KMEM\<close>: it returns the address
  of the lowest frame whose count is zero, with that count set to one and nothing else changed.
\<close>

theorem get_free_page_first_fit:
  assumes "kernel_frame s i" and "mmap s i = 0" and "\<forall>l. kernel_frame s l \<and> l < i \<longrightarrow> mmap s l \<noteq> 0"
  shows "get_free_page s = Some (push_bit 12 i, set_mmap i 1 s)"
proof (cases "scan_free (mem s) 0x400 (drop_bit 12 (KMEM s))")
  case None
  with assms(1,2) show ?thesis by (auto simp: scan_free_None kernel_frame_def)
next
  case (Some k)
  from scan_free_Some [OF Some] have k: "kernel_frame s k" "mmap s k = 0"
    "\<forall>l. 0x400 \<le> l \<and> l < k \<longrightarrow> mmap s l \<noteq> 0"
    by (auto simp: kernel_frame_def)
  have "k = i"
    using assms k by (metis kernel_frame_def linorder_less_linear)
  with Some show ?thesis by (simp add: get_free_page_cases)
qed

text \<open>
  \<open>get_free_page\<close> does not return exactly when no frame between 4 MB and \<open>KMEM\<close> is free:
  the outer loop repeats the same search for ever, there is no error result.
\<close>

theorem get_free_page_hangs:
  "get_free_page s = None \<longleftrightarrow> (\<forall>i. kernel_frame s i \<longrightarrow> mmap s i \<noteq> 0)"
  by (auto simp: get_free_page_cases scan_free_None kernel_frame_def split: option.splits
      dest!: scan_free_Some)

text \<open>
  C34: exclusive ownership. In any run of allocations for the kernel or user space and releases
  of held pages, a newly allocated page is not one that is still held, and releasing a held
  page succeeds and frees it.
\<close>

theorem allocation_exclusive:
  assumes "alloc_run s0 s H" and "KMEM s0 \<le> HMEM s0"
  shows "(\<forall>p s'. get_free_page s = Some (p, s') \<or> uget_free_page s = Some (p, s') \<longrightarrow> p \<notin> H)
    \<and> (\<forall>q \<in> H. fst (free_page q s) = 0 \<and> \<not> taken (snd (free_page q s)) q)"
proof -
  have h: "holds s H" by (rule alloc_run_holds [OF assms])
  then have "taken s p" if "p \<in> H" for p using that by (auto simp: holds_def taken_def)
  moreover have "fst (free_page q s) = 0 \<and> \<not> taken (snd (free_page q s)) q" if "q \<in> H" for q
    by (simp add: free_page_held [OF h that] taken_def)
  ultimately show ?thesis
    using kernel_pages.get_fresh user_pages.get_fresh by blast
qed

text \<open>
  Giving back at once the page just allocated, by either allocator, restores the machine
  exactly.
\<close>

theorem alloc_free_roundtrip:
  assumes "get_free_page s = Some (p, s') \<or> uget_free_page s = Some (p, s')"
    and "KMEM s \<le> HMEM s"
  shows "free_page p s' = (0, s)"
proof -
  have "\<not> taken s p" and s': "s' = set_mmap (drop_bit 12 p) 1 s"
    using assms(1) kernel_pages.get_fresh kernel_pages.get_state
      user_pages.get_fresh user_pages.get_state by blast+
  then have "(mem s)(MMAP_ADDR + drop_bit 12 p := 0) = mem s"
    by (simp add: taken_def fun_upd_idem)
  moreover have "unat p < unat (HMEM s)"
    using assms kernel_kpage(2) user_page_bound by (fastforce simp: word_le_nat_alt)
  ultimately show ?thesis by (simp add: s' free_page_def word_less_nat_alt)
qed

text \<open>
  User pages come from the frames between \<open>KMEM\<close> and \<open>HMEM\<close> first (the lowest free one),
  and from the kernel's frames only when none of those is free.
\<close>

theorem uget_free_page_prefers_user:
  "(\<exists>i. user_frame s i \<and> mmap s i = 0 \<and> (\<forall>l. user_frame s l \<and> l < i \<longrightarrow> mmap s l \<noteq> 0)
      \<and> uget_free_page s = Some (push_bit 12 i, set_mmap i 1 s))
   \<or> (\<forall>i. user_frame s i \<longrightarrow> mmap s i \<noteq> 0) \<and> uget_free_page s = get_free_page s"
proof (cases "scan_free (mem s) (drop_bit 12 (KMEM s)) (drop_bit 12 (HMEM s))")
  case None
  then have "uget_free_page s = get_free_page s" by (simp add: uget_free_page_def)
  with None [unfolded scan_free_None] show ?thesis by (simp add: user_frame_def)
next
  case (Some i)
  with scan_free_Some [OF Some] show ?thesis
    by (auto simp: user_frame_def uget_free_page_def)
qed

section \<open>Witnesses\<close>

text \<open>A machine of 16 MB, all of it free, 8 MB of it the kernel's.\<close>

definition free_machine :: machine where
  "free_machine = (boot_machine (\<lambda>_. 0) 0x310000)\<lparr>KMEM := 0x800000, HMEM := 0x1000000\<rparr>"

lemma free_machine_simps:
  "mem free_machine = (\<lambda>_. 0)" "KMEM free_machine = 0x800000" "HMEM free_machine = 0x1000000"
  by (simp_all add: free_machine_def boot_machine_def)

lemma free_machine_get:
  "get_free_page free_machine = Some (0x400000, set_mmap 0x400 1 free_machine)"
proof -
  have "scan_free (mem free_machine) 0x400 (drop_bit 12 (KMEM free_machine)) = Some 0x400"
    by (subst scan_free.simps) (simp add: free_machine_simps drop_bit_eq_div)
  from get_free_page_found [OF this] show ?thesis by (simp add: push_bit_eq_mult)
qed

theorem get_free_page_first_fit_witness:
  "get_free_page (set_mmap 0x400 1 free_machine)
     = Some (0x401000, set_mmap 0x401 1 (set_mmap 0x400 1 free_machine))"
proof -
  have "l = 0x400" if "0x400 \<le> l" "l < 0x401" for l :: u32
    using that by (simp add: word_le_nat_alt word_less_nat_alt word_unat_eq_iff)
  then show ?thesis
    using get_free_page_first_fit [of "set_mmap 0x400 1 free_machine" "0x401"]
    by (auto simp: kernel_frame_def free_machine_simps drop_bit_eq_div push_bit_eq_mult)
qed

theorem get_free_page_hangs_witness:
  "get_free_page (free_machine\<lparr>KMEM := 0x3FFFFF\<rparr>) = None"
  using get_free_page_hangs [of "free_machine\<lparr>KMEM := 0x3FFFFF\<rparr>"]
  by (auto simp: kernel_frame_def drop_bit_eq_div word_le_nat_alt word_less_nat_alt)

theorem allocation_exclusive_witness:
  "fst (free_page 0x400000 (set_mmap 0x400 1 free_machine)) = 0"
proof -
  have "alloc_run free_machine (set_mmap 0x400 1 free_machine) {0x400000}"
    by (rule alloc_run.take_kernel [OF alloc_run.start free_machine_get])
  from allocation_exclusive [OF this] show ?thesis by (simp add: free_machine_simps)
qed

theorem alloc_free_roundtrip_witness:
  "free_page 0x400000 (set_mmap 0x400 1 free_machine) = (0, free_machine)"
  by (rule alloc_free_roundtrip) (simp_all add: free_machine_get free_machine_simps)

theorem uget_free_page_prefers_user_witness:
  "\<exists>i. user_frame free_machine i
     \<and> uget_free_page free_machine = Some (push_bit 12 i, set_mmap i 1 free_machine)"
proof -
  have "user_frame free_machine 0x800 \<and> mmap free_machine 0x800 = 0"
    by (simp add: user_frame_def free_machine_simps drop_bit_eq_div)
  with uget_free_page_prefers_user [of free_machine] show ?thesis by blast
qed

end
