(* ===== verification/Malloc.thy ===== *)
theory Malloc
  imports PageAlloc
begin

text \<open>
  \<open>kernel/malloc.c\<close>: blocks with a 16 byte header \<open>mlT\<close> in memory, the free ones in a doubly linked
  list sorted by size behind a static head node. Nodes are addresses, \<open>0\<close> is \<open>NULL\<close>, and every
  field access is a load or store in memory, so that a wrong or null pointer is followed as the
  processor would. Loops over links may not end; \<open>None\<close> is that outcome.
\<close>

unbundle bit_operations_syntax

section \<open>The code\<close>

definition FREE :: u32 where "FREE = 0xFE"
definition BUSY :: u32 where "BUSY = 0xFB"

text \<open>The fields of \<open>mlT\<close>, and its size.\<close>

abbreviation (input) nd_size :: "u32 \<Rightarrow> u32" where "nd_size p \<equiv> p"
abbreviation nd_next :: "u32 \<Rightarrow> u32" where "nd_next p \<equiv> p + 4"
abbreviation nd_root :: "u32 \<Rightarrow> u32" where "nd_root p \<equiv> p + 8"
abbreviation nd_state :: "u32 \<Rightarrow> u32" where "nd_state p \<equiv> p + 12"
definition sizeof_mlT :: u32 where "sizeof_mlT = 16"

partial_function (option) ml_add :: "mem \<Rightarrow> u32 \<Rightarrow> u32 \<Rightarrow> (u32 \<times> mem) option" where
  "ml_add m ml mm =
     (if ml = 0 then
        let m = store32 m (nd_root mm) 0;
            m = store32 m (nd_next mm) 0
        in Some (mm, m)
      else if load32 m (nd_size ml) \<ge> load32 m (nd_size mm) then
        let m = store32 m (nd_root mm) (load32 m (nd_root ml));
            m = store32 m (nd_root ml) mm;
            m = store32 m (nd_next mm) ml
        in Some (mm, m)
      else
        do { (r, m) \<leftarrow> ml_add m (load32 m (nd_next ml)) mm;
             let m = store32 m (nd_next ml) r;
             Some (ml, store32 m (nd_root (load32 m (nd_next ml))) ml) })"

partial_function (option) ml_find :: "mem \<Rightarrow> u32 \<Rightarrow> u32 \<Rightarrow> u32 option" where
  "ml_find m ml sz =
     (if ml \<noteq> 0
      then if load32 m (nd_size ml) \<ge> sz then Some ml else ml_find m (load32 m (nd_next ml)) sz
      else Some ml)"

definition ml_del :: "mem \<Rightarrow> u32 \<Rightarrow> mem" where
  "ml_del m mm =
     (if mm \<noteq> 0
      then let m = store32 m (nd_next (load32 m (nd_root mm))) (load32 m (nd_next mm))
           in if load32 m (nd_next mm) \<noteq> 0
              then store32 m (nd_root (load32 m (nd_next mm))) (load32 m (nd_root mm))
              else m
      else m)"

definition unite :: "mem \<Rightarrow> u32 \<Rightarrow> mem" where
  "unite m mm =
     (if mm \<noteq> 0
      then let nextm = mm + load32 m (nd_size mm) + sizeof_mlT
           in if nextm AND NOT 0xfff = mm AND NOT 0xfff \<and> load32 m (nd_state nextm) = FREE
              then let m = ml_del m nextm
                   in store32 m (nd_size mm)
                        (load32 m (nd_size mm) + (load32 m (nd_size nextm) + sizeof_mlT))
              else m
      else m)"

text \<open>The inner loop of \<open>clean\<close>: unite until the size no longer changes.\<close>

partial_function (option) unite_all :: "mem \<Rightarrow> u32 \<Rightarrow> mem option" where
  "unite_all m mm =
     (let sz = load32 m (nd_size mm); m = unite m mm
      in if sz \<noteq> load32 m (nd_size mm) then unite_all m mm else Some m)"

partial_function (option) clean_loop :: "mem \<Rightarrow> u32 \<Rightarrow> u32 \<Rightarrow> (u32 \<times> mem) option" where
  "clean_loop m ml mm =
     (if mm \<noteq> 0
      then let nextm = load32 m (nd_root mm)
           in do { m \<leftarrow> unite_all (ml_del m mm) mm;
                   (ml, m) \<leftarrow> ml_add m ml mm;
                   let nn = load32 m (nd_next nextm);
                   clean_loop m ml (if mm \<noteq> nn then nn else load32 m (nd_next nn)) }
      else Some (ml, m))"

definition clean :: "mem \<Rightarrow> u32 \<Rightarrow> (u32 \<times> mem) option" where
  "clean m ml = clean_loop m ml (load32 m (nd_next ml))"

text \<open>A new page becomes one free block. \<open>get_free_page\<close> returns no null pointer.\<close>

definition new_block :: "mem \<Rightarrow> u32 \<Rightarrow> mem" where
  "new_block m nm =
     (let m = store32 m (nd_next nm) 0;
          m = store32 m (nd_root nm) 0;
          m = store32 m (nd_state nm) FREE
      in store32 m (nd_size nm) (0x1000 - sizeof_mlT))"

text \<open>The search that adds pages until a block is large enough; a null page ends it.\<close>

partial_function (option) grow :: "u32 \<Rightarrow> machine \<Rightarrow> (u32 option \<times> machine) option" where
  "grow sz s =
     do { mm \<leftarrow> ml_find (mem s) (mmList s) sz;
          if mm \<noteq> 0 then Some (Some mm, s)
          else do { (nm, s) \<leftarrow> get_free_page s;
                    if nm = 0 then Some (None, s)
                    else do { (hd, m) \<leftarrow> ml_add (new_block (mem s) nm) (mmList s) nm;
                              grow sz (s\<lparr>mem := m, mmList := hd\<rparr>) } } }"

text \<open>Taking the block \<open>mm\<close>: the rest of it becomes a free block if it holds four bytes.\<close>

definition take_block :: "u32 \<Rightarrow> u32 \<Rightarrow> machine \<Rightarrow> (u32 \<times> machine) option" where
  "take_block sz mm s =
     (let m = ml_del (mem s) mm
      in do { (hd, m) \<leftarrow>
                (if load32 m (nd_size mm) \<ge> sz + 4 + sizeof_mlT
                 then let nm = mm + sz + sizeof_mlT;
                          m = store32 m (nd_state nm) FREE;
                          m = store32 m (nd_root nm) 0;
                          m = store32 m (nd_size nm) (load32 m (nd_size mm) - sz - sizeof_mlT)
                      in do { (hd, m) \<leftarrow> ml_add m (mmList s) nm;
                              Some (hd, store32 m (nd_size mm) sz) }
                 else Some (mmList s, m));
              Some (mm + sizeof_mlT, s\<lparr>mem := store32 m (nd_state mm) BUSY, mmList := hd\<rparr>) })"

definition round4 :: "u32 \<Rightarrow> u32" where
  "round4 sz = push_bit 2 (drop_bit 2 (sz + 3))"

definition malloc :: "u32 \<Rightarrow> machine \<Rightarrow> (u32 \<times> machine) option" where
  "malloc sz s =
     (let sz = round4 sz
      in do { mm \<leftarrow> ml_find (mem s) (mmList s) sz;
              if mm = 0
              then do { (hd, m) \<leftarrow> clean (mem s) (mmList s);
                        (r, s) \<leftarrow> grow sz (s\<lparr>mem := m, mmList := hd\<rparr>);
                        case r of None \<Rightarrow> Some (0, s) | Some mm \<Rightarrow> take_block sz mm s }
              else take_block sz mm s })"

definition free :: "u32 \<Rightarrow> machine \<Rightarrow> machine option" where
  "free p s =
     (if p \<noteq> 0
      then let mm = p - sizeof_mlT;
               m = unite (mem s) mm;
               m = store32 m (nd_state mm) FREE
           in do { (hd, m) \<leftarrow> ml_add m (mmList s) mm; Some (s\<lparr>mem := m, mmList := hd\<rparr>) }
      else Some s)"

section \<open>Headers\<close>

text \<open>Fields of headers that do not overlap are independent.\<close>

lemma field_other:
  assumes "apart n 16 k 16" and "i \<le> 12" and "j \<le> 12"
  shows "load32 (store32 m (n + of_nat i) v) (k + of_nat j) = load32 m (k + of_nat j)"
proof (rule load32_store32_apart)
  have "unat (n + of_nat i) = unat n + i" "unat (k + of_nat j) = unat k + j"
    using assms by (auto intro!: unat_add_nat simp: apart_def)
  then show "apart (n + of_nat i) 4 (k + of_nat j) 4" using assms by (auto simp: apart_def)
qed

lemma field_same:
  assumes "unat n + 16 \<le> 2 ^ 32" and "i \<le> 12" and "j \<le> 12" and "i + 4 \<le> j \<or> j + 4 \<le> i"
  shows "load32 (store32 m (n + of_nat i) v) (n + of_nat j) = load32 m (n + of_nat j)"
proof (rule load32_store32_apart)
  have "unat (n + of_nat i) = unat n + i" "unat (n + of_nat j) = unat n + j"
    using assms by (auto intro!: unat_add_nat)
  then show "apart (n + of_nat i) 4 (n + of_nat j) 4" using assms by (auto simp: apart_def)
qed

text \<open>The instances for the four fields.\<close>

lemmas fields_other =
  field_other [where i = 0 and j = 0, simplified]
  field_other [where i = 0 and j = 4, simplified]
  field_other [where i = 0 and j = 8, simplified]
  field_other [where i = 0 and j = 12, simplified]
  field_other [where i = 4 and j = 0, simplified]
  field_other [where i = 4 and j = 4, simplified]
  field_other [where i = 4 and j = 8, simplified]
  field_other [where i = 4 and j = 12, simplified]
  field_other [where i = 8 and j = 0, simplified]
  field_other [where i = 8 and j = 4, simplified]
  field_other [where i = 8 and j = 8, simplified]
  field_other [where i = 8 and j = 12, simplified]
  field_other [where i = 12 and j = 0, simplified]
  field_other [where i = 12 and j = 4, simplified]
  field_other [where i = 12 and j = 8, simplified]
  field_other [where i = 12 and j = 12, simplified]

lemmas fields_same =
  field_same [where i = 0 and j = 4, simplified]
  field_same [where i = 0 and j = 8, simplified]
  field_same [where i = 0 and j = 12, simplified]
  field_same [where i = 4 and j = 0, simplified]
  field_same [where i = 4 and j = 8, simplified]
  field_same [where i = 4 and j = 12, simplified]
  field_same [where i = 8 and j = 0, simplified]
  field_same [where i = 8 and j = 4, simplified]
  field_same [where i = 8 and j = 12, simplified]
  field_same [where i = 12 and j = 0, simplified]
  field_same [where i = 12 and j = 4, simplified]
  field_same [where i = 12 and j = 8, simplified]

section \<open>The free list\<close>

primrec dll :: "mem \<Rightarrow> u32 \<Rightarrow> u32 \<Rightarrow> u32 list \<Rightarrow> bool" where
  "dll m prev p [] \<longleftrightarrow> p = 0"
| "dll m prev p (n # ns) \<longleftrightarrow>
     p = n \<and> n \<noteq> 0 \<and> load32 m (nd_root n) = prev \<and> dll m n (load32 m (nd_next n)) ns"

primrec separate :: "u32 list \<Rightarrow> bool" where
  "separate [] \<longleftrightarrow> True"
| "separate (n # ns) \<longleftrightarrow> unat n + 16 \<le> 2 ^ 32 \<and> (\<forall>k \<in> set ns. apart n 16 k 16) \<and> separate ns"

lemma dll_cong:
  assumes "\<And>n. n \<in> set ns \<Longrightarrow> load32 m (nd_next n) = load32 m' (nd_next n)"
    and "\<And>n. n \<in> set ns \<Longrightarrow> load32 m (nd_root n) = load32 m' (nd_root n)"
  shows "dll m prev p ns = dll m' prev p ns"
  using assms by (induction ns arbitrary: prev p) auto

lemma separate_apart: "separate ns \<Longrightarrow> n \<in> set ns \<Longrightarrow> k \<in> set ns \<Longrightarrow> n \<noteq> k \<Longrightarrow> apart n 16 k 16"
  by (induction ns) (auto intro: apart_sym)

lemma separate_end: "separate ns \<Longrightarrow> n \<in> set ns \<Longrightarrow> unat n + 16 \<le> 2 ^ 32"
  by (induction ns) auto

lemma apart_irrefl: "\<not> apart n 16 n 16"
  by (auto simp: apart_def)

lemma separate_distinct: "separate ns \<Longrightarrow> distinct ns"
  by (induction ns) (auto simp: apart_irrefl)

text \<open>Writing the \<open>next\<close> or \<open>root\<close> field of one node of the list.\<close>

lemma load_frame:
  assumes "\<And>a. \<forall>n \<in> A. apart n 16 a 1 \<Longrightarrow> m' a = m a" and "\<forall>n \<in> A. apart n 16 k 16" and "i \<le> 12"
  shows "load32 m' (k + of_nat i) = load32 m (k + of_nat i)"
proof (rule load32_cong)
  fix l :: nat
  assume "l < 4"
  have "apart n 16 (k + of_nat (i + l)) 1" if "n \<in> A" for n
    using apart_byte [of n 16 k 16 "i + l"] assms(2,3) that \<open>l < 4\<close> by simp
  then show "m' (k + of_nat i + of_nat l) = m (k + of_nat i + of_nat l)"
    using assms(1) by (simp add: add.assoc)
qed

lemmas loads_frame = load_frame [where i = 0, simplified] load_frame [where i = 4, simplified]
  load_frame [where i = 8, simplified] load_frame [where i = 12, simplified]

text \<open>Where a block is inserted: before the first node that is not smaller.\<close>

abbreviation smaller :: "mem \<Rightarrow> u32 \<Rightarrow> u32 list \<Rightarrow> u32 list" where
  "smaller m mm ns \<equiv> takeWhile (\<lambda>n. load32 m n < load32 m mm) ns"

abbreviation larger :: "mem \<Rightarrow> u32 \<Rightarrow> u32 list \<Rightarrow> u32 list" where
  "larger m mm ns \<equiv> dropWhile (\<lambda>n. load32 m n < load32 m mm) ns"

text \<open>What insertion preserves: sizes and states, and every byte outside the headers involved.\<close>

definition add_frame :: "mem \<Rightarrow> mem \<Rightarrow> u32 list \<Rightarrow> bool" where
  "add_frame m m' ns \<longleftrightarrow>
     (\<forall>n \<in> set ns. load32 m' n = load32 m n \<and> load32 m' (nd_state n) = load32 m (nd_state n))
     \<and> (\<forall>a. (\<forall>n \<in> set ns. apart n 16 a 1) \<longrightarrow> m' a = m a)"

lemma store32_outside:
  assumes "apart n 16 a 1" and "i \<le> 12"
  shows "store32 m (n + of_nat i) v a = m a"
proof (rule store32_byte)
  have "unat (n + of_nat i) = unat n + i" using assms by (auto intro!: unat_add_nat simp: apart_def)
  then show "apart (n + of_nat i) 4 a 1" using assms by (auto simp: apart_def)
qed

lemmas stores_outside = store32_outside [where i = 0, simplified] store32_outside [where i = 4, simplified]
  store32_outside [where i = 8, simplified] store32_outside [where i = 12, simplified]

text \<open>Insertion in front of the node \<open>p\<close>.\<close>

lemma ml_add_front:
  assumes l: "dll m prev p ns" and s: "separate (mm # ns)" and "mm \<noteq> 0"
    and "\<not> (p \<noteq> 0 \<and> load32 m p < load32 m mm)"
  shows "\<exists>m'. ml_add m p mm = Some (mm, m') \<and> dll m' (if ns = [] then 0 else prev) mm (mm # ns)
    \<and> add_frame m m' (mm # ns)"
proof (cases ns)
  case Nil
  then have "p = 0" using l by simp
  with Nil s assms(3) show ?thesis
    by (subst ml_add.simps)
      (simp add: fields_same stores_outside add_frame_def)
next
  case (Cons n ks)
  then have n: "p = n" "n \<noteq> 0" "load32 m (nd_root n) = prev" "dll m n (load32 m (nd_next n)) ks"
    using l by auto
  have sep: "unat mm + 16 \<le> 2 ^ 32" "unat n + 16 \<le> 2 ^ 32" "apart mm 16 n 16" "apart n 16 mm 16"
    "\<forall>k \<in> set ks. apart n 16 k 16 \<and> apart mm 16 k 16"
    using s Cons by (auto intro: apart_sym)
  let ?m = "store32 (store32 (store32 m (nd_root mm) (load32 m (nd_root n))) (nd_root n) mm) (nd_next mm) n"
  have add: "ml_add m p mm = Some (mm, ?m)"
    using n assms(4) by (subst ml_add.simps) (simp add: not_less)
  have "dll ?m n (load32 m (nd_next n)) ks = dll m n (load32 m (nd_next n)) ks"
    by (rule dll_cong) (use sep(5) in \<open>simp_all add: fields_other\<close>)
  then have "dll ?m prev mm (mm # ns)"
    using n sep(1-4) assms(3) Cons by (simp add: fields_other fields_same)
  moreover have "add_frame m ?m (mm # ns)"
    using sep Cons by (auto simp: add_frame_def fields_other fields_same stores_outside)
  ultimately show ?thesis using add Cons by auto
qed

text \<open>Linking a node in front of a list.\<close>

lemma dll_link:
  assumes d: "dll m k r (r # ks)" and s: "separate (n # r # ks)" and "n \<noteq> 0"
  defines "m' \<equiv> store32 (store32 m (nd_next n) r) (nd_root r) n"
  shows "dll m' (load32 m (nd_root n)) n (n # r # ks)" and "add_frame m m' (n # r # ks)"
proof -
  have sep: "unat n + 16 \<le> 2 ^ 32" "unat r + 16 \<le> 2 ^ 32" "apart n 16 r 16" "apart r 16 n 16"
    "\<forall>k \<in> set ks. apart n 16 k 16 \<and> apart r 16 k 16"
    using s by (auto intro: apart_sym)
  have "dll m' r (load32 m (nd_next r)) ks = dll m r (load32 m (nd_next r)) ks"
    by (rule dll_cong) (use sep(5) in \<open>simp_all add: m'_def fields_other\<close>)
  then show "dll m' (load32 m (nd_root n)) n (n # r # ks)"
    using d sep(1-4) \<open>n \<noteq> 0\<close> by (simp add: m'_def fields_other fields_same)
  show "add_frame m m' (n # r # ks)"
    using sep by (auto simp: m'_def add_frame_def fields_other fields_same stores_outside)
qed

lemma add_frame_trans:
  "add_frame m m' ns \<Longrightarrow> add_frame m' m'' ns \<Longrightarrow> add_frame m m'' ns"
  by (auto simp: add_frame_def)

lemma add_frame_mono:
  assumes "add_frame m m' ns" and "separate ks" and "set ns \<subseteq> set ks"
  shows "add_frame m m' ks"
proof -
  have "load32 m' k = load32 m k \<and> load32 m' (nd_state k) = load32 m (nd_state k)"
    if "k \<in> set ks" "k \<notin> set ns" for k
  proof -
    have "\<forall>n \<in> set ns. apart n 16 k 16" using separate_apart [OF assms(2)] that assms(3) by auto
    then show ?thesis
      using assms(1) load_frame [of "set ns" m' m k 0] load_frame [of "set ns" m' m k 12]
      by (simp add: add_frame_def)
  qed
  moreover have "m' a = m a" if "\<forall>k \<in> set ks. apart k 16 a 1" for a
    using assms(1,3) that unfolding add_frame_def by blast
  ultimately show ?thesis using assms(1,3) unfolding add_frame_def by blast
qed

lemma separate_set:
  assumes "separate ns" and "distinct ks" and "set ks \<subseteq> set ns"
  shows "separate ks"
  using assms(2,3)
proof (induction ks)
  case (Cons k ks)
  then show ?case using separate_apart [OF assms(1), of k] separate_end [OF assms(1), of k] by auto
qed simp

lemma insert_set: "set (smaller m mm ns @ mm # larger m mm ns) = set (mm # ns)"
proof -
  have "set ns = set (smaller m mm ns) \<union> set (larger m mm ns)"
    by (simp only: set_append [symmetric] takeWhile_dropWhile_id)
  then show ?thesis by auto
qed

lemma insert_distinct:
  assumes "distinct (mm # ns)"
  shows "distinct (smaller m mm ns @ mm # larger m mm ns)"
proof -
  have "distinct (smaller m mm ns) \<and> distinct (larger m mm ns)
      \<and> set (smaller m mm ns) \<inter> set (larger m mm ns) = {}"
    using assms by (simp only: distinct_append [symmetric] takeWhile_dropWhile_id distinct.simps)
  then show ?thesis using assms by (auto dest: set_takeWhileD set_dropWhileD)
qed

lemma ml_add_spec:
  assumes "dll m prev p ns" and "separate (mm # ns)" and "mm \<noteq> 0"
  shows "\<exists>hd m'. ml_add m p mm = Some (hd, m')
    \<and> dll m' (if ns = [] then 0 else prev) hd (smaller m mm ns @ mm # larger m mm ns)
    \<and> add_frame m m' (mm # ns)"
  using assms(1,2)
proof (induction ns arbitrary: prev p)
  case Nil
  then show ?case using ml_add_front [of m prev p "[]" mm] assms(3) by auto
next
  case (Cons n ks)
  show ?case
  proof (cases "load32 m n < load32 m mm")
    case False
    then show ?thesis using ml_add_front [OF Cons.prems assms(3)] Cons.prems(1) by auto
  next
    case True
    let ?L = "smaller m mm ks @ mm # larger m mm ks"
    have n: "p = n" "n \<noteq> 0" "load32 m (nd_root n) = prev" "dll m n (load32 m (nd_next n)) ks"
      using Cons.prems(1) by auto
    have sep: "separate (mm # ks)" using Cons.prems(2) by simp
    from Cons.IH [OF n(4) sep] obtain r m1 where r: "ml_add m (load32 m (nd_next n)) mm = Some (r, m1)"
      "dll m1 (if ks = [] then 0 else n) r ?L" "add_frame m m1 (mm # ks)" by blast
    then obtain L' where L': "?L = r # L'" by (cases ?L) auto
    define m2 where "m2 = store32 (store32 m1 (nd_next n) r) (nd_root r) n"
    have sepL: "separate (n # r # L')"
      unfolding L' [symmetric]
      by (rule separate_set [OF Cons.prems(2)])
        (use separate_distinct [OF Cons.prems(2)] insert_distinct [of mm ks m] insert_set [of m mm ks] in auto)
    have root: "load32 m1 (nd_root n) = prev"
    proof -
      have "\<forall>k \<in> set (mm # ks). apart k 16 n 16" using Cons.prems(2) by (auto intro: apart_sym)
      then show ?thesis
        using r(3) load_frame [of "set (mm # ks)" m1 m n 8] n(3) by (simp add: add_frame_def)
    qed
    have "dll m1 (if ks = [] then 0 else n) r (r # L')" using r(2) L' by simp
    note link = dll_link [OF this sepL n(2), folded m2_def, unfolded root]
    have "ml_add m p mm = Some (n, m2)"
    proof -
      have "\<not> load32 m mm \<le> load32 m n" using True by simp
      then show ?thesis using n r(1) by (subst ml_add.simps) (simp add: m2_def)
    qed
    moreover have "add_frame m m2 (mm # n # ks)"
    proof (rule add_frame_trans)
      show "add_frame m m1 (mm # n # ks)" by (rule add_frame_mono [OF r(3) Cons.prems(2)]) auto
      show "add_frame m1 m2 (mm # n # ks)"
        by (rule add_frame_mono [OF link(2) Cons.prems(2)]) (use insert_set [of m mm ks] L' in auto)
    qed
    ultimately show ?thesis using link(1) True L' by auto
  qed
qed

text \<open>The search of \<open>find\<close>.\<close>

lemma ml_find_spec:
  "dll m prev p ns \<Longrightarrow> ml_find m p sz
    = Some (case List.find (\<lambda>n. sz \<le> load32 m n) ns of None \<Rightarrow> 0 | Some n \<Rightarrow> n)"
  by (induction ns arbitrary: prev p; subst ml_find.simps) auto

text \<open>Unlinking a node that has a predecessor.\<close>

lemma ml_del_second:
  assumes d: "dll m prev p (x # n # ys)" and s: "separate (x # n # ys)"
  shows "dll (ml_del m n) prev p (x # ys) \<and> add_frame m (ml_del m n) (x # n # ys)"
proof (cases ys)
  case Nil
  then show ?thesis
    using d s by (auto simp: ml_del_def Let_def fields_other fields_same stores_outside add_frame_def
        dest: apart_sym)
next
  case (Cons y zs)
  have f: "p = x" "x \<noteq> 0" "load32 m (nd_root x) = prev" "load32 m (nd_next x) = n" "n \<noteq> 0"
    "load32 m (nd_root n) = x" "load32 m (nd_next n) = y" "y \<noteq> 0" "load32 m (nd_root y) = n"
    "dll m y (load32 m (nd_next y)) zs"
    using d Cons by auto
  have sep: "unat x + 16 \<le> 2 ^ 32" "unat n + 16 \<le> 2 ^ 32" "unat y + 16 \<le> 2 ^ 32"
    "apart x 16 n 16" "apart x 16 y 16" "apart n 16 y 16"
    "apart n 16 x 16" "apart y 16 x 16" "apart y 16 n 16"
    "\<forall>k \<in> set zs. apart x 16 k 16 \<and> apart y 16 k 16"
    using s Cons by (auto intro: apart_sym)
  have m': "ml_del m n = store32 (store32 m (nd_next x) y) (nd_root y) x"
    using f sep by (simp add: ml_del_def Let_def fields_other)
  have "dll (ml_del m n) y (load32 m (nd_next y)) zs = dll m y (load32 m (nd_next y)) zs"
    by (rule dll_cong) (use sep(10) in \<open>simp_all add: m' fields_other\<close>)
  then have "dll (ml_del m n) prev p (x # ys)"
    using f sep Cons by (simp add: m' fields_other fields_same)
  moreover have "add_frame m (ml_del m n) (x # n # ys)"
    using sep Cons by (auto simp: m' add_frame_def fields_other fields_same stores_outside)
  ultimately show ?thesis ..
qed

lemma ml_del_spec:
  assumes "dll m prev p (xs @ n # ys)" and "separate (xs @ n # ys)" and "xs \<noteq> []"
  shows "dll (ml_del m n) prev p (xs @ ys) \<and> add_frame m (ml_del m n) (xs @ n # ys)"
  using assms(3,1,2)
proof (induction xs arbitrary: prev p rule: list_nonempty_induct)
  case (single x)
  then show ?case using ml_del_second [of m prev p x n ys] by (simp only: append.simps)
next
  case (cons a xs)
  have a: "dll m a (load32 m (nd_next a)) (xs @ n # ys)" and sep: "separate (xs @ n # ys)"
    using cons.prems by auto
  from cons.IH [OF a sep] have IH: "dll (ml_del m n) a (load32 m (nd_next a)) (xs @ ys)"
    "add_frame m (ml_del m n) (xs @ n # ys)" by auto
  have "\<forall>k \<in> set (xs @ n # ys). apart k 16 a 16" using cons.prems(2) by (auto intro: apart_sym)
  then have "load32 (ml_del m n) (nd_next a) = load32 m (nd_next a)"
    "load32 (ml_del m n) (nd_root a) = load32 m (nd_root a)"
    using IH(2) load_frame [of "set (xs @ n # ys)" "ml_del m n" m a 4]
      load_frame [of "set (xs @ n # ys)" "ml_del m n" m a 8]
    by (simp_all add: add_frame_def)
  moreover have "add_frame m (ml_del m n) (a # xs @ n # ys)"
    by (rule add_frame_mono [OF IH(2)]) (use cons.prems(2) in auto)
  ultimately show ?case using IH(1) cons.prems(1) by simp
qed

section \<open>The heap\<close>

text \<open>Bytes a block takes, with its header.\<close>

definition ext :: "mem \<Rightarrow> u32 \<Rightarrow> nat" where
  "ext m x = 16 + unat (load32 m x)"

lemma ext_ge: "16 \<le> ext m x"
  by (simp add: ext_def)

definition blocks_ok :: "mem \<Rightarrow> u32 set \<Rightarrow> bool" where
  "blocks_ok m X \<longleftrightarrow> (\<forall>x \<in> X. 0x1000 \<le> unat x \<and> unat x + ext m x \<le> 2 ^ 32)
     \<and> (\<forall>x \<in> X. \<forall>y \<in> X. x \<noteq> y \<longrightarrow> apart x (ext m x) y (ext m y))"

text \<open>
  The state of the heap: the free blocks \<open>ns\<close> in list order behind the head node, the busy
  blocks \<open>B\<close>. The free blocks are sorted by size and no two blocks overlap.
\<close>

definition heap_ok :: "machine \<Rightarrow> u32 list \<Rightarrow> u32 set \<Rightarrow> bool" where
  "heap_ok s ns B \<longleftrightarrow>
     dll (mem s) 0 (mmList s) (mmList s # ns) \<and> load32 (mem s) (mmList s) = 0
     \<and> distinct (mmList s # ns) \<and> set (mmList s # ns) \<inter> B = {}
     \<and> blocks_ok (mem s) (set (mmList s # ns) \<union> B)
     \<and> sorted (map (load32 (mem s)) ns)
     \<and> (\<forall>n \<in> set ns. load32 (mem s) (nd_state n) = FREE \<and> load32 (mem s) n \<noteq> 0)
     \<and> (\<forall>b \<in> B. load32 (mem s) (nd_state b) = BUSY)"

lemma apart_mono: "apart x i y j \<Longrightarrow> i' \<le> i \<Longrightarrow> j' \<le> j \<Longrightarrow> apart x i' y j'"
  by (auto simp: apart_def)

lemma blocks_separate:
  assumes "blocks_ok m X" and "distinct ns" and "set ns \<subseteq> X"
  shows "separate ns"
  using assms(2,3)
proof (induction ns)
  case (Cons n ns)
  have "apart n 16 k 16" if "k \<in> set ns" for k
  proof -
    have "n \<noteq> k" "n \<in> X" "k \<in> X" using Cons.prems that by auto
    then have "apart n (ext m n) k (ext m k)" using assms(1) unfolding blocks_ok_def by blast
    then show ?thesis by (rule apart_mono) (simp_all add: ext_def)
  qed
  moreover have "unat n + 16 \<le> 2 ^ 32"
    using assms(1) Cons.prems by (auto simp: blocks_ok_def ext_def)
  ultimately show ?case using Cons by simp
qed simp

lemma sorted_insert:
  fixes f :: "u32 \<Rightarrow> u32"
  shows "sorted (map f ns) \<Longrightarrow>
    sorted (map f (takeWhile (\<lambda>n. f n < f mm) ns @ mm # dropWhile (\<lambda>n. f n < f mm) ns))"
proof (induction ns)
  case (Cons n ns)
  then show ?case
    by (auto simp: not_less dest: set_takeWhileD set_dropWhileD)
qed simp

text \<open>A heap whose memory changed outside everything that matters is the same heap.\<close>

lemma heap_ok_fields:
  assumes h: "heap_ok s ns B" and L: "mmList s' = mmList s"
    and f: "\<And>x i. x \<in> set (mmList s # ns) \<union> B \<Longrightarrow> i \<in> {0, 4, 8, 12}
      \<Longrightarrow> load32 (mem s') (x + of_nat i) = load32 (mem s) (x + of_nat i)"
  shows "heap_ok s' ns B"
proof -
  have e: "load32 (mem s') x = load32 (mem s) x \<and> load32 (mem s') (nd_next x) = load32 (mem s) (nd_next x)
      \<and> load32 (mem s') (nd_root x) = load32 (mem s) (nd_root x)
      \<and> load32 (mem s') (nd_state x) = load32 (mem s) (nd_state x)"
    if "x \<in> set (mmList s # ns) \<union> B" for x
    using f [OF that, of 0] f [OF that, of 4] f [OF that, of 8] f [OF that, of 12] by simp
  have "dll (mem s') 0 (mmList s) (mmList s # ns)"
  proof -
    have "dll (mem s') 0 (mmList s) (mmList s # ns) = dll (mem s) 0 (mmList s) (mmList s # ns)"
      by (rule dll_cong) (use e in auto)
    then show ?thesis using h unfolding heap_ok_def by blast
  qed
  moreover have "sorted (map (load32 (mem s')) ns)"
  proof -
    have eq: "map (load32 (mem s')) ns = map (load32 (mem s)) ns" using e by simp
    show ?thesis unfolding eq using h unfolding heap_ok_def by blast
  qed
  moreover have "blocks_ok (mem s') (set (mmList s # ns) \<union> B)"
    using h e unfolding heap_ok_def blocks_ok_def ext_def by auto
  ultimately show ?thesis using h e unfolding heap_ok_def L by auto
qed

text \<open>The three moves of the heap: a block leaves the list, enters it, or becomes busy.\<close>

lemma heap_okD:
  assumes "heap_ok s ns B"
  shows "dll (mem s) 0 (mmList s) (mmList s # ns)" "load32 (mem s) (mmList s) = 0"
    "distinct (mmList s # ns)" "set (mmList s # ns) \<inter> B = {}"
    "blocks_ok (mem s) (set (mmList s # ns) \<union> B)" "sorted (map (load32 (mem s)) ns)"
    "n \<in> set ns \<Longrightarrow> load32 (mem s) (nd_state n) = FREE" "n \<in> set ns \<Longrightarrow> load32 (mem s) n \<noteq> 0"
    "b \<in> B \<Longrightarrow> load32 (mem s) (nd_state b) = BUSY" "separate (mmList s # ns)"
  using assms blocks_separate [of "mem s" "set (mmList s # ns) \<union> B" "mmList s # ns"]
  unfolding heap_ok_def by auto

lemma blocks_ok_mono: "blocks_ok m X \<Longrightarrow> Y \<subseteq> X \<Longrightarrow> blocks_ok m Y"
  unfolding blocks_ok_def by blast

lemma blocks_ok_cong:
  assumes "blocks_ok m X" and "\<And>x. x \<in> X \<Longrightarrow> load32 m' x = load32 m x"
  shows "blocks_ok m' X"
  using assms unfolding blocks_ok_def ext_def by simp

lemma blocks_apart16:
  assumes "blocks_ok m X" and "x \<in> X" and "y \<in> X" and "x \<noteq> y"
  shows "apart x 16 y 16"
proof -
  have "apart x (ext m x) y (ext m y)" using assms unfolding blocks_ok_def by blast
  then show ?thesis by (rule apart_mono) (simp_all add: ext_def)
qed

text \<open>Fields of other blocks over a change of the headers in \<open>A\<close>.\<close>

lemma add_frame_fields:
  assumes "add_frame m m' ks" and "\<forall>k \<in> set ks. apart k 16 b 16" and "i \<le> 12"
  shows "load32 m' (b + of_nat i) = load32 m (b + of_nat i)"
  using load_frame [of "set ks" m' m b i] assms by (simp add: add_frame_def)

lemma add_frame_heads:
  assumes a: "add_frame m m' ks" and X: "blocks_ok m X" and "set ks \<subseteq> X" and b: "b \<in> X"
  shows "load32 m' b = load32 m b" and "load32 m' (nd_state b) = load32 m (nd_state b)"
proof -
  have "load32 m' b = load32 m b \<and> load32 m' (nd_state b) = load32 m (nd_state b)"
  proof (cases "b \<in> set ks")
    case True
    then show ?thesis using a by (simp add: add_frame_def)
  next
    case False
    then have "\<forall>k \<in> set ks. apart k 16 b 16" using blocks_apart16 [OF X] assms(3) b by blast
    then show ?thesis using add_frame_fields [OF a, of b 0] add_frame_fields [OF a, of b 12] by simp
  qed
  then show "load32 m' b = load32 m b" and "load32 m' (nd_state b) = load32 m (nd_state b)" by auto
qed

lemma heap_remove:
  assumes h: "heap_ok s (xs @ n # ys) B"
  shows "heap_ok (s\<lparr>mem := ml_del (mem s) n\<rparr>) (xs @ ys) B"
    and "add_frame (mem s) (ml_del (mem s) n) (mmList s # xs @ n # ys)"
proof -
  note D = heap_okD [OF h]
  let ?m = "ml_del (mem s) n" and ?X = "set (mmList s # xs @ n # ys) \<union> B"
  have d: "dll ?m 0 (mmList s) (mmList s # xs @ ys)"
    and a: "add_frame (mem s) ?m (mmList s # xs @ n # ys)"
    using ml_del_spec [of "mem s" 0 "mmList s" "mmList s # xs" n ys] D(1,10) by auto
  have f: "load32 ?m b = load32 (mem s) b" "load32 ?m (nd_state b) = load32 (mem s) (nd_state b)"
    if "b \<in> ?X" for b
    using add_frame_heads [OF a D(5) _ that] by auto
  have "sorted (map (load32 ?m) (xs @ ys))"
  proof -
    have eq: "map (load32 ?m) (xs @ ys) = map (load32 (mem s)) (xs @ ys)" using f(1) by simp
    show ?thesis unfolding eq using D(6) by (auto simp: sorted_append)
  qed
  moreover have "blocks_ok ?m (set (mmList s # xs @ ys) \<union> B)"
    by (rule blocks_ok_mono [OF blocks_ok_cong [OF D(5)]]) (use f(1) in auto)
  ultimately show "heap_ok (s\<lparr>mem := ?m\<rparr>) (xs @ ys) B"
    using d D(2-4) D(7,8,9) f by (auto simp: heap_ok_def)
  show "add_frame (mem s) ?m (mmList s # xs @ n # ys)" by (rule a)
qed

lemma heap_insert_at:
  assumes h: "heap_ok s ns B" and n: "n \<notin> set (mmList s # ns) \<union> B"
    and X: "blocks_ok (mem s) (insert n (set (mmList s # ns) \<union> B))"
    and st: "load32 (mem s) (nd_state n) = FREE" "load32 (mem s) n \<noteq> 0"
  shows "\<exists>m'. ml_add (mem s) (mmList s) n = Some (mmList s, m')
    \<and> heap_ok (s\<lparr>mem := m'\<rparr>) (smaller (mem s) n ns @ n # larger (mem s) n ns) B
    \<and> add_frame (mem s) m' (n # mmList s # ns)"
proof -
  note D = heap_okD [OF h]
  define L where L: "L = smaller (mem s) n ns @ n # larger (mem s) n ns"
  have sep: "separate (n # mmList s # ns)"
    by (rule blocks_separate [OF X]) (use D(3) n in auto)
  have n0: "n \<noteq> 0" using X by (auto simp: blocks_ok_def)
  have "load32 (mem s) (mmList s) < load32 (mem s) n" using D(2) st(2) by (simp add: word_gt_0)
  with ml_add_spec [OF D(1) sep n0] obtain hd m' where add: "ml_add (mem s) (mmList s) n = Some (hd, m')"
    "dll m' 0 hd (mmList s # L)" and a: "add_frame (mem s) m' (n # mmList s # ns)"
    by (auto simp: L)
  then have hd: "hd = mmList s" by simp
  have f: "load32 m' b = load32 (mem s) b" "load32 m' (nd_state b) = load32 (mem s) (nd_state b)"
    if "b \<in> insert n (set (mmList s # ns) \<union> B)" for b
    using add_frame_heads [OF a X _ that] by auto
  have set: "set L = insert n (set ns)" unfolding L using insert_set [of "mem s" n ns] by simp
  have "sorted (map (load32 m') L)"
  proof -
    have eq: "map (load32 m') L = map (load32 (mem s)) L"
      by (rule map_cong [OF refl]) (use f(1) set in auto)
    show ?thesis unfolding eq unfolding L by (rule sorted_insert [OF D(6)])
  qed
  moreover have "blocks_ok m' (set (mmList s # L) \<union> B)"
    by (rule blocks_ok_mono [OF blocks_ok_cong [OF X]]) (use f(1) set in auto)
  moreover have "distinct (mmList s # L)"
    using insert_distinct [of n ns "mem s"] D(3) n set by (auto simp: L)
  ultimately have "heap_ok (s\<lparr>mem := m'\<rparr>) L B"
    using add(2) D(2,4) D(7,8,9) st f n set unfolding heap_ok_def hd by auto
  with add(1) hd a show ?thesis unfolding L by blast
qed

lemma heap_insert:
  assumes "heap_ok s ns B" and "n \<notin> set (mmList s # ns) \<union> B"
    and "blocks_ok (mem s) (insert n (set (mmList s # ns) \<union> B))"
    and "load32 (mem s) (nd_state n) = FREE" and "load32 (mem s) n \<noteq> 0"
  shows "\<exists>m' ns'. ml_add (mem s) (mmList s) n = Some (mmList s, m')
    \<and> heap_ok (s\<lparr>mem := m'\<rparr>) ns' B \<and> set ns' = insert n (set ns)
    \<and> add_frame (mem s) m' (n # mmList s # ns)"
  using heap_insert_at [OF assms] insert_set [of "mem s" n ns] by (metis list.simps(15))

lemma heap_busy:
  assumes h: "heap_ok s ns B" and n: "n \<notin> set (mmList s # ns) \<union> B"
    and X: "blocks_ok (mem s) (insert n (set (mmList s # ns) \<union> B))"
  shows "heap_ok (s\<lparr>mem := store32 (mem s) (nd_state n) BUSY\<rparr>) ns (insert n B)"
proof -
  let ?s = "s\<lparr>mem := store32 (mem s) (nd_state n) BUSY\<rparr>"
  have ap: "apart n 16 x 16" if "x \<in> set (mmList s # ns) \<union> B" for x
    using blocks_apart16 [OF X, of n x] that n by blast
  have "heap_ok ?s ns B"
    by (rule heap_ok_fields [OF h]) (use ap in \<open>auto simp: fields_other\<close>)
  moreover have "unat n + 16 \<le> 2 ^ 32" using X by (auto simp: blocks_ok_def ext_def)
  moreover have "blocks_ok (mem ?s) (insert n (set (mmList s # ns) \<union> B))"
    by (rule blocks_ok_cong [OF X])
      (use ap \<open>unat n + 16 \<le> 2 ^ 32\<close> in \<open>auto simp: fields_other fields_same\<close>)
  ultimately show ?thesis using n unfolding heap_ok_def by auto
qed

text \<open>The header of the rest of a block, \<open>sz\<close> bytes behind the header of \<open>n\<close>.\<close>

abbreviation rest_header :: "mem \<Rightarrow> u32 \<Rightarrow> u32 \<Rightarrow> u32 \<Rightarrow> mem" where
  "rest_header m nm r st \<equiv> store32 (store32 (store32 m (nd_state nm) st) (nd_root nm) 0) nm r"

lemma rest_header_fields:
  assumes "unat nm + 16 \<le> 2 ^ 32"
  shows "load32 (rest_header m nm r st) nm = r" "load32 (rest_header m nm r st) (nd_state nm) = st"
    and "apart nm 16 x 16 \<Longrightarrow> i \<in> {0, 4, 8, 12}
      \<Longrightarrow> load32 (rest_header m nm r st) (x + of_nat i) = load32 m (x + of_nat i)"
    and "apart nm 16 a 1 \<Longrightarrow> rest_header m nm r st a = m a"
  using assms by (auto simp: fields_same fields_other stores_outside)

lemma split_bounds:
  assumes "sz + 4 + sizeof_mlT \<le> load32 m n" and "unat n + ext m n \<le> 2 ^ 32" and "0x1000 \<le> unat n"
    and "sz \<le> load32 m n"
  shows "unat sz + 20 \<le> unat (load32 m n)" and "unat (n + sz + sizeof_mlT) = unat n + 16 + unat sz"
    and "unat (load32 m n - sz - sizeof_mlT) = unat (load32 m n) - unat sz - 16"
proof -
  have "unat sz \<le> unat (load32 m n)" using assms(4) by (simp add: word_le_nat_alt)
  then have "unat sz + 20 < 2 ^ 32" using assms(2,3) by (simp add: ext_def)
  then have "unat (sz + 4 + sizeof_mlT) = unat sz + 20"
    using unat_add_nat [of sz 20] by (simp add: sizeof_mlT_def add.assoc)
  with assms(1) show s: "unat sz + 20 \<le> unat (load32 m n)" by (simp add: word_le_nat_alt)
  have e: "n + sz + sizeof_mlT = n + of_nat (16 + unat sz)" by (simp add: sizeof_mlT_def)
  have "unat (n + of_nat (16 + unat sz)) = unat n + (16 + unat sz)"
    by (rule unat_add_nat) (use assms(2) s in \<open>simp add: ext_def\<close>)
  then show "unat (n + sz + sizeof_mlT) = unat n + 16 + unat sz"
    unfolding e by (simp only: add.assoc)
  have "sz + sizeof_mlT = of_nat (unat sz + 16)" by (simp add: sizeof_mlT_def)
  then have u: "unat (sz + sizeof_mlT) = unat sz + 16"
    using unat_add_nat [of 0 "unat sz + 16"] \<open>unat sz + 20 < 2 ^ 32\<close> by simp
  have "unat (load32 m n - (sz + sizeof_mlT)) = unat (load32 m n) - unat (sz + sizeof_mlT)"
    by (rule unat_sub) (use s in \<open>simp add: word_le_nat_alt u\<close>)
  then show "unat (load32 m n - sz - sizeof_mlT) = unat (load32 m n) - unat sz - 16"
    by (simp add: u diff_diff_eq)
qed

lemma apart_sub:
  "apart n e x f \<Longrightarrow> unat n \<le> unat q \<Longrightarrow> unat q + i \<le> unat n + e \<Longrightarrow> apart q i x f"
  by (auto simp: apart_def)

lemma blocks_ok_insert:
  assumes "blocks_ok m X" and "0x1000 \<le> unat n" and "unat n + ext m n \<le> 2 ^ 32"
    and "\<And>x. x \<in> X \<Longrightarrow> x \<noteq> n \<Longrightarrow> apart n (ext m n) x (ext m x)"
  shows "blocks_ok m (insert n X)"
  using assms unfolding blocks_ok_def by (auto intro: apart_sym)

lemma blocks_okD:
  assumes "blocks_ok m X"
  shows "x \<in> X \<Longrightarrow> 0x1000 \<le> unat x" "x \<in> X \<Longrightarrow> unat x + ext m x \<le> 2 ^ 32"
    "x \<in> X \<Longrightarrow> y \<in> X \<Longrightarrow> x \<noteq> y \<Longrightarrow> apart x (ext m x) y (ext m y)"
  using assms unfolding blocks_ok_def by auto

text \<open>Every block of \<open>Y\<close> lies inside a block \<open>X\<close> had before.\<close>

definition within :: "mem \<Rightarrow> u32 set \<Rightarrow> mem \<Rightarrow> u32 set \<Rightarrow> bool" where
  "within m X m' Y \<longleftrightarrow>
     (\<forall>y \<in> Y. \<exists>x \<in> X. unat x \<le> unat y \<and> unat y + ext m' y \<le> unat x + ext m x)"

lemma within_same: "(\<And>y. y \<in> Y \<Longrightarrow> y \<in> X \<and> load32 m' y = load32 m y) \<Longrightarrow> within m X m' Y"
  unfolding within_def ext_def by force

lemma within_trans: "within m X m' Y \<Longrightarrow> within m' Y m'' Z \<Longrightarrow> within m X m'' Z"
  unfolding within_def by (meson le_trans)

lemma within_mono: "within m X m' Y \<Longrightarrow> X \<subseteq> X' \<Longrightarrow> within m X' m' Y"
  unfolding within_def by blast

text \<open>
  The block behind \<open>b\<close>. \<open>X'\<close> tiles the memory \<open>X\<close> did: blocks may have been cut, each part is
  followed by the next one and the last by what followed the whole.
\<close>

definition neighbour :: "mem \<Rightarrow> u32 \<Rightarrow> u32" where
  "neighbour m b = b + load32 m b + sizeof_mlT"

definition tiles :: "mem \<Rightarrow> u32 set \<Rightarrow> mem \<Rightarrow> u32 set \<Rightarrow> bool" where
  "tiles m X m' X' \<longleftrightarrow> X \<subseteq> X'
     \<and> (\<forall>x \<in> X'. neighbour m' x \<in> X'
        \<or> (\<exists>y \<in> X. unat y \<le> unat x \<and> unat x < unat y + ext m y \<and> neighbour m' x = neighbour m y))"

lemma tiles_same:
  assumes "\<And>x. x \<in> X \<Longrightarrow> load32 m' x = load32 m x"
  shows "tiles m X m' X"
  unfolding tiles_def using assms ext_ge [of m]
  by (auto simp: neighbour_def intro!: bexI) (metis add_lessD1 less_add_same_cancel1 less_le_trans zero_less_numeral)

text \<open>The heap while the rest of \<open>n\<close> is a free block and \<open>n\<close> itself belongs to nobody.\<close>

lemma heap_rest:
  assumes h: "heap_ok s ns B" and n: "n \<notin> set (mmList s # ns) \<union> B"
    and X: "blocks_ok (mem s) (insert n (set (mmList s # ns) \<union> B))"
    and sz: "sz + 4 + sizeof_mlT \<le> load32 (mem s) n" "sz \<le> load32 (mem s) n"
  defines "nm \<equiv> n + sz + sizeof_mlT"
  defines "m1 \<equiv> rest_header (mem s) nm (load32 (mem s) n - sz - sizeof_mlT) FREE"
  shows "heap_ok (s\<lparr>mem := m1\<rparr>) ns B" and "nm \<notin> insert n (set (mmList s # ns) \<union> B)"
    and "blocks_ok m1 (insert nm (set (mmList s # ns) \<union> B))"
    and "load32 m1 (nd_state nm) = FREE" and "load32 m1 nm \<noteq> 0"
    and "apart nm (ext m1 nm) n (16 + unat sz)" and "load32 m1 n = load32 (mem s) n"
    and "apart n (ext (mem s) n) a 1 \<Longrightarrow> m1 a = mem s a"
proof -
  let ?Y = "set (mmList s # ns) \<union> B"
  have nb: "0x1000 \<le> unat n" "unat n + ext (mem s) n \<le> 2 ^ 32" using blocks_okD [OF X, of n] by auto
  note b = split_bounds [OF sz(1) nb(2,1) sz(2), folded nm_def]
  have e: "ext (mem s) n = 16 + unat (load32 (mem s) n)" by (simp add: ext_def)
  have nm16: "unat nm + 16 \<le> 2 ^ 32" using b(1,2) nb(2) e by linarith
  note rh = rest_header_fields [OF nm16, where m = "mem s" and r = "load32 (mem s) n - sz - sizeof_mlT"
    and st = FREE, folded m1_def]
  have apx: "apart n (ext (mem s) n) x (ext (mem s) x)" if "x \<in> ?Y" for x
    using blocks_okD(3) [OF X, of n x] that n by auto
  have apnm: "apart nm (ext m1 nm) x (ext (mem s) x)" if "x \<in> ?Y" for x
    by (rule apart_sub [OF apx [OF that]]) (use b e in \<open>simp_all add: ext_def rh(1)\<close>)
  have ap16: "apart nm 16 x 16" if "x \<in> ?Y" for x
    using apnm [OF that] by (rule apart_mono) (simp_all add: ext_def)
  have apn: "apart nm (ext m1 nm) n (16 + unat sz)"
    using b nb e by (auto simp: apart_def ext_def rh(1))
  then have apn16: "apart nm 16 n 16" by (rule apart_mono) (simp_all add: ext_def)
  show "apart nm (ext m1 nm) n (16 + unat sz)" by (rule apn)
  show "heap_ok (s\<lparr>mem := m1\<rparr>) ns B"
    by (rule heap_ok_fields [OF h]) (use rh(3) ap16 in auto)
  show "nm \<notin> insert n ?Y"
  proof
    assume "nm \<in> insert n ?Y"
    then have "apart nm 16 nm 16" using ap16 [of nm] apn16 by auto
    then show False by (simp add: apart_irrefl)
  qed
  have l: "load32 m1 x = load32 (mem s) x" if "x \<in> insert n ?Y" for x
    using rh(3) [of x 0] ap16 [of x] apn16 that by auto
  show "load32 m1 n = load32 (mem s) n" using l by simp
  show "blocks_ok m1 (insert nm ?Y)"
  proof (rule blocks_ok_insert)
    show "blocks_ok m1 ?Y"
      by (rule blocks_ok_cong [OF heap_okD(5) [OF h]]) (use l in auto)
    show "0x1000 \<le> unat nm" using b(2) nb(1) by linarith
    show "unat nm + ext m1 nm \<le> 2 ^ 32" using b nb(2) e by (simp add: ext_def rh(1))
    show "apart nm (ext m1 nm) x (ext m1 x)" if "x \<in> ?Y" "x \<noteq> nm" for x
      using apnm [OF that(1)] l [of x] that(1) by (simp add: ext_def)
  qed
  show "load32 m1 (nd_state nm) = FREE" by (rule rh(2))
  show "load32 m1 nm \<noteq> 0" unfolding rh(1) using b(1,3) by (auto simp: word_unat_eq_iff)
  show "m1 a = mem s a" if "apart n (ext (mem s) n) a 1"
    by (rule rh(4), rule apart_sub [OF that]) (use b e in auto)
qed

lemma tiles_cong:
  assumes "tiles m X m' X'" and "X = Y" and "X' = Y'" and "\<And>x. x \<in> Y \<Longrightarrow> load32 m x = load32 k x"
    and "\<And>x. x \<in> Y' \<Longrightarrow> load32 k' x = load32 m' x"
  shows "tiles k Y k' Y'"
  using assms unfolding tiles_def neighbour_def ext_def by simp

lemma tiles_split:
  assumes "Y' = insert nm Y" and "nm = n + sz + sizeof_mlT" and "nm \<noteq> n" and "nm \<notin> Y" and "load32 m' n = sz"
    and "load32 m' nm = load32 m n - sz - sizeof_mlT"
    and "\<And>x. x \<in> Y \<Longrightarrow> x \<noteq> n \<Longrightarrow> load32 m' x = load32 m x"
    and "unat nm = unat n + 16 + unat sz" and "unat sz + 20 \<le> unat (load32 m n)"
  shows "tiles m (insert n Y) m' (insert n Y')"
proof -
  have n: "neighbour m' n = nm" using assms(2,5) by (simp add: neighbour_def)
  have nm: "neighbour m' nm = neighbour m n" using assms(2,6) by (simp add: neighbour_def)
  have in_n: "unat n \<le> unat nm" "unat nm < unat n + ext m n" using assms(8,9) by (simp_all add: ext_def)
  have "neighbour m' x \<in> insert n Y' \<or> (\<exists>y \<in> insert n Y. unat y \<le> unat x \<and> unat x < unat y + ext m y
      \<and> neighbour m' x = neighbour m y)" if x: "x \<in> insert n Y'" for x
  proof -
    consider "x = n" | "x = nm" | "x \<in> Y" "x \<noteq> n" using x assms(1) by blast
    then show ?thesis
    proof cases
      case 1
      then show ?thesis using n assms(1) by simp
    next
      case 2
      then show ?thesis using nm in_n by (intro disjI2 bexI [of _ n]) simp_all
    next
      case 3
      then have "neighbour m' x = neighbour m x" using assms(7) by (simp add: neighbour_def)
      then show ?thesis using 3 ext_ge [of m x] by (intro disjI2 bexI [of _ x]) simp_all
    qed
  qed
  then show ?thesis unfolding tiles_def using assms(1) by blast
qed

text \<open>The free list after the rest of \<open>n\<close> was inserted and \<open>n\<close> cut to \<open>sz\<close>.\<close>

lemma heap_split:
  assumes h: "heap_ok s ns B" and n: "n \<notin> set (mmList s # ns) \<union> B"
    and X: "blocks_ok (mem s) (insert n (set (mmList s # ns) \<union> B))"
    and sz: "sz + 4 + sizeof_mlT \<le> load32 (mem s) n" "sz \<le> load32 (mem s) n"
  defines "nm \<equiv> n + sz + sizeof_mlT"
  defines "m1 \<equiv> rest_header (mem s) nm (load32 (mem s) n - sz - sizeof_mlT) FREE"
  shows "\<exists>m2 ns'. ml_add m1 (mmList s) nm = Some (mmList s, m2)
    \<and> heap_ok (s\<lparr>mem := store32 m2 n sz\<rparr>) ns' B
    \<and> blocks_ok (store32 m2 n sz) (insert n (set (mmList s # ns') \<union> B))
    \<and> n \<notin> set (mmList s # ns') \<union> B
    \<and> (\<forall>a. (\<forall>x \<in> set (mmList s # ns). apart x 16 a 1) \<and> apart n (ext (mem s) n) a 1
        \<longrightarrow> store32 m2 n sz a = mem s a)
    \<and> within (mem s) (insert n (set (mmList s # ns) \<union> B))
        (store32 m2 n sz) (insert n (set (mmList s # ns') \<union> B))
    \<and> tiles (mem s) (insert n (set ns \<union> B)) (store32 m2 n sz) (insert n (set ns' \<union> B))"
proof -
  let ?Y = "set (mmList s # ns) \<union> B"
  note R = heap_rest [OF h n X sz, folded nm_def, folded m1_def]
  have nb: "0x1000 \<le> unat n" "unat n + ext (mem s) n \<le> 2 ^ 32" using blocks_okD [OF X, of n] by auto
  note b = split_bounds [OF sz(1) nb(2,1) sz(2), folded nm_def]
  have "\<exists>m2 ns'. ml_add m1 (mmList s) nm = Some (mmList s, m2)
    \<and> heap_ok (s\<lparr>mem := m1\<rparr>\<lparr>mem := m2\<rparr>) ns' B \<and> set ns' = insert nm (set ns)
    \<and> add_frame m1 m2 (nm # mmList s # ns)"
    using heap_insert [OF R(1), of nm] R(2-5) by simp
  then obtain m2 ns' where add: "ml_add m1 (mmList s) nm = Some (mmList s, m2)"
    and h2: "heap_ok (s\<lparr>mem := m2\<rparr>) ns' B" and ns': "set ns' = insert nm (set ns)"
    and fr: "add_frame m1 m2 (nm # mmList s # ns)"
    by auto
  have Y': "set (mmList s # ns') \<union> B = insert nm ?Y" using ns' by auto
  have l2: "load32 m2 x = load32 m1 x" if "x \<in> insert nm ?Y" for x
    using add_frame_heads(1) [OF fr R(3) _ that] by auto
  have nm16: "unat nm + 16 \<le> 2 ^ 32" using b nb(2) by (simp add: ext_def)
  have l1: "load32 m1 x = load32 (mem s) x" if "x \<in> ?Y" "x \<noteq> nm" for x
    using rest_header_fields(3) [OF nm16, of x 0] blocks_apart16 [OF R(3), of nm x] that
    by (auto simp: m1_def)
  have ap: "apart n (16 + unat sz) x (ext m2 x)" if x: "x \<in> insert nm ?Y" for x
  proof (cases "x = nm")
    case True
    then show ?thesis using apart_sym [OF R(6)] l2 [OF x] by (simp add: ext_def)
  next
    case False
    then have xY: "x \<in> ?Y" using x by blast
    then have "apart n (ext (mem s) n) x (ext (mem s) x)" using blocks_okD(3) [OF X, of n x] n by auto
    then show ?thesis
      using l1 [OF xY False] l2 [OF x] b(1) by (auto simp: ext_def intro: apart_mono)
  qed
  have ap16: "apart n 16 x 16" if "x \<in> insert nm ?Y" for x
    using ap [OF that] by (rule apart_mono) (simp_all add: ext_def)
  have f: "load32 (store32 m2 n sz) (x + of_nat i) = load32 m2 (x + of_nat i)"
    if "x \<in> insert nm ?Y" "i \<in> {0, 4, 8, 12}" for x i
    using ap16 [OF that(1)] that(2) by (auto simp: fields_other)
  have "heap_ok (s\<lparr>mem := m2\<rparr>\<lparr>mem := store32 m2 n sz\<rparr>) ns' B"
    by (rule heap_ok_fields [OF h2]) (use f Y' in auto)
  moreover have "blocks_ok (store32 m2 n sz) (insert n (set (mmList s # ns') \<union> B))"
  proof (rule blocks_ok_insert)
    have "blocks_ok m2 (set (mmList s # ns') \<union> B)" using heap_okD(5) [OF h2] by simp
    then show "blocks_ok (store32 m2 n sz) (set (mmList s # ns') \<union> B)"
      by (rule blocks_ok_cong) (use f [of _ 0] Y' in auto)
    show "0x1000 \<le> unat n" by (rule nb)
    show "unat n + ext (store32 m2 n sz) n \<le> 2 ^ 32" using b(1) nb(2) by (simp add: ext_def)
    show "apart n (ext (store32 m2 n sz) n) x (ext (store32 m2 n sz) x)"
      if "x \<in> set (mmList s # ns') \<union> B" for x
      using ap [of x] f [of x 0] that unfolding Y' by (simp add: ext_def)
  qed
  moreover have "n \<notin> set (mmList s # ns') \<union> B" using Y' n R(2) by auto
  moreover have "store32 m2 n sz a = mem s a"
    if "\<forall>x \<in> set (mmList s # ns). apart x 16 a 1" "apart n (ext (mem s) n) a 1" for a
  proof -
    have "apart nm 16 a 1" by (rule apart_sub [OF that(2)]) (use b in \<open>auto simp: ext_def\<close>)
    then have "m2 a = m1 a" using fr that(1) by (simp add: add_frame_def)
    moreover have "apart n 16 a 1" using that(2) by (rule apart_mono) (simp_all add: ext_def)
    ultimately show ?thesis using R(8) [OF that(2)] by (simp add: stores_outside)
  qed
  moreover have "within (mem s) (insert n ?Y) (store32 m2 n sz) (insert n (set (mmList s # ns') \<union> B))"
    unfolding within_def
  proof
    fix y
    assume "y \<in> insert n (set (mmList s # ns') \<union> B)"
    then consider "y = n" | "y = nm" | "y \<in> ?Y" "y \<noteq> nm" unfolding Y' by blast
    then show "\<exists>x \<in> insert n ?Y. unat x \<le> unat y \<and> unat y + ext (store32 m2 n sz) y \<le> unat x + ext (mem s) x"
    proof cases
      case 1
      then show ?thesis using b(1) by (intro bexI [of _ n]) (auto simp: ext_def)
    next
      case 2
      have "load32 (store32 m2 n sz) nm = load32 m1 nm" using f [of nm 0] l2 [of nm] by simp
      also have "\<dots> = load32 (mem s) n - sz - sizeof_mlT"
        unfolding m1_def by (rule rest_header_fields(1) [OF nm16])
      finally show ?thesis using 2 b by (intro bexI [of _ n]) (auto simp: ext_def)
    next
      case 3
      then show ?thesis using f [of y 0] l2 [of y] l1 [of y] by (intro bexI [of _ y]) (auto simp: ext_def)
    qed
  qed
  moreover have "tiles (mem s) (insert n (set ns \<union> B)) (store32 m2 n sz) (insert n (set ns' \<union> B))"
    by (rule tiles_split) (use ns' f [of _ 0] l2 l1 b nm16 R(2) in \<open>auto simp: m1_def rest_header_fields(1) nm_def\<close>)
  ultimately show ?thesis using add by auto
qed

lemma take_block_spec:
  assumes h: "heap_ok s ns B" and n: "n \<in> set ns" and sz: "sz \<le> load32 (mem s) n"
  shows "\<exists>s' ns'. take_block sz n s = Some (n + sizeof_mlT, s') \<and> s' = s\<lparr>mem := mem s'\<rparr>
    \<and> heap_ok s' ns' (insert n B)
    \<and> sz \<le> load32 (mem s') n \<and> unat (load32 (mem s') n) < unat sz + 20
    \<and> (\<forall>a. (\<forall>x \<in> set (mmList s # ns). apart x 16 a 1) \<and> apart n (ext (mem s) n) a 1
        \<longrightarrow> mem s' a = mem s a)
    \<and> within (mem s) (set (mmList s # ns) \<union> B) (mem s') (set (mmList s # ns') \<union> insert n B)
    \<and> tiles (mem s) (set ns \<union> B) (mem s') (set ns' \<union> insert n B)"
proof -
  from n obtain xs ys where ns: "ns = xs @ n # ys" by (auto dest: split_list)
  define m0 where "m0 = ml_del (mem s) n"
  define s0 where "s0 = s\<lparr>mem := m0\<rparr>"
  note D = heap_okD [OF h]
  have h0: "heap_ok s0 (xs @ ys) B" and fr: "add_frame (mem s) m0 (mmList s # ns)"
    using heap_remove [OF h [unfolded ns]] by (simp_all add: s0_def m0_def ns)
  have l0: "load32 m0 x = load32 (mem s) x" if "x \<in> set (mmList s # ns) \<union> B" for x
    using add_frame_heads(1) [OF fr D(5) _ that] by auto
  have n0: "n \<notin> set (mmList s0 # xs @ ys) \<union> B" using D(3,4) n by (auto simp: ns s0_def)
  have X0: "blocks_ok (mem s0) (insert n (set (mmList s0 # xs @ ys) \<union> B))"
    by (rule blocks_ok_mono [OF blocks_ok_cong [OF D(5)]]) (use l0 in \<open>auto simp: s0_def ns\<close>)
  have ln: "load32 (mem s0) n = load32 (mem s) n" using l0 [of n] n by (simp add: s0_def)
  have nb: "0x1000 \<le> unat n" "unat n + ext (mem s) n \<le> 2 ^ 32" using blocks_okD [OF D(5), of n] n by auto
  have out0: "m0 a = mem s a" if "\<forall>x \<in> set (mmList s # ns). apart x 16 a 1" for a
    using fr that by (simp add: add_frame_def)
  show ?thesis
  proof (cases "sz + 4 + sizeof_mlT \<le> load32 (mem s) n")
    case True
    define nm where "nm = n + sz + sizeof_mlT"
    define m1 where "m1 = rest_header m0 nm (load32 m0 n - sz - sizeof_mlT) FREE"
    have sz0: "sz + 4 + sizeof_mlT \<le> load32 (mem s0) n" "sz \<le> load32 (mem s0) n"
      using True sz ln by simp_all
    from heap_split [OF h0 n0 X0 sz0] obtain m2 ns' where
      add: "ml_add m1 (mmList s) nm = Some (mmList s, m2)"
      and h2: "heap_ok (s\<lparr>mem := store32 m2 n sz\<rparr>) ns' B"
      and X2: "blocks_ok (store32 m2 n sz) (insert n (set (mmList s # ns') \<union> B))"
      and n2: "n \<notin> set (mmList s # ns') \<union> B"
      and out: "\<forall>a. (\<forall>x \<in> set (mmList s # xs @ ys). apart x 16 a 1) \<and> apart n (ext m0 n) a 1
        \<longrightarrow> store32 m2 n sz a = m0 a"
      and wi: "within m0 (insert n (set (mmList s # xs @ ys) \<union> B))
        (store32 m2 n sz) (insert n (set (mmList s # ns') \<union> B))"
      and ti: "tiles m0 (insert n (set (xs @ ys) \<union> B)) (store32 m2 n sz) (insert n (set ns' \<union> B))"
      by (auto simp: s0_def m1_def nm_def)
    have "apart nm 16 n 16"
      using heap_rest(6) [OF h0 n0 X0 sz0, folded nm_def] by (rule apart_mono) (simp_all add: ext_def)
    then have "take_block sz n s = Some (n + sizeof_mlT,
        s\<lparr>mem := store32 (store32 m2 n sz) (nd_state n) BUSY, mmList := mmList s\<rparr>)"
      using add True ln
      by (simp add: take_block_def Let_def fields_other m1_def nm_def [symmetric] m0_def [symmetric] s0_def)
    moreover have "heap_ok (s\<lparr>mem := store32 (store32 m2 n sz) (nd_state n) BUSY\<rparr>) ns' (insert n B)"
      using heap_busy [OF h2] n2 X2 by simp
    moreover have "load32 (store32 (store32 m2 n sz) (nd_state n) BUSY) n = sz"
      using nb by (simp add: fields_same ext_def)
    moreover have "store32 (store32 m2 n sz) (nd_state n) BUSY a = mem s a"
      if "\<forall>x \<in> set (mmList s # ns). apart x 16 a 1" "apart n (ext (mem s) n) a 1" for a
    proof -
      have "apart n 16 a 1" using that(2) by (rule apart_mono) (simp_all add: ext_def)
      moreover have "store32 m2 n sz a = m0 a"
        using out that ln by (auto simp: ns ext_def s0_def)
      ultimately show ?thesis using out0 [OF that(1)] by (simp add: stores_outside)
    qed
    moreover have "within (mem s) (set (mmList s # ns) \<union> B)
        (store32 (store32 m2 n sz) (nd_state n) BUSY) (set (mmList s # ns') \<union> insert n B)"
    proof -
      have "within (mem s) (set (mmList s # ns) \<union> B) m0 (insert n (set (mmList s # xs @ ys) \<union> B))"
        by (rule within_same) (use l0 n in \<open>auto simp: ns\<close>)
      moreover have "within (store32 m2 n sz) (insert n (set (mmList s # ns') \<union> B))
          (store32 (store32 m2 n sz) (nd_state n) BUSY) (set (mmList s # ns') \<union> insert n B)"
      proof (rule within_same)
        fix y
        assume "y \<in> set (mmList s # ns') \<union> insert n B"
        then have y: "y \<in> insert n (set (mmList s # ns') \<union> B)" by auto
        then have "y = n \<or> apart n 16 y 16" using blocks_apart16 [OF X2 _ y, of n] by auto
        then show "y \<in> insert n (set (mmList s # ns') \<union> B)
            \<and> load32 (store32 (store32 m2 n sz) (nd_state n) BUSY) y = load32 (store32 m2 n sz) y"
          using y nb by (auto simp: fields_other fields_same ext_def)
      qed
      ultimately show ?thesis by (blast intro: within_trans wi)
    qed
    moreover have "tiles (mem s) (set ns \<union> B)
        (store32 (store32 m2 n sz) (nd_state n) BUSY) (set ns' \<union> insert n B)"
    proof (rule tiles_cong [OF ti])
      show "insert n (set (xs @ ys) \<union> B) = set ns \<union> B" "insert n (set ns' \<union> B) = set ns' \<union> insert n B"
        using n by (auto simp: ns)
      show "load32 m0 x = load32 (mem s) x" if "x \<in> set ns \<union> B" for x by (rule l0) (use that in auto)
      show "load32 (store32 (store32 m2 n sz) (nd_state n) BUSY) x = load32 (store32 m2 n sz) x"
        if "x \<in> set ns' \<union> insert n B" for x
      proof (cases "x = n")
        case False
        then have "apart n 16 x 16" using blocks_apart16 [OF X2, of n x] that by auto
        then show ?thesis by (simp add: fields_other)
      qed (use nb in \<open>simp add: fields_same ext_def\<close>)
    qed
    ultimately show ?thesis using sz by (intro exI) auto
  next
    case False
    have "take_block sz n s = Some (n + sizeof_mlT,
        s\<lparr>mem := store32 m0 (nd_state n) BUSY, mmList := mmList s\<rparr>)"
      using False ln by (simp add: take_block_def Let_def m0_def [symmetric] s0_def)
    moreover have "heap_ok (s\<lparr>mem := store32 m0 (nd_state n) BUSY\<rparr>) (xs @ ys) (insert n B)"
      using heap_busy [OF h0 n0 X0] by (simp add: s0_def)
    moreover have l: "load32 (store32 m0 (nd_state n) BUSY) n = load32 (mem s) n"
      using nb ln by (simp add: fields_same ext_def s0_def)
    moreover have "unat (load32 (mem s) n) < unat sz + 20"
    proof -
      have "unat sz + 20 < 2 ^ 32" using sz nb by (simp add: word_le_nat_alt ext_def)
      then have "unat (sz + 4 + sizeof_mlT) = unat sz + 20"
        using unat_add_nat [of sz 20] by (simp add: sizeof_mlT_def add.assoc)
      with False show ?thesis by (simp add: word_le_nat_alt)
    qed
    moreover have "store32 m0 (nd_state n) BUSY a = mem s a"
      if "\<forall>x \<in> set (mmList s # ns). apart x 16 a 1" "apart n (ext (mem s) n) a 1" for a
    proof -
      have "apart n 16 a 1" using that(2) by (rule apart_mono) (simp_all add: ext_def)
      then show ?thesis using out0 [OF that(1)] by (simp add: stores_outside)
    qed
    moreover have same: "load32 (store32 m0 (nd_state n) BUSY) y = load32 (mem s) y"
      if y: "y \<in> set (mmList s # ns) \<union> B" for y
    proof -
      have "y = n \<or> apart n 16 y 16" using blocks_apart16 [OF D(5) _ y, of n] n by auto
      then show ?thesis using l0 [OF y] nb by (auto simp: fields_other fields_same ext_def)
    qed
    moreover have "within (mem s) (set (mmList s # ns) \<union> B)
        (store32 m0 (nd_state n) BUSY) (set (mmList s # xs @ ys) \<union> insert n B)"
    proof (rule within_same)
      fix y
      assume "y \<in> set (mmList s # xs @ ys) \<union> insert n B"
      then have "y \<in> set (mmList s # ns) \<union> B" using n by (auto simp: ns)
      with same [OF this] show "y \<in> set (mmList s # ns) \<union> B
          \<and> load32 (store32 m0 (nd_state n) BUSY) y = load32 (mem s) y" by blast
    qed
    moreover have "tiles (mem s) (set ns \<union> B) (store32 m0 (nd_state n) BUSY) (set (xs @ ys) \<union> insert n B)"
    proof -
      have eq: "set (xs @ ys) \<union> insert n B = set ns \<union> B" using n by (auto simp: ns)
      show ?thesis unfolding eq by (rule tiles_same) (use same in auto)
    qed
    ultimately show ?thesis using sz by (intro exI) auto
  qed
qed

text \<open>Every byte outside the headers \<open>ks\<close> is as before.\<close>

definition only_headers :: "u32 list \<Rightarrow> mem \<Rightarrow> mem \<Rightarrow> bool" where
  "only_headers ks m m' \<longleftrightarrow> (\<forall>a. (\<forall>x \<in> set ks. apart x 16 a 1) \<longrightarrow> m' a = m a)"

lemma add_frame_headers: "add_frame m m' ks \<Longrightarrow> only_headers ks m m'"
  by (simp add: add_frame_def only_headers_def)

lemma only_headers_trans:
  "only_headers ks m m' \<Longrightarrow> only_headers ks m' m'' \<Longrightarrow> only_headers ks m m''"
  by (simp add: only_headers_def)

lemma only_headers_mono: "only_headers ks m m' \<Longrightarrow> set ks \<subseteq> set ls \<Longrightarrow> only_headers ls m m'"
  unfolding only_headers_def by blast

lemma only_headers_store:
  assumes "n \<in> set ks" and "i \<le> 12"
  shows "only_headers ks m (store32 m (n + of_nat i) v)"
  using assms store32_outside by (simp add: only_headers_def)

lemmas only_headers_stores = only_headers_store [where i = 0, simplified]
  only_headers_store [where i = 12, simplified]

text \<open>The \<open>l\<close> bytes from \<open>p\<close> on belong to no block of \<open>X\<close>.\<close>

definition apart_blocks :: "mem \<Rightarrow> u32 \<Rightarrow> nat \<Rightarrow> u32 set \<Rightarrow> bool" where
  "apart_blocks m p l X \<longleftrightarrow> (\<forall>x \<in> X. apart p l x (ext m x))"

section \<open>Growing the heap by a page\<close>

text \<open>
  The head node is in the kernel's image, from 3 MB to 4 MB; every block lies in one page that
  was taken from the allocator.
\<close>

definition in_pages :: "machine \<Rightarrow> u32 set \<Rightarrow> bool" where
  "in_pages s X \<longleftrightarrow> (\<forall>x \<in> X. \<exists>q. kpage q \<and> taken s q \<and> unat q \<le> unat x
     \<and> unat x + ext (mem s) x \<le> unat q + 4096)"

definition heap_at :: "machine \<Rightarrow> u32 list \<Rightarrow> u32 set \<Rightarrow> bool" where
  "heap_at s ns B \<longleftrightarrow> heap_ok s ns B \<and> in_pages s (set ns \<union> B)
     \<and> 0x300000 \<le> unat (mmList s) \<and> unat (mmList s) + 16 \<le> 0x400000"

lemma heap_at_ok: "heap_at s ns B \<Longrightarrow> heap_ok s ns B"
  by (simp add: heap_at_def)

lemma in_pagesD:
  "in_pages s X \<Longrightarrow> x \<in> X \<Longrightarrow> \<exists>q. kpage q \<and> taken s q \<and> unat q \<le> unat x
    \<and> unat x + ext (mem s) x \<le> unat q + 4096"
  by (simp add: in_pages_def)

lemma heap_at_small:
  assumes "heap_at s ns B" and "x \<in> set (mmList s # ns)"
  shows "unat (load32 (mem s) x) \<le> 4080"
proof (cases "x = mmList s")
  case True
  then show ?thesis using assms(1) by (simp add: heap_at_def heap_ok_def)
next
  case False
  then have x: "x \<in> set ns \<union> B" "in_pages s (set ns \<union> B)" using assms by (simp_all add: heap_at_def)
  from in_pagesD [OF x(2,1)] obtain q :: u32 where "unat q \<le> unat x" "unat x + ext (mem s) x \<le> unat q + 4096"
    by blast
  then show ?thesis by (simp add: ext_def)
qed

lemma new_block_fields:
  assumes "unat p + 16 \<le> 2 ^ 32"
  shows "load32 (new_block m p) p = 0x1000 - sizeof_mlT" "load32 (new_block m p) (nd_state p) = FREE"
    and "apart p 16 x 16 \<Longrightarrow> i \<in> {0, 4, 8, 12}
      \<Longrightarrow> load32 (new_block m p) (x + of_nat i) = load32 m (x + of_nat i)"
  using assms by (auto simp: new_block_def Let_def fields_same fields_other)

text \<open>Reading a header over the taking of a page.\<close>

lemma get_page_fields:
  assumes "get_free_page s = Some (p, s1)" and "i \<le> 12"
    and "0x300000 \<le> unat x" and "unat x + 16 \<le> 2 ^ 32"
  shows "load32 (mem s1) (x + of_nat i) = load32 (mem s) (x + of_nat i)"
proof (rule load32_cong, rule kernel_pages.mem_after [OF assms(1)])
  fix k :: nat
  assume "k < 4"
  have "unat (x + of_nat (i + k)) = unat x + (i + k)"
    by (rule unat_add_nat) (use assms \<open>k < 4\<close> in simp)
  then show "\<not> in_range MMAP_ADDR 0x100000 (x + of_nat i + of_nat k)"
    using assms(3) by (simp add: in_range_def MMAP_ADDR_def add.assoc)
qed

lemma heap_grow:
  assumes h: "heap_at s ns B" and g: "get_free_page s = Some (p, s1)"
  shows "\<exists>m ns'. ml_add (new_block (mem s1) p) (mmList s1) p = Some (mmList s, m)
    \<and> heap_at (s1\<lparr>mem := m, mmList := mmList s\<rparr>) ns' B \<and> set ns' = insert p (set ns)
    \<and> load32 m p = 0x1000 - sizeof_mlT \<and> only_headers (p # mmList s # ns) (mem s1) m
    \<and> apart_blocks (mem s) p 4096 (set (mmList s # ns) \<union> B)
    \<and> (\<forall>x \<in> set (mmList s # ns) \<union> B. load32 m x = load32 (mem s) x)"
proof -
  let ?Y = "set (mmList s # ns) \<union> B"
  have ok: "heap_ok s ns B" and pg: "in_pages s (set ns \<union> B)"
    and hd: "0x300000 \<le> unat (mmList s)" "unat (mmList s) + 16 \<le> 0x400000"
    using h by (simp_all add: heap_at_def)
  note D = heap_okD [OF ok]
  note G = kernel_kpage(1) [OF g] kernel_pages.get_fresh [OF g]
  have P: "page p" "0x400000 \<le> unat p" "unat p + 4096 \<le> 2 ^ 32"
    using G(1) page_end by (auto simp: kpage_def)
  define sb where "sb = s1\<lparr>mem := new_block (mem s1) p\<rparr>"
  have L: "mmList sb = mmList s" using kernel_pages.globals_kept(6) [OF g] by (simp add: sb_def)
  have blk: "\<exists>q. kpage q \<and> taken s q \<and> unat q \<le> unat x \<and> unat x + ext (mem s) x \<le> unat q + 4096"
    if "x \<in> ?Y" "x \<noteq> mmList s" for x
    by (rule in_pagesD [OF pg]) (use that in auto)
  have ap: "apart p 4096 x (ext (mem s) x)" if x: "x \<in> ?Y" for x
  proof (cases "x = mmList s")
    case True
    then show ?thesis using P hd D(2) by (auto simp: apart_def ext_def)
  next
    case False
    from blk [OF x this] obtain q where q: "kpage q" "taken s q" "unat q \<le> unat x"
      "unat x + ext (mem s) x \<le> unat q + 4096" by blast
    then have "unat p + 4096 \<le> unat q \<or> unat q + 4096 \<le> unat p"
      using page_gap [of p q] P(1) G(2) by (auto simp: kpage_def)
    with q P(3) blocks_okD(2) [OF D(5) x] show ?thesis by (auto simp: apart_def)
  qed
  have ap16: "apart p 16 x 16" if "x \<in> ?Y" for x
    using ap [OF that] by (rule apart_mono) (simp_all add: ext_def)
  have low: "0x300000 \<le> unat x \<and> unat x + 16 \<le> 2 ^ 32" if x: "x \<in> ?Y" for x
  proof (cases "x = mmList s")
    case True
    then show ?thesis using hd by simp
  next
    case False
    from blk [OF x this] blocks_okD(2) [OF D(5) x] show ?thesis by (auto simp: kpage_def ext_def)
  qed
  have f: "load32 (mem sb) (x + of_nat i) = load32 (mem s) (x + of_nat i)"
    if "x \<in> ?Y" "i \<in> {0, 4, 8, 12}" for x i
    using new_block_fields(3) [OF _ ap16 [OF that(1)] that(2), of "mem s1"] P(3)
      get_page_fields [OF g _ conjunct1 [OF low [OF that(1)]] conjunct2 [OF low [OF that(1)]], of i] that(2)
    by (auto simp: sb_def)
  note nb = new_block_fields(1,2) [of p "mem s1"]
  have okb: "heap_ok sb ns B" by (rule heap_ok_fields [OF ok L f])
  have pY: "p \<notin> ?Y" using ap16 apart_irrefl by blast
  have lx: "load32 (mem sb) x = load32 (mem s) x" if "x \<in> ?Y" for x using f [OF that, of 0] by simp
  have lp: "load32 (mem sb) p = 0x1000 - sizeof_mlT" "load32 (mem sb) (nd_state p) = FREE"
    using nb P(3) by (simp_all add: sb_def)
  have X: "blocks_ok (mem sb) (insert p ?Y)"
  proof (rule blocks_ok_insert)
    show "blocks_ok (mem sb) ?Y" by (rule blocks_ok_cong [OF D(5)]) (rule lx)
    show "0x1000 \<le> unat p" using P(2) by simp
    show "unat p + ext (mem sb) p \<le> 2 ^ 32" using P(3) by (simp add: ext_def lp sizeof_mlT_def)
    show "apart p (ext (mem sb) p) x (ext (mem sb) x)" if "x \<in> ?Y" for x
      using ap [OF that] lx [OF that] by (auto simp: ext_def lp sizeof_mlT_def intro: apart_mono)
  qed
  have "\<exists>m' ns'. ml_add (mem sb) (mmList sb) p = Some (mmList sb, m')
    \<and> heap_ok (sb\<lparr>mem := m'\<rparr>) ns' B \<and> set ns' = insert p (set ns)
    \<and> add_frame (mem sb) m' (p # mmList sb # ns)"
    by (rule heap_insert [OF okb]) (use pY X lp in \<open>simp_all add: L sizeof_mlT_def\<close>)
  then obtain m ns' where add: "ml_add (new_block (mem s1) p) (mmList s) p = Some (mmList s, m)"
    and h': "heap_ok (s1\<lparr>mem := m\<rparr>) ns' B" and ns': "set ns' = insert p (set ns)"
    and fr: "add_frame (mem sb) m (p # mmList s # ns)"
    unfolding L by (auto simp: sb_def)
  have l: "load32 m x = load32 (mem sb) x" if "x \<in> insert p ?Y" for x
    by (rule add_frame_heads(1) [OF fr X _ that]) auto
  have mm: "mmap (s1\<lparr>mem := m\<rparr>) (drop_bit 12 q) = mmap s1 (drop_bit 12 q)" for q
  proof -
    have a: "unat (MMAP_ADDR + drop_bit 12 q) < 0x300000"
      using u32_bound [of q] by (simp add: unat_mmap div_less_iff_less_mult)
    have "apart x 16 (MMAP_ADDR + drop_bit 12 q) 1" if "x \<in> insert p ?Y" for x
      using a low [of x] P that by (auto simp: apart_def)
    then show ?thesis using fr by (simp add: add_frame_def sb_def new_block_def Let_def stores_outside)
  qed
  have tk: "taken (s1\<lparr>mem := m\<rparr>) q \<longleftrightarrow> taken s q \<or> q = p" if "page q" for q
    using kernel_pages.taken_after [OF g that] by (simp only: taken_def mm)
  have "\<exists>q. kpage q \<and> taken (s1\<lparr>mem := m\<rparr>) q \<and> unat q \<le> unat x \<and> unat x + ext m x \<le> unat q + 4096"
    if x: "x \<in> set ns' \<union> B" for x
  proof (cases "x = p")
    case True
    then show ?thesis
      using G(1) tk [OF P(1)] l [of p] lp(1) by (intro exI [of _ p]) (simp add: ext_def sizeof_mlT_def)
  next
    case False
    then have xY: "x \<in> ?Y" "x \<noteq> mmList s" using x ns' heap_okD(3,4) [OF ok] by auto
    from blk [OF this] obtain q where q: "kpage q" "taken s q" "unat q \<le> unat x"
      "unat x + ext (mem s) x \<le> unat q + 4096" by blast
    moreover have "load32 m x = load32 (mem s) x" using l [of x] lx [of x] xY by simp
    ultimately show ?thesis using tk [of q] by (intro exI [of _ q]) (simp add: ext_def kpage_def)
  qed
  then have "in_pages (s1\<lparr>mem := m\<rparr>) (set ns' \<union> B)" by (simp add: in_pages_def)
  moreover have L1: "mmList s1 = mmList s" using kernel_pages.globals_kept(6) [OF g] .
  ultimately have "heap_at (s1\<lparr>mem := m, mmList := mmList s\<rparr>) ns' B"
    using h' hd by (simp add: heap_at_def in_pages_def heap_ok_def taken_def)
  moreover have "load32 m p = 0x1000 - sizeof_mlT" using l [of p] lp(1) by simp
  moreover have "only_headers (p # mmList s # ns) (mem s1) m"
    using fr by (simp add: only_headers_def add_frame_def sb_def new_block_def Let_def stores_outside)
  moreover have "apart_blocks (mem s) p 4096 ?Y" using ap by (simp add: apart_blocks_def)
  moreover have "\<forall>x \<in> ?Y. load32 m x = load32 (mem s) x" using l lx by simp
  ultimately show ?thesis using add ns' L1 by auto
qed

section \<open>The request size\<close>

lemma round4_unat:
  assumes "unat sz + 3 < 2 ^ 32"
  shows "unat (round4 sz) = (unat sz + 3) div 4 * 4"
proof -
  have "unat (sz + 3) = unat sz + 3" using unat_add_nat [of sz 3] assms by simp
  then have "unat (drop_bit 2 (sz + 3)) = (unat sz + 3) div 4" by (simp add: unat_simps)
  moreover have "(unat sz + 3) div 4 * 4 < 2 ^ 32" using assms by simp
  ultimately show ?thesis by (simp add: round4_def push_bit_eq_mult unat_word_ariths mult.commute)
qed

lemma round4_le: "unat sz + 3 < 2 ^ 32 \<Longrightarrow> unat (round4 sz) \<le> unat sz + 3"
  unfolding round4_unat by (rule div_times_less_eq_dividend)

lemma round4_ge:
  assumes "0 < sz" and "sz \<le> 0xFFFFFFFC"
  shows "round4 sz \<noteq> 0" and "unat sz \<le> unat (round4 sz)"
    and "4080 < unat sz \<Longrightarrow> 4080 < unat (round4 sz)" and "unat sz \<le> 4080 \<Longrightarrow> unat (round4 sz) \<le> 4080"
proof -
  have b: "0 < unat sz" "unat sz + 3 < 2 ^ 32"
    using assms by (simp_all add: word_less_nat_alt word_le_nat_alt)
  note r = round4_unat [OF b(2)]
  show "unat sz \<le> unat (round4 sz)" unfolding r by linarith
  then show "round4 sz \<noteq> 0" using b(1) by auto
  show "4080 < unat sz \<Longrightarrow> 4080 < unat (round4 sz)" unfolding r by linarith
  assume "unat sz \<le> 4080"
  then have "(unat sz + 3) div 4 \<le> 4083 div 4" by (intro div_le_mono) simp
  then show "unat (round4 sz) \<le> 4080" unfolding r by simp
qed

section \<open>The search in a heap\<close>

lemma heap_find:
  assumes "heap_ok s ns B" and "z \<noteq> 0"
  shows "ml_find (mem s) (mmList s) z
    = Some (case List.find (\<lambda>n. z \<le> load32 (mem s) n) ns of None \<Rightarrow> 0 | Some n \<Rightarrow> n)"
  using ml_find_spec [OF heap_okD(1) [OF assms(1)]] heap_okD(2) [OF assms(1)] assms(2)
  by (simp add: word_le_nat_alt unat_eq_0)

lemma heap_find_none:
  assumes "heap_ok s ns B" and "z \<noteq> 0" and "\<forall>n \<in> set ns. load32 (mem s) n < z"
  shows "ml_find (mem s) (mmList s) z = Some 0"
proof -
  have "List.find (\<lambda>n. z \<le> load32 (mem s) n) ns = None"
    using assms(3) by (auto simp: find_None_iff not_le)
  then show ?thesis using heap_find [OF assms(1,2)] by simp
qed

text \<open>The list being sorted, the first fit is a best fit.\<close>

lemma heap_find_some:
  assumes h: "heap_ok s ns B" and "z \<noteq> 0" and "\<exists>k \<in> set ns. z \<le> load32 (mem s) k"
  shows "\<exists>n. ml_find (mem s) (mmList s) z = Some n \<and> n \<noteq> 0 \<and> n \<in> set ns \<and> z \<le> load32 (mem s) n
    \<and> (\<forall>k \<in> set ns. z \<le> load32 (mem s) k \<longrightarrow> load32 (mem s) n \<le> load32 (mem s) k)"
proof -
  obtain n where n: "List.find (\<lambda>n. z \<le> load32 (mem s) n) ns = Some n"
    using assms(3) by (cases "List.find (\<lambda>n. z \<le> load32 (mem s) n) ns") (auto simp: find_None_iff)
  then obtain i where i: "i < length ns" "z \<le> load32 (mem s) (ns ! i)" "n = ns ! i"
    "\<forall>j < i. \<not> z \<le> load32 (mem s) (ns ! j)"
    by (auto simp: find_Some_iff)
  have "load32 (mem s) n \<le> load32 (mem s) k" if k: "k \<in> set ns" "z \<le> load32 (mem s) k" for k
  proof -
    obtain j where j: "j < length ns" "k = ns ! j" using k(1) by (auto simp: in_set_conv_nth)
    then have "i \<le> j" using i(4) k(2) by (meson not_le_imp_less)
    then show ?thesis using heap_okD(6) [OF h] i(3) j sorted_nth_mono [of "map (load32 (mem s)) ns" i j]
      by simp
  qed
  moreover have "n \<in> set ns" using i by simp
  moreover have "n \<noteq> 0"
    using blocks_okD(1) [OF heap_okD(5) [OF h], of n] \<open>n \<in> set ns\<close> by auto
  ultimately show ?thesis using heap_find [OF h assms(2)] n i by auto
qed

text \<open>The bytes of busy blocks are out of reach of the operations on the free list.\<close>

lemma busy_outside:
  assumes h: "heap_ok s ns B" and b: "b \<in> B" and k: "k < ext (mem s) b"
  shows "(\<forall>x \<in> set (mmList s # ns). apart x 16 (b + of_nat k) 1)
    \<and> (n \<in> set ns \<longrightarrow> apart n (ext (mem s) n) (b + of_nat k) 1)"
proof -
  have "apart x (ext (mem s) x) (b + of_nat k) 1" if "x \<in> set (mmList s # ns)" for x
  proof -
    have "x \<noteq> b" using heap_okD(4) [OF h] that b by auto
    then have "apart x (ext (mem s) x) b (ext (mem s) b)"
      using blocks_okD(3) [OF heap_okD(5) [OF h]] that b by blast
    then show ?thesis using k by (rule apart_byte)
  qed
  moreover from this have "apart x 16 (b + of_nat k) 1" if "x \<in> set (mmList s # ns)" for x
    using that by (blast intro: apart_mono [where j' = 1 and i' = 16] ext_ge)
  ultimately show ?thesis by auto
qed

lemma malloc_fit:
  assumes h: "heap_ok s ns B" and z: "round4 sz \<noteq> 0"
    and fit: "\<exists>k \<in> set ns. round4 sz \<le> load32 (mem s) k"
  shows "\<exists>n s' ns'. malloc sz s = Some (n + sizeof_mlT, s') \<and> n \<in> set ns
    \<and> (\<forall>k \<in> set ns. round4 sz \<le> load32 (mem s) k \<longrightarrow> load32 (mem s) n \<le> load32 (mem s) k)
    \<and> s' = s\<lparr>mem := mem s'\<rparr> \<and> heap_ok s' ns' (insert n B) \<and> round4 sz \<le> load32 (mem s') n
    \<and> (\<forall>a. (\<forall>x \<in> set (mmList s # ns). apart x 16 a 1) \<and> apart n (ext (mem s) n) a 1
        \<longrightarrow> mem s' a = mem s a)
    \<and> within (mem s) (set (mmList s # ns) \<union> B) (mem s') (set (mmList s # ns') \<union> insert n B)"
proof -
  from heap_find_some [OF h z fit] obtain n where n: "ml_find (mem s) (mmList s) (round4 sz) = Some n"
    "n \<noteq> 0" "n \<in> set ns" "round4 sz \<le> load32 (mem s) n"
    "\<forall>k \<in> set ns. round4 sz \<le> load32 (mem s) k \<longrightarrow> load32 (mem s) n \<le> load32 (mem s) k"
    by blast
  from take_block_spec [OF h n(3,4)] obtain s' ns' where
    t: "take_block (round4 sz) n s = Some (n + sizeof_mlT, s')" "s' = s\<lparr>mem := mem s'\<rparr>"
      "heap_ok s' ns' (insert n B)" "round4 sz \<le> load32 (mem s') n"
      "\<forall>a. (\<forall>x \<in> set (mmList s # ns). apart x 16 a 1) \<and> apart n (ext (mem s) n) a 1
        \<longrightarrow> mem s' a = mem s a"
      "within (mem s) (set (mmList s # ns) \<union> B) (mem s') (set (mmList s # ns') \<union> insert n B)"
    by blast
  have "malloc sz s = Some (n + sizeof_mlT, s')"
    using n(1,2) t(1) by (simp add: malloc_def Let_def)
  then show ?thesis using n(3,5) t(2-6) by blast
qed

section \<open>The slow path on an empty list\<close>

lemma clean_empty:
  assumes "heap_ok s [] B"
  shows "clean (mem s) (mmList s) = Some (mmList s, mem s)"
  using heap_okD(1) [OF assms] by (simp add: clean_def clean_loop.simps)

lemma malloc_empty:
  assumes h: "heap_ok s [] B" and "round4 sz \<noteq> 0"
  shows "malloc sz s = do { (r, s) \<leftarrow> grow (round4 sz) s;
    case r of None \<Rightarrow> Some (0, s) | Some mm \<Rightarrow> take_block (round4 sz) mm s }"
  using heap_find_none [OF assms] clean_empty [OF h] by (simp add: malloc_def Let_def)

text \<open>One round of the loop: either the allocator hangs or the heap has a page more.\<close>

lemma grow_round:
  assumes h: "heap_at s ns B" and z: "z \<noteq> 0" "\<forall>n \<in> set ns. load32 (mem s) n < z"
    and g: "get_free_page s = Some (p, s1)"
  shows "\<exists>m ns'. heap_at (s1\<lparr>mem := m, mmList := mmList s\<rparr>) ns' B \<and> set ns' = insert p (set ns)
    \<and> load32 m p = 0x1000 - sizeof_mlT
    \<and> ml_add (new_block (mem s1) p) (mmList s1) p = Some (mmList s, m)
    \<and> grow z s = grow z (s1\<lparr>mem := m, mmList := mmList s\<rparr>)"
proof -
  from heap_grow [OF h g] obtain m ns' where m: "ml_add (new_block (mem s1) p) (mmList s1) p = Some (mmList s, m)"
    "heap_at (s1\<lparr>mem := m, mmList := mmList s\<rparr>) ns' B" "set ns' = insert p (set ns)"
    "load32 m p = 0x1000 - sizeof_mlT" by blast
  have "ml_find (mem s) (mmList s) z = Some 0"
    by (rule heap_find_none [OF heap_at_ok [OF h] z])
  moreover have "p \<noteq> 0" using kernel_kpage(1) [OF g] by (auto simp: kpage_def)
  ultimately have "grow z s = grow z (s1\<lparr>mem := m, mmList := mmList s\<rparr>)"
    using m(1) g by (subst grow.simps) simp
  with m show ?thesis by blast
qed

lemma grow_never:
  assumes "grow z s = Some r" and "heap_at s ns B" and "4080 < unat z"
  shows False
proof -
  have "\<forall>ns. heap_at s ns B \<longrightarrow> 4080 < unat z \<longrightarrow> False"
  proof (rule grow.raw_induct [where P = "\<lambda>z s r. \<forall>ns. heap_at s ns B \<longrightarrow> 4080 < unat z \<longrightarrow> False",
        OF _ assms(1)], intro allI impI)
    fix f z s r ns
    assume IH: "\<And>z s r. f z s = Some r \<Longrightarrow> \<forall>ns. heap_at s ns B \<longrightarrow> 4080 < unat z \<longrightarrow> False"
      and eq: "do { mm \<leftarrow> ml_find (mem s) (mmList s) z;
          if mm \<noteq> 0 then Some (Some mm, s)
          else do { (nm, s) \<leftarrow> get_free_page s;
                    if nm = 0 then Some (None, s)
                    else do { (hd, m) \<leftarrow> ml_add (new_block (mem s) nm) (mmList s) nm;
                              f z (s\<lparr>mem := m, mmList := hd\<rparr>) } } } = Some r"
      and h: "heap_at s ns B" and z: "4080 < unat z"
    have "load32 (mem s) n < z" if "n \<in> set ns" for n
      using heap_at_small [OF h, of n] that z by (simp add: word_less_nat_alt)
    moreover have z0: "z \<noteq> 0" using z by auto
    ultimately have find: "ml_find (mem s) (mmList s) z = Some 0"
      by (intro heap_find_none [OF heap_at_ok [OF h]]) auto
    with eq obtain p s1 where g: "get_free_page s = Some (p, s1)" by (auto simp: bind_eq_Some_conv)
    have "p \<noteq> 0" using kernel_kpage(1) [OF g] by (auto simp: kpage_def)
    moreover obtain m ns' where m: "heap_at (s1\<lparr>mem := m, mmList := mmList s\<rparr>) ns' B"
      "ml_add (new_block (mem s1) p) (mmList s1) p = Some (mmList s, m)"
      using heap_grow [OF h g] by blast
    ultimately have "f z (s1\<lparr>mem := m, mmList := mmList s\<rparr>) = Some r"
      using eq find g by simp
    with IH m(1) z show False by blast
  qed
  with assms(2,3) show False by blast
qed

lemma malloc_first_page:
  assumes h: "heap_at s [] B" and g: "get_free_page s = Some (p, s1)"
    and z: "round4 sz \<noteq> 0" "unat (round4 sz) \<le> 4080"
  shows "\<exists>s' ns'. malloc sz s = Some (p + sizeof_mlT, s') \<and> heap_ok s' ns' (insert p B)
    \<and> round4 sz \<le> load32 (mem s') p"
proof -
  have ok: "heap_ok s [] B" using h by (simp add: heap_at_def)
  from grow_round [OF h z(1) _ g] obtain m ns' where
    h2: "heap_at (s1\<lparr>mem := m, mmList := mmList s\<rparr>) ns' B" and ns': "set ns' = {p}"
    and l: "load32 m p = 0x1000 - sizeof_mlT"
    and gr: "grow (round4 sz) s = grow (round4 sz) (s1\<lparr>mem := m, mmList := mmList s\<rparr>)"
    by auto
  let ?s = "s1\<lparr>mem := m, mmList := mmList s\<rparr>"
  have ok2: "heap_ok ?s ns' B" using h2 by (simp add: heap_at_def)
  have fit: "round4 sz \<le> load32 (mem ?s) p"
    using z(2) by (simp add: l sizeof_mlT_def word_le_nat_alt)
  then have "\<exists>k \<in> set ns'. round4 sz \<le> load32 (mem ?s) k" using ns' by simp
  from heap_find_some [OF ok2 z(1) this] ns'
  have "ml_find (mem ?s) (mmList ?s) (round4 sz) = Some p" and "p \<noteq> 0" by auto
  then have "grow (round4 sz) ?s = Some (Some p, ?s)" by (subst grow.simps) simp
  then have "malloc sz s = take_block (round4 sz) p ?s"
    using malloc_empty [OF ok z(1)] gr by simp
  with take_block_spec [OF ok2 _ fit] ns' show ?thesis by auto
qed

section \<open>A request of no bytes\<close>

text \<open>The search stops at the head node; unlinking it writes through its null \<open>root\<close>.\<close>

lemma malloc_null:
  assumes h: "heap_ok s ns B" and z: "round4 sz = 0"
  shows "\<exists>s'. malloc sz s = Some (mmList s + sizeof_mlT, s')
    \<and> get32 s' 4 = get32 s (nd_next (mmList s)) \<and> get32 s' (nd_state (mmList s)) = BUSY"
proof -
  let ?H = "mmList s"
  note D = heap_okD [OF h]
  have H: "load32 (mem s) ?H = 0" "?H \<noteq> 0" "load32 (mem s) (nd_root ?H) = 0" using D(1,2) by auto
  have far: "apart 4 4 x 16 \<and> apart x 16 4 4" if "x \<in> set (?H # ns)" for x
    using blocks_okD(1,2) [OF D(5), of x] that by (auto simp: apart_def ext_def)
  have far4: "load32 (store32 m 4 v) (x + of_nat i) = load32 m (x + of_nat i)"
    "load32 (store32 m (x + of_nat i) v) 4 = load32 m 4" if "x \<in> set (?H # ns)" "i \<le> 12" for m v x i
  proof -
    have "unat (x + of_nat i) = unat x + i"
      using far [OF that(1)] that(2) by (auto intro!: unat_add_nat simp: apart_def)
    then have "apart 4 4 (x + of_nat i) 4" "apart (x + of_nat i) 4 4 4"
      using far [OF that(1)] that(2) by (auto simp: apart_def)
    then show "load32 (store32 m 4 v) (x + of_nat i) = load32 m (x + of_nat i)"
      "load32 (store32 m (x + of_nat i) v) 4 = load32 m 4"
      by (simp_all add: load32_store32_apart)
  qed
  note F = far4 [of ?H 0, simplified] far4 [of ?H 4, simplified] far4 [of ?H 8, simplified]
    far4 [of ?H 12, simplified]
  define x where "x = load32 (mem s) (nd_next ?H)"
  define m where "m = ml_del (mem s) ?H"
  have m: "m = (let m = store32 (mem s) 4 x in if x \<noteq> 0 then store32 m (nd_root x) 0 else m)"
    using H F by (simp add: m_def ml_del_def x_def Let_def)
  have x: "x \<noteq> 0 \<Longrightarrow> x \<in> set ns \<and> apart x 16 ?H 16"
    using D(1,10) by (cases ns) (auto simp: x_def intro: apart_sym)
  have "load32 m ?H = 0 \<and> load32 m 4 = x"
    using x far4 [of x 8] F H by (cases "x = 0") (simp_all add: m Let_def fields_other)
  then have "take_block 0 ?H s = Some (?H + sizeof_mlT,
      s\<lparr>mem := store32 m (nd_state ?H) BUSY, mmList := mmList s\<rparr>)" and "load32 m 4 = x"
    by (simp_all add: take_block_def Let_def m_def [symmetric] sizeof_mlT_def)
  moreover have "ml_find (mem s) ?H 0 = Some ?H" using H by (subst ml_find.simps) simp
  ultimately show ?thesis
    using H z F by (simp add: malloc_def Let_def x_def)
qed

section \<open>Giving a block back\<close>

lemma heap_forget: "heap_ok s ns B \<Longrightarrow> heap_ok s ns (B - {b})"
  unfolding heap_ok_def by (auto intro: blocks_ok_mono)

text \<open>A block nobody holds enters the list, its state being set to free.\<close>

lemma heap_release:
  assumes h: "heap_ok s ns B" and n: "n \<notin> set (mmList s # ns) \<union> B"
    and X: "blocks_ok (mem s) (insert n (set (mmList s # ns) \<union> B))" and "load32 (mem s) n \<noteq> 0"
  shows "\<exists>m' ns'. ml_add (store32 (mem s) (nd_state n) FREE) (mmList s) n = Some (mmList s, m')
    \<and> heap_ok (s\<lparr>mem := m'\<rparr>) ns' B \<and> set ns' = insert n (set ns)
    \<and> load32 m' n = load32 (mem s) n \<and> only_headers (n # mmList s # ns) (mem s) m'
    \<and> (\<forall>x \<in> set (mmList s # ns). load32 m' x = load32 (mem s) x)"
proof -
  let ?s = "s\<lparr>mem := store32 (mem s) (nd_state n) FREE\<rparr>"
  have ap: "apart n 16 x 16" if "x \<in> set (mmList s # ns) \<union> B" for x
    using blocks_apart16 [OF X, of n x] that n by blast
  have u: "unat n + 16 \<le> 2 ^ 32" using blocks_okD(2) [OF X, of n] by (simp add: ext_def)
  have "heap_ok ?s ns B" by (rule heap_ok_fields [OF h]) (use ap in \<open>auto simp: fields_other\<close>)
  moreover have "blocks_ok (mem ?s) (insert n (set (mmList s # ns) \<union> B))"
    by (rule blocks_ok_cong [OF X]) (use ap u in \<open>auto simp: fields_other fields_same\<close>)
  ultimately obtain m' ns' where r: "ml_add (mem ?s) (mmList s) n = Some (mmList s, m')"
    "heap_ok (?s\<lparr>mem := m'\<rparr>) ns' B" "set ns' = insert n (set ns)"
    "add_frame (mem ?s) m' (n # mmList s # ns)"
    using heap_insert [of ?s ns B n] n assms(4) u by (auto simp: fields_same)
  moreover have "load32 m' n = load32 (mem s) n"
    using r(4) u by (simp add: add_frame_def fields_same)
  moreover have "only_headers (n # mmList s # ns) (mem s) (mem ?s)"
    using only_headers_stores(2) [of n "n # mmList s # ns" "mem s" FREE] by simp
  then have "only_headers (n # mmList s # ns) (mem s) m'"
    by (rule only_headers_trans) (rule add_frame_headers [OF r(4)])
  moreover have "\<forall>x \<in> set (mmList s # ns). load32 m' x = load32 (mem s) x"
    using r(4) ap by (auto simp: add_frame_def fields_other)
  ultimately show ?thesis by auto
qed

text \<open>The page test of \<open>unite\<close>, and its two cases.\<close>

definition same_page :: "u32 \<Rightarrow> u32 \<Rightarrow> bool" where
  "same_page a b \<longleftrightarrow> a AND NOT 0xfff = b AND NOT 0xfff"

lemma unite_none:
  assumes "\<not> (same_page (neighbour m b) b \<and> load32 m (nd_state (neighbour m b)) = FREE)"
  shows "unite m b = m"
  using assms unfolding unite_def Let_def neighbour_def same_page_def by (simp only: if_False if_cancel)

lemma unite_merge:
  assumes "b \<noteq> 0" and "same_page (neighbour m b) b" and "load32 m (nd_state (neighbour m b)) = FREE"
  shows "unite m b = (let m' = ml_del m (neighbour m b)
    in store32 m' b (load32 m' b + (load32 m' (neighbour m b) + sizeof_mlT)))"
  using assms unfolding unite_def Let_def neighbour_def same_page_def by (simp only: if_True simp_thms)

lemma neighbour_addr:
  assumes "blocks_ok m X" and "b \<in> X" and "unat b + ext m b < 2 ^ 32"
  shows "unat (neighbour m b) = unat b + ext m b"
proof -
  have e: "neighbour m b = b + of_nat (ext m b)" by (simp add: neighbour_def ext_def sizeof_mlT_def)
  show ?thesis unfolding e by (rule unat_add_nat) (rule assms(3))
qed

lemma neighbour_next:
  assumes X: "blocks_ok m X" and b: "b \<in> X" and n: "neighbour m b \<in> X"
  shows "unat (neighbour m b) = unat b + ext m b"
proof (cases "unat b + ext m b < 2 ^ 32")
  case True
  then show ?thesis by (rule neighbour_addr [OF X b])
next
  case False
  then have "unat b + ext m b = 2 ^ 32" using blocks_okD(2) [OF X b] by simp
  moreover have "neighbour m b = of_nat (unat b + ext m b)"
    by (simp add: neighbour_def ext_def sizeof_mlT_def)
  ultimately have "neighbour m b = of_nat (2 ^ 32)" by (simp only:)
  then show ?thesis using blocks_okD(1) [OF X n] by simp
qed

lemma payload_nonzero:
  assumes "blocks_ok m X" and "b \<in> X" and "load32 m b \<noteq> 0"
  shows "b + sizeof_mlT \<noteq> 0"
proof -
  have "0 < unat (load32 m b)" using assms(3) by (simp add: unat_gt_0)
  then have "unat b + 16 < 2 ^ 32" using blocks_okD(2) [OF assms(1,2)] by (simp add: ext_def)
  then have "unat (b + 16) = unat b + 16" using unat_add_nat [of b 16] by simp
  then show ?thesis unfolding sizeof_mlT_def by (metis add_eq_0_iff_both_eq_0 unat_0 zero_neq_numeral)
qed

lemma free_unmerged:
  assumes h: "heap_ok s ns B" and b: "b \<in> B" "load32 (mem s) b \<noteq> 0"
    and u: "\<not> (same_page (neighbour (mem s) b) b \<and> get32 s (nd_state (neighbour (mem s) b)) = FREE)"
  shows "\<exists>s' ns'. free (b + sizeof_mlT) s = Some s' \<and> heap_ok s' ns' (B - {b})
    \<and> set ns' = insert b (set ns) \<and> get32 s' b = get32 s b
    \<and> (\<forall>x \<in> set (mmList s # ns). get32 s' x = get32 s x) \<and> s' = s\<lparr>mem := mem s'\<rparr> \<and> only_headers (b # mmList s # ns) (mem s) (mem s')"
proof -
  note D = heap_okD [OF h]
  have nb: "b \<notin> set (mmList s # ns) \<union> (B - {b})" using D(4) b(1) by auto
  have "blocks_ok (mem s) (insert b (set (mmList s # ns) \<union> (B - {b})))"
    by (rule blocks_ok_mono [OF D(5)]) (use b(1) in auto)
  from heap_release [OF heap_forget [OF h] nb this b(2)]
  obtain m' ns' where r: "ml_add (store32 (mem s) (nd_state b) FREE) (mmList s) b = Some (mmList s, m')"
    "heap_ok (s\<lparr>mem := m'\<rparr>) ns' (B - {b})" "set ns' = insert b (set ns)"
    "load32 m' b = load32 (mem s) b" "only_headers (b # mmList s # ns) (mem s) m'"
    "\<forall>x \<in> set (mmList s # ns). load32 m' x = load32 (mem s) x" by blast
  have "b + sizeof_mlT \<noteq> 0" by (rule payload_nonzero [OF D(5) _ b(2)]) (use b(1) in simp)
  then have "free (b + sizeof_mlT) s = Some (s\<lparr>mem := m', mmList := mmList s\<rparr>)"
    using r(1) unite_none [OF u] by (simp add: free_def Let_def)
  then show ?thesis using r by auto
qed

lemma apart_join:
  "apart n e x f \<Longrightarrow> apart q i x f \<Longrightarrow> unat q = unat n + e \<Longrightarrow> 0 < f \<Longrightarrow> apart n (e + i) x f"
  by (auto simp: apart_def)

text \<open>A block \<open>b\<close> that is in nobody's hands takes in the free block behind it.\<close>

lemma joined_size:
  assumes X: "blocks_ok m X" and "b \<in> X" and "q \<in> X" and q: "q = neighbour m b"
  shows "unat (load32 m b + (load32 m q + sizeof_mlT)) = unat (load32 m b) + 16 + unat (load32 m q)"
    and "unat b + ext m b + ext m q \<le> 2 ^ 32"
proof -
  have u: "unat q = unat b + ext m b" unfolding q by (rule neighbour_next [OF X assms(2) assms(3) [unfolded q]])
  then show e: "unat b + ext m b + ext m q \<le> 2 ^ 32" using blocks_okD(2) [OF X assms(3)] by simp
  have "load32 m b + (load32 m q + sizeof_mlT)
      = 0 + of_nat (unat (load32 m b) + (unat (load32 m q) + 16))" by (simp add: sizeof_mlT_def)
  moreover have "unat (0 + of_nat (unat (load32 m b) + (unat (load32 m q) + 16)) :: u32)
      = unat (0 :: u32) + (unat (load32 m b) + (unat (load32 m q) + 16))"
    by (rule unat_add_nat) (use e blocks_okD(1) [OF X assms(2)] in \<open>simp add: ext_def\<close>)
  ultimately show "unat (load32 m b + (load32 m q + sizeof_mlT)) = unat (load32 m b) + 16 + unat (load32 m q)"
    by simp
qed

lemma heap_join:
  assumes h: "heap_ok s (xs @ q # ys) B" and b: "b \<notin> set (mmList s # xs @ q # ys) \<union> B"
    and X: "blocks_ok (mem s) (insert b (set (mmList s # xs @ q # ys) \<union> B))"
    and u: "same_page q b" "q = neighbour (mem s) b"
  defines "m' \<equiv> unite (mem s) b"
  shows "heap_ok (s\<lparr>mem := m'\<rparr>) (xs @ ys) B"
    and "blocks_ok m' (insert b (set (mmList s # xs @ ys) \<union> B))"
    and "unat (load32 m' b) = unat (load32 (mem s) b) + 16 + unat (load32 (mem s) q)"
    and "\<And>x. x \<in> set (mmList s # xs @ q # ys) \<union> B \<Longrightarrow> load32 m' x = load32 (mem s) x"
    and "only_headers (b # mmList s # xs @ q # ys) (mem s) m'"
    and "load32 m' (nd_state b) = load32 (mem s) (nd_state b)"
    and "load32 m' (nd_next q) = load32 (ml_del (mem s) q) (nd_next q)"
proof -
  note D = heap_okD [OF h]
  let ?Y = "set (mmList s # xs @ q # ys) \<union> B"
  define m0 where "m0 = ml_del (mem s) q"
  define v where "v = load32 m0 b + (load32 m0 q + sizeof_mlT)"
  have h0: "heap_ok (s\<lparr>mem := m0\<rparr>) (xs @ ys) B" and fr: "add_frame (mem s) m0 (mmList s # xs @ q # ys)"
    using heap_remove [OF h] by (simp_all add: m0_def)
  have l0: "load32 m0 x = load32 (mem s) x" "load32 m0 (nd_state x) = load32 (mem s) (nd_state x)"
    if "x \<in> insert b ?Y" for x
    using add_frame_heads [OF fr X _ that] by auto
  have "b \<noteq> 0" using blocks_okD(1) [OF X, of b] by auto
  then have m': "m' = store32 m0 b v"
    using unite_merge u D(7) [of q] by (simp add: m'_def m0_def v_def Let_def)
  have v: "v = load32 (mem s) b + (load32 (mem s) q + sizeof_mlT)" using l0 by (simp add: v_def)
  note j = joined_size [OF X _ _ u(2), folded v, simplified]
  have ap: "apart b 16 x 16" if "x \<in> ?Y" for x
    using blocks_apart16 [OF X, of b x] that b by auto
  have u16: "unat b + 16 \<le> 2 ^ 32" using blocks_okD(2) [OF X, of b] by (simp add: ext_def)
  show sz: "load32 m' x = load32 (mem s) x" if "x \<in> ?Y" for x
    using l0 ap that by (simp add: m' fields_other)
  show vb: "unat (load32 m' b) = unat (load32 (mem s) b) + 16 + unat (load32 (mem s) q)"
    using j(1) by (simp add: m')
  show h1: "heap_ok (s\<lparr>mem := m'\<rparr>) (xs @ ys) B"
    by (rule heap_ok_fields [OF h0]) (use ap in \<open>auto simp: m' fields_other\<close>)
  show "blocks_ok m' (insert b (set (mmList s # xs @ ys) \<union> B))"
  proof (rule blocks_ok_insert)
    show "blocks_ok m' (set (mmList s # xs @ ys) \<union> B)" using heap_okD(5) [OF h1] by simp
    show "0x1000 \<le> unat b" by (rule blocks_okD(1) [OF X]) simp
    show "unat b + ext m' b \<le> 2 ^ 32" using j(2) vb by (simp add: ext_def)
    fix x
    assume x: "x \<in> set (mmList s # xs @ ys) \<union> B" "x \<noteq> b"
    then have x': "x \<in> ?Y" "x \<noteq> q" using D(3,4) by auto
    have un: "unat q = unat b + ext (mem s) b"
      unfolding u(2) by (rule neighbour_next [OF X]) (simp_all add: u(2) [symmetric])
    have "apart b (ext (mem s) b + ext (mem s) q) x (ext (mem s) x)"
      by (rule apart_join [OF blocks_okD(3) [OF X] blocks_okD(3) [OF X] un])
        (use x x' in \<open>auto simp: ext_def\<close>)
    then show "apart b (ext m' b) x (ext m' x)"
      using sz [OF x'(1)] vb by (simp add: ext_def add.assoc)
  qed
  have "only_headers (b # mmList s # xs @ q # ys) (mem s) m0"
    by (rule only_headers_mono [OF add_frame_headers [OF fr]]) auto
  then show "only_headers (b # mmList s # xs @ q # ys) (mem s) m'"
    unfolding m' by (rule only_headers_trans) (rule only_headers_stores(1), simp)
  show "load32 m' (nd_state b) = load32 (mem s) (nd_state b)"
    using l0 u16 by (simp add: m' fields_same)
  show "load32 m' (nd_next q) = load32 (ml_del (mem s) q) (nd_next q)"
    using ap [of q] by (simp add: m' m0_def fields_other)
qed

lemma free_merged:
  assumes h: "heap_ok s ns B" and b: "b \<in> B" "load32 (mem s) b \<noteq> 0"
    and u: "same_page (neighbour (mem s) b) b" and q: "neighbour (mem s) b \<in> set ns"
  shows "\<exists>s' ns'. free (b + sizeof_mlT) s = Some s' \<and> heap_ok s' ns' (B - {b})
    \<and> set ns' = insert b (set ns - {neighbour (mem s) b})
    \<and> unat (get32 s' b) = unat (get32 s b) + 16 + unat (get32 s (neighbour (mem s) b))
    \<and> (\<forall>x \<in> set (mmList s # ns) - {neighbour (mem s) b}. get32 s' x = get32 s x) \<and> s' = s\<lparr>mem := mem s'\<rparr> \<and> only_headers (b # mmList s # ns) (mem s) (mem s')"
proof -
  define nx where "nx = neighbour (mem s) b"
  define s1 where "s1 = s\<lparr>mem := unite (mem s) b\<rparr>"
  note D = heap_okD [OF h]
  obtain xs ys where ns: "ns = xs @ nx # ys" using q by (auto simp: nx_def dest: split_list)
  have nb: "b \<notin> set (mmList s # ns) \<union> (B - {b})" using D(4) b(1) by auto
  have X: "blocks_ok (mem s) (insert b (set (mmList s # ns) \<union> (B - {b})))"
    by (rule blocks_ok_mono [OF D(5)]) (use b(1) in auto)
  note J = heap_join [OF heap_forget [OF h, of b, unfolded ns] nb [unfolded ns] X [unfolded ns] u [folded nx_def] nx_def,
      folded s1_def]
  have m1: "mem s1 = unite (mem s) b" "mmList s1 = mmList s" by (simp_all add: s1_def)
  have nb1: "b \<notin> set (mmList s1 # xs @ ys) \<union> (B - {b})" using nb by (auto simp: s1_def ns)
  have X1: "blocks_ok (mem s1) (insert b (set (mmList s1 # xs @ ys) \<union> (B - {b})))" using J(2) by (simp add: s1_def)
  have v0: "load32 (mem s1) b \<noteq> 0" using J(3) by (auto simp: m1)
  from heap_release [OF J(1) nb1 X1 v0] obtain m' ns' where
    r: "ml_add (store32 (unite (mem s) b) (nd_state b) FREE) (mmList s) b = Some (mmList s, m')"
    "heap_ok (s\<lparr>mem := m'\<rparr>) ns' (B - {b})" "set ns' = insert b (set (xs @ ys))" "load32 m' b = load32 (unite (mem s) b) b"
    "only_headers (b # mmList s # xs @ ys) (unite (mem s) b) m'"
    "\<forall>x \<in> set (mmList s # xs @ ys). load32 m' x = load32 (unite (mem s) b) x"
    unfolding m1 by (auto simp: s1_def)
  have sizes: "load32 m' x = load32 (mem s) x" if "x \<in> set (mmList s # ns) - {nx}" for x
    using that r(6) J(4) [of x] by (auto simp: ns)
  have oh: "only_headers (b # mmList s # ns) (mem s) m'"
    by (rule only_headers_trans [OF J(5) [folded ns] only_headers_mono [OF r(5)]]) (auto simp: ns)
  have "b + sizeof_mlT \<noteq> 0" by (rule payload_nonzero [OF D(5) _ b(2)]) (use b(1) in simp)
  then have "free (b + sizeof_mlT) s = Some (s\<lparr>mem := m', mmList := mmList s\<rparr>)"
    using r(1) by (simp add: free_def Let_def)
  moreover have "set (xs @ ys) = set ns - {nx}" using D(3) by (auto simp: ns)
  ultimately show ?thesis
    using r(2-4) J(3) oh sizes unfolding nx_def [symmetric] by auto
qed

section \<open>Properties\<close>

text \<open>
  The ordered insertion of \<open>add\<close>. Into a list reached from \<open>p\<close> whose headers do not overlap
  the new block's, \<open>add\<close> links the block in front of the first node that is not smaller, keeps
  the order of the other nodes, their sizes and states, and changes no byte outside headers.
\<close>

theorem add_inserts:
  assumes "dll m prev p ns" and "separate (mm # ns)" and "mm \<noteq> 0"
  shows "\<exists>hd m'. ml_add m p mm = Some (hd, m')
    \<and> dll m' (if ns = [] then 0 else prev) hd (smaller m mm ns @ mm # larger m mm ns)
    \<and> add_frame m m' (mm # ns)"
  using assms by (rule ml_add_spec)

text \<open>
  C2: \<open>malloc\<close> with a free block that is large enough. It returns the address behind the header of
  the smallest such block, which is busy afterwards and holds at least the bytes asked for;
  free and busy blocks, what is left of the block included, still do not overlap and the list is
  still sorted; and no byte of a block in use changes.
\<close>

theorem malloc_best_fit:
  assumes "heap_ok s ns B" and "0 < sz" and "sz \<le> 0xFFFFFFFC"
    and "\<exists>k \<in> set ns. round4 sz \<le> get32 s k"
  shows "\<exists>n s' ns'. malloc sz s = Some (n + sizeof_mlT, s') \<and> n \<in> set ns
    \<and> (\<forall>k \<in> set ns. round4 sz \<le> get32 s k \<longrightarrow> get32 s n \<le> get32 s k)
    \<and> heap_ok s' ns' (insert n B) \<and> unat sz \<le> unat (get32 s' n)
    \<and> (\<forall>b \<in> B. \<forall>k < ext (mem s) b. mem s' (b + of_nat k) = mem s (b + of_nat k))"
proof -
  note r = round4_ge [OF assms(2,3)]
  from malloc_fit [OF assms(1) r(1) assms(4)] obtain n s' ns' where
    m: "malloc sz s = Some (n + sizeof_mlT, s')" "n \<in> set ns"
      "\<forall>k \<in> set ns. round4 sz \<le> get32 s k \<longrightarrow> get32 s n \<le> get32 s k"
      "heap_ok s' ns' (insert n B)" "round4 sz \<le> get32 s' n"
      "\<forall>a. (\<forall>x \<in> set (mmList s # ns). apart x 16 a 1) \<and> apart n (ext (mem s) n) a 1
        \<longrightarrow> mem s' a = mem s a"
    by blast
  have "\<forall>b \<in> B. \<forall>k < ext (mem s) b. mem s' (b + of_nat k) = mem s (b + of_nat k)"
    using m(2,6) busy_outside [OF assms(1), of _ _ n] by blast
  moreover have "unat sz \<le> unat (get32 s' n)" using r(2) m(5) by (simp add: word_le_nat_alt)
  ultimately show ?thesis using m(1-4) by blast
qed

text \<open>
  \<open>malloc\<close> of up to 4080 bytes from an empty list takes one page from the allocator, makes it a
  block, and returns its first bytes.
\<close>

theorem malloc_takes_page:
  assumes "heap_at s [] B" and "get_free_page s = Some (p, s1)" and "0 < sz" and "sz \<le> 4080"
  shows "\<exists>s' ns'. malloc sz s = Some (p + sizeof_mlT, s') \<and> heap_ok s' ns' (insert p B)
    \<and> unat sz \<le> unat (get32 s' p)"
proof -
  have sz: "sz \<le> 0xFFFFFFFC" "unat sz \<le> 4080" using assms(4) by (simp_all add: word_le_nat_alt)
  note r = round4_ge [OF assms(3) sz(1)]
  from malloc_first_page [OF assms(1,2) r(1) r(4) [OF sz(2)]] r(2) show ?thesis
    by (auto simp: word_le_nat_alt intro: le_trans)
qed

text \<open>
  \<open>malloc\<close> of more than 4080 bytes never returns. No page yields a block that large, pages are
  never joined, and the loop takes page after page until the page allocator itself hangs; there
  is no failure result.
\<close>

theorem malloc_large_hangs:
  assumes "heap_at s [] B" and "4080 < sz" and "sz \<le> 0xFFFFFFFC"
  shows "malloc sz s = None"
proof -
  have "0 < sz" using assms(2) by (simp add: word_less_nat_alt)
  note r = round4_ge [OF this assms(3)]
  have z: "4080 < unat (round4 sz)" using r(3) assms(2) by (simp add: word_less_nat_alt)
  have "grow (round4 sz) s = None"
    using grow_never [OF _ assms(1) z] by (cases "grow (round4 sz) s") auto
  then show ?thesis using malloc_empty [OF heap_at_ok [OF assms(1)] r(1)] by simp
qed

text \<open>
  C39: a request of no bytes, or of one so large that rounding it up to a multiple of four wraps
  to zero, is answered with the address behind the static head node. The head node is unlinked
  through its null \<open>root\<close> pointer, a write to address 4, and marked busy.
\<close>

theorem malloc_zero_takes_head:
  assumes "heap_ok s ns B" and "sz = 0 \<or> 0xFFFFFFFC < sz"
  shows "\<exists>s'. malloc sz s = Some (mmList s + sizeof_mlT, s')
    \<and> get32 s' 4 = get32 s (nd_next (mmList s)) \<and> get32 s' (nd_state (mmList s)) = BUSY"
proof -
  have "round4 sz = 0"
  proof (cases "sz = 0")
    case True
    then show ?thesis by (simp add: round4_def drop_bit_eq_div)
  next
    case False
    then have "0xFFFFFFFC < unat sz" using assms(2) by (simp add: word_less_nat_alt)
    then have "unat (sz + 3) = unat sz + 3 - 2 ^ 32"
      using u32_bound [of sz] by (simp add: unat_word_ariths le_mod_geq)
    then have "unat (sz + 3) < 4" using u32_bound [of sz] by linarith
    then have "unat (drop_bit 2 (sz + 3)) = 0" by (simp add: unat_simps)
    then show ?thesis by (simp add: round4_def unat_eq_0)
  qed
  then show ?thesis by (rule malloc_null [OF assms(1)])
qed

text \<open>
  C3: \<open>free\<close> of a busy block. The block enters the sorted list; if the block behind it in the same
  page is free the two become one, their sizes and one header added up. No overlap arises and
  the other busy blocks stay busy.
\<close>

theorem free_gives_back:
  assumes "heap_ok s ns B" and "b \<in> B" and "get32 s b \<noteq> 0"
    and "nx = neighbour (mem s) b" and "same_page nx b \<longrightarrow> nx \<in> set ns \<union> B"
  shows "\<exists>s' ns'. free (b + sizeof_mlT) s = Some s' \<and> heap_ok s' ns' (B - {b})
    \<and> (if same_page nx b \<and> nx \<in> set ns
       then set ns' = insert b (set ns - {nx})
         \<and> unat (get32 s' b) = unat (get32 s b) + 16 + unat (get32 s nx)
       else set ns' = insert b (set ns) \<and> get32 s' b = get32 s b)"
proof (cases "same_page nx b \<and> nx \<in> set ns")
  case True
  with free_merged [OF assms(1-3)] assms(4) show ?thesis by auto
next
  case False
  then have "\<not> (same_page nx b \<and> get32 s (nd_state nx) = FREE)"
    using assms(5) heap_okD(9) [OF assms(1), of nx] by (auto simp: FREE_def BUSY_def)
  with free_unmerged [OF assms(1-3)] assms(4) False show ?thesis by auto
qed

section \<open>Witnesses\<close>

text \<open>
  A heap of one page at 4 MB: a busy block of 100 bytes and the free rest of the page, behind a
  head node at \<open>0x310000\<close>.
\<close>

definition block_machine :: machine where
  "block_machine = free_machine\<lparr>mem :=
     store32 (store32 (store32 (store32 (store32 (store32 (\<lambda>_. 0)
       0x310004 0x400074) 0x400000 100) 0x40000C BUSY)
       0x400074 3964) 0x40007C 0x310000) 0x400080 FREE\<rparr>"

lemma load32_zero: "load32 (\<lambda>_. 0) a = 0"
  by (simp add: load32_def)

lemma block_machine_fields:
  "get32 block_machine 0x310000 = 0" "get32 block_machine 0x310004 = 0x400074"
  "get32 block_machine 0x310008 = 0" "get32 block_machine 0x400000 = 100"
  "get32 block_machine 0x40000C = BUSY" "get32 block_machine 0x400074 = 3964"
  "get32 block_machine 0x400078 = 0" "get32 block_machine 0x40007C = 0x310000"
  "get32 block_machine 0x400080 = FREE" "mmList block_machine = 0x310000"
  by (simp_all add: block_machine_def load32_store32_apart apart_def load32_zero free_machine_def
      boot_machine_def)

lemma block_machine_ok: "heap_ok block_machine [0x400074] {0x400000}"
  by (simp add: heap_ok_def block_machine_fields blocks_ok_def ext_def apart_def)

lemma free_machine_heap: "heap_at free_machine [] {}"
  by (simp add: heap_at_def heap_ok_def in_pages_def free_machine_def boot_machine_def load32_zero
      blocks_ok_def ext_def)

theorem add_inserts_witness:
  "\<exists>hd m'. ml_add (mem block_machine) 0x310000 0x400000 = Some (hd, m')
    \<and> dll m' 0 hd [0x310000, 0x400000, 0x400074]"
  using add_inserts [of "mem block_machine" 0 "0x310000" "[0x310000, 0x400074]" "0x400000"]
  by (auto simp: block_machine_fields apart_def)

theorem malloc_best_fit_witness:
  "\<exists>s'. malloc 10 block_machine = Some (0x400084, s') \<and> 10 \<le> unat (get32 s' 0x400074)"
proof -
  have "round4 10 = 12" by (simp add: round4_def drop_bit_eq_div push_bit_eq_mult)
  then have "\<exists>k \<in> set [0x400074]. round4 10 \<le> get32 block_machine k"
    by (simp add: block_machine_fields)
  from malloc_best_fit [OF block_machine_ok _ _ this] show ?thesis by (auto simp: sizeof_mlT_def)
qed

theorem malloc_takes_page_witness:
  "\<exists>s'. malloc 108 free_machine = Some (0x400010, s') \<and> 108 \<le> unat (get32 s' 0x400000)"
  using malloc_takes_page [OF free_machine_heap free_machine_get, of 108]
  by (auto simp: sizeof_mlT_def)

theorem malloc_large_hangs_witness: "malloc 5000 free_machine = None"
  by (rule malloc_large_hangs [OF free_machine_heap]) simp_all

theorem malloc_zero_takes_head_witness:
  "\<exists>s'. malloc 0 block_machine = Some (0x310010, s') \<and> get32 s' 4 = 0x400074"
  using malloc_zero_takes_head [OF block_machine_ok, of 0]
  by (auto simp: block_machine_fields sizeof_mlT_def)

theorem free_gives_back_witness:
  "\<exists>s'. free 0x400010 block_machine = Some s' \<and> unat (get32 s' 0x400000) = 4080"
proof -
  have nx: "0x400074 = neighbour (mem block_machine) 0x400000"
    by (simp add: neighbour_def block_machine_fields sizeof_mlT_def)
  have "same_page 0x400074 0x400000" by (simp add: same_page_def)
  with free_gives_back [OF block_machine_ok _ _ nx] show ?thesis
    by (auto simp: block_machine_fields sizeof_mlT_def)
qed

end
