(* ===== verification/Clean.thy ===== *)
theory Clean
  imports Malloc
begin

text \<open>
  The slow path of \<open>malloc\<close>: \<open>clean\<close> of \<open>kernel/malloc.c\<close> joins free blocks that lie side by side
  in a page, then \<open>malloc\<close> adds pages. \<open>clean\<close> walks the list while it changes it, and may follow
  the \<open>next\<close> field of a block that has just been taken in by another; the loop invariant here shows
  why that is harmless, so that \<open>malloc\<close> is right from every well formed heap.
\<close>

unbundle bit_operations_syntax

section \<open>Pages and neighbours\<close>

lemma same_page_div: "same_page a b \<longleftrightarrow> unat a div 4096 = unat b div 4096"
proof -
  have f: "(0xfff :: u32) = mask 12" by (simp add: mask_eq_exp_minus_1)
  have "a AND NOT (mask 12) = b AND NOT (mask 12) \<longleftrightarrow> drop_bit 12 a = drop_bit 12 b"
  proof
    assume l: "a AND NOT (mask 12) = b AND NOT (mask 12)"
    have "drop_bit 12 (w AND NOT (mask 12)) = drop_bit 12 w" for w :: u32
      by (rule bit_word_eqI) (auto simp: bit_simps dest: bit_imp_le_length)
    then show "drop_bit 12 a = drop_bit 12 b" using arg_cong [OF l, of "drop_bit 12"] by simp
  next
    assume r: "drop_bit 12 a = drop_bit 12 b"
    have "push_bit 12 (drop_bit 12 w) = w AND NOT (mask 12)" for w :: u32
      by (rule bit_word_eqI) (auto simp: bit_simps)
    then show "a AND NOT (mask 12) = b AND NOT (mask 12)" using arg_cong [OF r, of "push_bit 12"] by simp
  qed
  also have "\<dots> \<longleftrightarrow> unat (drop_bit 12 a) = unat (drop_bit 12 b)" by (rule word_unat_eq_iff)
  finally show ?thesis by (simp add: same_page_def f unat_simps)
qed

text \<open>The first block of a list, or null.\<close>

definition first :: "u32 list \<Rightarrow> u32" where
  "first ns = (case ns of [] \<Rightarrow> 0 | n # _ \<Rightarrow> n)"

lemma first_simps [simp]: "first [] = 0" "first (n # ns) = n"
  by (simp_all add: first_def)

section \<open>Links\<close>

lemma dll_tail: "dll m prev p (us @ ns) \<Longrightarrow> \<exists>prev' p'. dll m prev' p' ns"
proof (induction us arbitrary: prev p)
  case (Cons u us)
  then have "dll m u (load32 m (nd_next u)) (us @ ns)" by simp
  then show ?case by (rule Cons.IH)
qed auto

lemma dll_succ:
  assumes "dll m prev p (us @ n # vs)"
  shows "load32 m (nd_next n) = first vs" and "n \<noteq> 0"
  using dll_tail [OF assms] by (cases vs; auto)+

lemma dll_pred: "dll m prev p (us @ k # n # vs) \<Longrightarrow> load32 m (nd_root n) = k"
  using dll_tail [of m prev p us "k # n # vs"] by auto

lemma ml_del_own:
  assumes "dll m prev p (us @ k # n # vs)" and "separate (us @ k # n # vs)"
  shows "load32 (ml_del m n) (nd_next n) = first vs"
proof -
  have r: "load32 m (nd_root n) = k" by (rule dll_pred [OF assms(1)])
  have x: "load32 m (nd_next n) = first vs" and n0: "n \<noteq> 0"
    using dll_succ [of m prev p "us @ [k]" n vs] assms(1) by simp_all
  have s: "apart k 16 n 16" "\<forall>v \<in> set vs. apart v 16 n 16"
    using assms(2) separate_distinct [OF assms(2)]
      separate_apart [OF assms(2), of k n] separate_apart [OF assms(2), of _ n] by auto
  show ?thesis
    by (cases vs) (use r x n0 s in \<open>simp_all add: ml_del_def Let_def fields_other\<close>)
qed

text \<open>The block ends in the page it starts in; the blocks behind those of \<open>X\<close> are in \<open>Y\<close>.\<close>

definition crossless :: "mem \<Rightarrow> u32 \<Rightarrow> bool" where
  "crossless m x \<longleftrightarrow> (unat x + ext m x - 1) div 4096 = unat x div 4096"

definition closed :: "mem \<Rightarrow> u32 set \<Rightarrow> u32 set \<Rightarrow> bool" where
  "closed m X Y \<longleftrightarrow> (\<forall>x \<in> X. same_page (neighbour m x) x \<longrightarrow> neighbour m x \<in> Y)"

lemma neighbour_inj:
  assumes X: "blocks_ok m X" and "x \<in> X" and "y \<in> X" and "neighbour m x = neighbour m y" and "neighbour m y \<in> X"
  shows "x = y"
proof (rule ccontr)
  assume "x \<noteq> y"
  then have "apart x (ext m x) y (ext m y)" by (rule blocks_okD(3) [OF X assms(2,3)])
  moreover have "unat x + ext m x = unat y + ext m y"
    using neighbour_next [OF X assms(2)] neighbour_next [OF X assms(3)] assms(4,5) by simp
  moreover have "16 \<le> ext m x" "16 \<le> ext m y" by (rule ext_ge)+
  ultimately show False by (auto simp: apart_def)
qed

lemma neighbour_cong: "load32 m' x = load32 m x \<Longrightarrow> neighbour m' x = neighbour m x"
  by (simp add: neighbour_def)

lemma unite_all_stop: "unite m b = m \<Longrightarrow> unite_all m b = Some m"
  by (subst unite_all.simps) (simp add: Let_def)

lemma unite_all_step:
  "load32 (unite m b) b \<noteq> load32 m b \<Longrightarrow> unite_all m b = unite_all (unite m b) b"
  by (subst unite_all.simps) (simp add: Let_def)

lemma unite_closed:
  assumes h: "heap_ok s ns B" and "closed (mem s) {b} B"
  shows "unite (mem s) b = mem s"
proof (rule unite_none)
  show "\<not> (same_page (neighbour (mem s) b) b \<and> load32 (mem s) (nd_state (neighbour (mem s) b)) = FREE)"
    using assms heap_okD(9) [OF h, of "neighbour (mem s) b"] by (auto simp: closed_def FREE_def BUSY_def)
qed

text \<open>Joined blocks stay in their page.\<close>

lemma crossless_join:
  assumes u: "unat q = unat b + ext m b" and "same_page q b" and "crossless m q"
    and "ext m' b = ext m b + ext m q"
  shows "crossless m' b"
  using assms unfolding crossless_def same_page_div by simp


section \<open>Joining all that is behind a block\<close>

text \<open>
  \<open>b\<close>, which is in no list, has taken in the blocks \<open>K\<close> of the list \<open>zs\<close>: what is left is a heap,
  \<open>b\<close> overlaps none of it and has no free neighbour, and memory changed in headers only.
\<close>

definition took_in :: "machine \<Rightarrow> u32 \<Rightarrow> u32 list \<Rightarrow> u32 set \<Rightarrow> mem \<Rightarrow> u32 set \<Rightarrow> bool" where
  "took_in s b zs B m' K \<longleftrightarrow>
     heap_ok (s\<lparr>mem := m'\<rparr>) (filter (\<lambda>x. x \<notin> K) zs) B
     \<and> blocks_ok m' (insert b (set (mmList s # filter (\<lambda>x. x \<notin> K) zs) \<union> B))
     \<and> (\<forall>x \<in> set (mmList s # filter (\<lambda>x. x \<notin> K) zs) \<union> B. load32 m' x = load32 (mem s) x)
     \<and> load32 m' (nd_state b) = load32 (mem s) (nd_state b)
     \<and> unat (load32 (mem s) b) \<le> unat (load32 m' b)
     \<and> closed m' {b} B \<and> closed m' (set (filter (\<lambda>x. x \<notin> K) zs)) (insert b (set (filter (\<lambda>x. x \<notin> K) zs) \<union> B))
     \<and> within m' (insert b (set (filter (\<lambda>x. x \<notin> K) zs))) (mem s) (insert b (set zs))
     \<and> only_headers (b # mmList s # zs) (mem s) m'
     \<and> ((\<forall>x \<in> insert b (set zs). crossless (mem s) x)
        \<longrightarrow> (\<forall>x \<in> insert b (set (filter (\<lambda>x. x \<notin> K) zs)). crossless m' x))"

lemma filter_notin:
  assumes "distinct (as @ q # bs)"
  shows "filter (\<lambda>x. x \<notin> insert q K) (as @ q # bs) = filter (\<lambda>x. x \<notin> K) (as @ bs)"
proof -
  have "filter (\<lambda>x. x \<notin> insert q K) as = filter (\<lambda>x. x \<notin> K) as"
    "filter (\<lambda>x. x \<notin> insert q K) bs = filter (\<lambda>x. x \<notin> K) bs"
    using assms by (auto intro: filter_cong)
  then show ?thesis by simp
qed


lemma crossless_cong: "load32 m' x = load32 m x \<Longrightarrow> crossless m' x = crossless m x"
  by (simp add: crossless_def ext_def)

lemma crossless_all:
  assumes "\<forall>x \<in> X. crossless m x" and "\<And>x. x \<in> Y \<Longrightarrow> x \<in> X" and "\<And>x. x \<in> Y \<Longrightarrow> load32 m' x = load32 m x"
  shows "\<forall>x \<in> Y. crossless m' x"
  using assms crossless_cong [of m' _ m] by simp

lemma closed_mono: "closed m X Y \<Longrightarrow> X' \<subseteq> X \<Longrightarrow> Y \<subseteq> Y' \<Longrightarrow> closed m X' Y'"
  unfolding closed_def by blast

lemma closed_cong:
  assumes "closed m X Y" and "\<And>x. x \<in> X \<Longrightarrow> load32 m' x = load32 m x"
  shows "closed m' X Y"
  using assms neighbour_cong [of m' _ m] unfolding closed_def by simp

lemma took_none:
  assumes "heap_ok s zs B" and "blocks_ok (mem s) (insert b (set (mmList s # zs) \<union> B))"
    and "closed (mem s) {b} B" and "closed (mem s) (set zs) (insert b (set zs \<union> B))"
  shows "took_in s b zs B (mem s) {}"
  using assms within_same [of "insert b (set zs)" "insert b (set zs)" "mem s" "mem s"]
  by (simp add: took_in_def only_headers_def)

text \<open>One join: \<open>q\<close> is the block behind \<open>b\<close>.\<close>

lemma join_step:
  assumes h: "heap_ok s (us @ q # vs) B" and b: "b \<notin> set (mmList s # us @ q # vs) \<union> B"
    and X: "blocks_ok (mem s) (insert b (set (mmList s # us @ q # vs) \<union> B))"
    and C: "closed (mem s) (insert b (set (us @ q # vs))) (insert b (set (us @ q # vs) \<union> B))"
    and q: "same_page q b" "q = neighbour (mem s) b"
  defines "s1 \<equiv> s\<lparr>mem := unite (mem s) b\<rparr>"
  shows "closed (mem s1) (insert b (set (us @ vs))) (insert b (set (us @ vs) \<union> B))"
    and "neighbour (mem s1) b = neighbour (mem s) q"
    and "unat (load32 (mem s) b) < unat (load32 (mem s1) b)"
    and "within (mem s1) (insert b (set (us @ vs))) (mem s) (insert b (set (us @ q # vs)))"
    and "(\<forall>x \<in> insert b (set (us @ q # vs)). crossless (mem s) x)
      \<Longrightarrow> \<forall>x \<in> insert b (set (us @ vs)). crossless (mem s1) x"
proof -
  note J = heap_join [OF h b X q]
  let ?Y = "insert b (set (mmList s # us @ q # vs) \<union> B)"
  have un: "unat q = unat b + ext (mem s) b"
    unfolding q(2) by (rule neighbour_next [OF X]) (simp_all add: q(2) [symmetric])
  have e: "ext (mem s1) b = ext (mem s) b + ext (mem s) q" using J(3) by (simp add: s1_def ext_def)
  have l: "load32 (mem s1) x = load32 (mem s) x" if "x \<in> set (us @ vs)" for x
    using J(4) [of x] that by (auto simp: s1_def)
  have d: "distinct (us @ q # vs)" using heap_okD(3) [OF h] by simp
  show "unat (load32 (mem s) b) < unat (load32 (mem s1) b)" using J(3) by (simp add: s1_def)
  show nb: "neighbour (mem s1) b = neighbour (mem s) q"
  proof -
    have "load32 (mem s1) b = load32 (mem s) b + (load32 (mem s) q + sizeof_mlT)"
      using J(3) joined_size(1) [OF X _ _ q(2)] by (simp add: s1_def word_unat_eq_iff)
    moreover have "q = b + load32 (mem s) b + sizeof_mlT" unfolding q(2) neighbour_def ..
    ultimately show ?thesis unfolding neighbour_def by (simp only: ac_simps)
  qed
  show "closed (mem s1) (insert b (set (us @ vs))) (insert b (set (us @ vs) \<union> B))"
    unfolding closed_def
  proof (intro ballI impI)
    fix x
    assume x: "x \<in> insert b (set (us @ vs))" "same_page (neighbour (mem s1) x) x"
    have "neighbour (mem s1) x \<in> insert b (set (us @ q # vs) \<union> B) \<and> neighbour (mem s1) x \<noteq> q"
    proof (cases "x = b")
      case True
      have "same_page (neighbour (mem s) q) q" using x(2) q(1) nb True by (simp add: same_page_def)
      then have "neighbour (mem s) q \<in> insert b (set (us @ q # vs) \<union> B)" using C by (simp add: closed_def)
      moreover have "neighbour (mem s) q \<noteq> q"
        using neighbour_next [OF X, of q] ext_ge [of "mem s" q] by auto
      ultimately show ?thesis using True nb by simp
    next
      case False
      then have n: "neighbour (mem s1) x = neighbour (mem s) x" "x \<in> set (us @ vs)"
        using x(1) l by (auto intro: neighbour_cong)
      have "neighbour (mem s) x \<noteq> q"
        using neighbour_inj [OF X, of x b] n(2) False q(2) [symmetric] by auto
      moreover have "neighbour (mem s) x \<in> insert b (set (us @ q # vs) \<union> B)"
        using C n x(2) by (auto simp: closed_def)
      ultimately show ?thesis using n(1) by simp
    qed
    then show "neighbour (mem s1) x \<in> insert b (set (us @ vs) \<union> B)" by auto
  qed
  show "within (mem s1) (insert b (set (us @ vs))) (mem s) (insert b (set (us @ q # vs)))"
    unfolding within_def
  proof
    fix y
    assume y: "y \<in> insert b (set (us @ q # vs))"
    show "\<exists>x \<in> insert b (set (us @ vs)). unat x \<le> unat y \<and> unat y + ext (mem s) y \<le> unat x + ext (mem s1) x"
    proof (cases "y = b \<or> y = q")
      case True
      then show ?thesis using un e by (intro bexI [of _ b]) auto
    next
      case False
      then have "y \<in> set (us @ vs)" using y by auto
      then show ?thesis using l [of y] by (intro bexI [of _ y]) (auto simp: ext_def)
    qed
  qed
  show "\<forall>x \<in> insert b (set (us @ vs)). crossless (mem s1) x"
    if c: "\<forall>x \<in> insert b (set (us @ q # vs)). crossless (mem s) x"
  proof
    fix x
    assume x: "x \<in> insert b (set (us @ vs))"
    show "crossless (mem s1) x"
    proof (cases "x = b")
      case True
      then show ?thesis using crossless_join [OF un q(1) _ e] c by simp
    next
      case False
      then show ?thesis using c x crossless_cong [OF l, of x] by auto
    qed
  qed
qed


lemma took_step:
  assumes h: "heap_ok s (us @ q # vs) B" and b: "b \<notin> set (mmList s # us @ q # vs) \<union> B"
    and X: "blocks_ok (mem s) (insert b (set (mmList s # us @ q # vs) \<union> B))"
    and C: "closed (mem s) (insert b (set (us @ q # vs))) (insert b (set (us @ q # vs) \<union> B))"
    and q: "same_page q b" "q = neighbour (mem s) b"
    and T: "took_in (s\<lparr>mem := unite (mem s) b\<rparr>) b (us @ vs) B m' K"
  shows "took_in s b (us @ q # vs) B m' (insert q K)"
proof -
  note J = heap_join [OF h b X q] and S = join_step [OF h b X C q]
  have f: "filter (\<lambda>x. x \<notin> insert q K) (us @ q # vs) = filter (\<lambda>x. x \<notin> K) (us @ vs)"
    by (rule filter_notin) (use heap_okD(3) [OF h] in simp)
  let ?z = "filter (\<lambda>x. x \<notin> K) (us @ vs)"
  have m: "mem (s\<lparr>mem := x\<rparr>) = x" "mmList (s\<lparr>mem := x\<rparr>) = mmList s" "s\<lparr>mem := x, mem := y\<rparr> = s\<lparr>mem := y\<rparr>" for x y
    by simp_all
  have sub: "set (mmList s # ?z) \<union> B \<subseteq> set (mmList s # us @ q # vs) \<union> B" by auto
  have T1: "heap_ok (s\<lparr>mem := m'\<rparr>) ?z B" "blocks_ok m' (insert b (set (mmList s # ?z) \<union> B))"
    "\<forall>x \<in> set (mmList s # ?z) \<union> B. load32 m' x = load32 (unite (mem s) b) x"
    "load32 m' (nd_state b) = load32 (unite (mem s) b) (nd_state b)"
    "unat (load32 (unite (mem s) b) b) \<le> unat (load32 m' b)"
    "closed m' {b} B" "closed m' (set ?z) (insert b (set ?z \<union> B))"
    "within m' (insert b (set ?z)) (unite (mem s) b) (insert b (set (us @ vs)))"
    "only_headers (b # mmList s # us @ vs) (unite (mem s) b) m'"
    "(\<forall>x \<in> insert b (set (us @ vs)). crossless (unite (mem s) b) x) \<longrightarrow> (\<forall>x \<in> insert b (set ?z). crossless m' x)"
    using T unfolding took_in_def m by - (elim conjE, assumption)+
  have h3: "\<forall>x \<in> set (mmList s # ?z) \<union> B. load32 m' x = load32 (mem s) x"
  proof
    fix x
    assume x: "x \<in> set (mmList s # ?z) \<union> B"
    have "load32 m' x = load32 (unite (mem s) b) x" by (rule bspec [OF T1(3) x])
    also have "\<dots> = load32 (mem s) x" by (rule J(4)) (use x sub in blast)
    finally show "load32 m' x = load32 (mem s) x" .
  qed
  have h4: "load32 m' (nd_state b) = load32 (mem s) (nd_state b)" using T1(4) J(6) by (rule trans)
  have h5: "unat (load32 (mem s) b) \<le> unat (load32 m' b)" using T1(5) S(3) by simp
  have h8: "within m' (insert b (set ?z)) (mem s) (insert b (set (us @ q # vs)))"
    by (rule within_trans [OF T1(8)]) (use S(4) in simp)
  have h9: "only_headers (b # mmList s # us @ q # vs) (mem s) m'"
    by (rule only_headers_trans [OF J(5) only_headers_mono [OF T1(9)]]) auto
  have h10: "(\<forall>x \<in> insert b (set (us @ q # vs)). crossless (mem s) x) \<longrightarrow> (\<forall>x \<in> insert b (set ?z). crossless m' x)"
    using S(5) T1(10) unfolding m by (intro impI) (erule mp, assumption)
  show ?thesis
    unfolding took_in_def f by (intro conjI T1(1,2) h3 h4 h5 T1(6,7) h8 h9 h10)
qed

lemma filter_split:
  "us @ q # vs = us' @ p # vs' \<Longrightarrow> distinct (us @ q # vs) \<Longrightarrow> p \<noteq> q
    \<Longrightarrow> us @ vs = filter (\<lambda>x. x \<noteq> q) us' @ p # filter (\<lambda>x. x \<noteq> q) vs'"
proof -
  assume e: "us @ q # vs = us' @ p # vs'" and d: "distinct (us @ q # vs)" and n: "p \<noteq> q"
  have "us @ vs = filter (\<lambda>x. x \<noteq> q) (us @ q # vs)"
  proof -
    have "filter (\<lambda>x. x \<noteq> q) us = us" "filter (\<lambda>x. x \<noteq> q) vs = vs" using d by (auto simp: filter_id_conv)
    then show ?thesis by simp
  qed
  also have "\<dots> = filter (\<lambda>x. x \<noteq> q) us' @ p # filter (\<lambda>x. x \<noteq> q) vs'" unfolding e using n by simp
  finally show ?thesis .
qed

text \<open>
  \<open>unite_all\<close> ends, and a block \<open>p\<close> without a free neighbour that it takes in is the last one: its
  stale \<open>next\<close> field is the first block left behind it.
\<close>

lemma unite_all_took:
  assumes "heap_ok s zs B" and "b \<notin> set (mmList s # zs) \<union> B"
    and "blocks_ok (mem s) (insert b (set (mmList s # zs) \<union> B))"
    and "closed (mem s) (insert b (set zs)) (insert b (set zs \<union> B))"
  shows "\<exists>m' K. unite_all (mem s) b = Some m' \<and> took_in s b zs B m' K
    \<and> K \<subseteq> set zs \<and> (if closed (mem s) {b} B then m' = mem s \<and> K = {} else K \<noteq> {})
    \<and> (\<forall>us p vs. zs = us @ p # vs \<longrightarrow> p \<in> K \<longrightarrow> closed (mem s) {p} B
        \<longrightarrow> load32 m' (nd_next p) = first (filter (\<lambda>x. x \<notin> K) vs))"
  using assms
proof (induction "length zs" arbitrary: s zs rule: less_induct)
  case less
  note h = less.prems(1) and b = less.prems(2) and X = less.prems(3) and C = less.prems(4)
  show ?case
  proof (cases "closed (mem s) {b} B")
    case True
    have "unite_all (mem s) b = Some (mem s)"
      by (rule unite_all_stop [OF unite_closed [OF h True]])
    moreover have "took_in s b zs B (mem s) {}"
      by (rule took_none [OF h X True closed_mono [OF C]]) auto
    ultimately show ?thesis using True by (intro exI [of _ "mem s"] exI [of _ "{}"]) simp
  next
    case False
    define q where "q = neighbour (mem s) b"
    have q: "same_page q b" "q \<in> insert b (set zs \<union> B)" "q \<notin> B"
      using False C by (auto simp: closed_def q_def)
    have "q \<noteq> b" using neighbour_next [OF X, of b] ext_ge [of "mem s" b] by (auto simp: q_def)
    with q obtain us vs where zs: "zs = us @ q # vs" by (auto dest: split_list)
    define s1 where "s1 = s\<lparr>mem := unite (mem s) b\<rparr>"
    note A = h [unfolded zs] b [unfolded zs] X [unfolded zs]
    note J = heap_join [OF A q(1) q_def, folded s1_def]
      and S = join_step [OF A C [unfolded zs] q(1) q_def, folded s1_def]
    have s1: "mem s1 = unite (mem s) b" "mmList s1 = mmList s" by (simp_all add: s1_def)
    have d: "distinct zs" using heap_okD(3) [OF h] by simp
    have b1: "b \<notin> set (mmList s1 # us @ vs) \<union> B" using b by (auto simp: s1_def zs)
    have X1: "blocks_ok (mem s1) (insert b (set (mmList s1 # us @ vs) \<union> B))" using J(2) by (simp add: s1_def)
    have "length (us @ vs) < length zs" by (simp add: zs)
    from less.hyps [OF this J(1) b1 X1 S(1)] obtain m' K where
      r: "unite_all (mem s1) b = Some m'" "took_in s1 b (us @ vs) B m' K"
      "K \<subseteq> set (us @ vs)" "if closed (mem s1) {b} B then m' = mem s1 \<and> K = {} else K \<noteq> {}"
      "\<forall>us' p vs'. us @ vs = us' @ p # vs' \<longrightarrow> p \<in> K \<longrightarrow> closed (mem s1) {p} B
        \<longrightarrow> load32 m' (nd_next p) = first (filter (\<lambda>x. x \<notin> K) vs')"
      by blast
    have "unite_all (mem s) b = Some m'" 
    proof -
      have "load32 (unite (mem s) b) b \<noteq> load32 (mem s) b" using S(3) unfolding s1 by (metis less_irrefl)
      from unite_all_step [OF this] r(1) show ?thesis by (simp only: s1)
    qed
    moreover have "took_in s b zs B m' (insert q K)"
      unfolding zs by (rule took_step [OF A C [unfolded zs] q(1) q_def r(2) [unfolded s1_def]])
    moreover have "load32 m' (nd_next p) = first (filter (\<lambda>x. x \<notin> insert q K) vs')"
      if z: "zs = us' @ p # vs'" and p: "p \<in> insert q K" and c: "closed (mem s) {p} B" for us' p vs'
    proof (cases "p = q")
      case True
      then have v: "us' = us" "vs' = vs" using z zs d by (auto simp: append_eq_append_conv2 Cons_eq_append_conv append_eq_Cons_conv)
      have "closed (mem s1) {b} B"
        using c q(1) S(2) True by (simp add: closed_def same_page_def)
      then have K: "m' = mem s1" "K = {}" using r(4) by auto
      have "load32 m' (nd_next q) = load32 (ml_del (mem s) q) (nd_next q)" using J(7) K by (simp add: s1)
      also have "\<dots> = first vs"
      proof (cases us rule: rev_cases)
        case Nil
        then show ?thesis
          using ml_del_own [of "mem s" 0 "mmList s" "[]" "mmList s" q vs] heap_okD(1,10) [OF h] by (simp add: zs)
      next
        case (snoc us0 k)
        then show ?thesis
          using ml_del_own [of "mem s" 0 "mmList s" "mmList s # us0" k q vs] heap_okD(1,10) [OF h] by (simp add: zs)
      qed
      also have "vs = filter (\<lambda>x. x \<notin> insert q K) vs'" using d v K by (auto simp: zs intro!: filter_True [symmetric])
      finally show ?thesis using True by simp
    next
      case False
      have e: "us @ vs = filter (\<lambda>x. x \<noteq> q) us' @ p # filter (\<lambda>x. x \<noteq> q) vs'"
        by (rule filter_split [OF _ _ False]) (use z zs d in simp_all)
      have "p \<in> set (us @ vs)" using e by simp
      then have "load32 (mem s1) p = load32 (mem s) p" using J(4) [of p] by (auto simp: s1)
      then have "closed (mem s1) {p} B" by (intro closed_cong [OF c]) auto
      with r(5) e p False show ?thesis by (simp add: conj_commute)
    qed
    ultimately show ?thesis using False zs r(3)
      by (intro exI [of _ m'] exI [of _ "insert q K"]) auto
  qed
qed


section \<open>The walk over the list\<close>

text \<open>The heap \<open>ns\<close> after some joining and reordering.\<close>

definition tidied :: "machine \<Rightarrow> u32 list \<Rightarrow> u32 set \<Rightarrow> mem \<Rightarrow> u32 list \<Rightarrow> bool" where
  "tidied s ns B m' ns' \<longleftrightarrow>
     heap_ok (s\<lparr>mem := m'\<rparr>) ns' B \<and> closed m' (set ns') (set ns' \<union> B) \<and> set ns' \<subseteq> set ns
     \<and> within m' (set ns') (mem s) (set ns) \<and> only_headers (mmList s # ns) (mem s) m'
     \<and> ((\<forall>x \<in> set ns. crossless (mem s) x) \<longrightarrow> (\<forall>x \<in> set ns'. crossless m' x))"

lemma tidied_refl:
  "heap_ok s ns B \<Longrightarrow> closed (mem s) (set ns) (set ns \<union> B) \<Longrightarrow> tidied s ns B (mem s) ns"
  using within_same [of "set ns" "set ns" "mem s" "mem s"] by (simp add: tidied_def only_headers_def)

lemma tidied_trans:
  assumes a: "tidied s ns B m ls" and b: "tidied (s\<lparr>mem := m\<rparr>) ls B m' ns'"
  shows "tidied s ns B m' ns'"
proof -
  have A: "set ls \<subseteq> set ns" "within m (set ls) (mem s) (set ns)" "only_headers (mmList s # ns) (mem s) m"
    "(\<forall>x \<in> set ns. crossless (mem s) x) \<longrightarrow> (\<forall>x \<in> set ls. crossless m x)"
    using a unfolding tidied_def by - (elim conjE, assumption)+
  have B: "heap_ok (s\<lparr>mem := m'\<rparr>) ns' B" "closed m' (set ns') (set ns' \<union> B)" "set ns' \<subseteq> set ls"
    "within m' (set ns') m (set ls)" "only_headers (mmList s # ls) m m'"
    "(\<forall>x \<in> set ls. crossless m x) \<longrightarrow> (\<forall>x \<in> set ns'. crossless m' x)"
    using b unfolding tidied_def by simp_all
  have "only_headers (mmList s # ns) (mem s) m'"
    by (rule only_headers_trans [OF A(3) only_headers_mono [OF B(5)]]) (use A(1) in auto)
  then show ?thesis
    unfolding tidied_def using A(1,4) B(1-3,6) within_trans [OF B(4) A(2)] by (intro conjI impI) auto
qed

text \<open>Where the block goes, as seen from a place between \<open>xs\<close> and \<open>ys\<close>.\<close>

lemma insert_position:
  fixes b :: u32
  obtains (before) us vs where "xs = us @ vs"
      "takeWhile P (xs @ ys) @ b # dropWhile P (xs @ ys) = (us @ b # vs) @ ys"
  | (after) us vs where "ys = us @ vs" "us \<noteq> []" "\<forall>u \<in> set us. P u"
      "takeWhile P (xs @ ys) @ b # dropWhile P (xs @ ys) = xs @ us @ b # vs"
proof (cases "\<forall>x \<in> set xs. P x")
  case False
  then obtain x where "x \<in> set xs" "\<not> P x" by blast
  then have "takeWhile P (xs @ ys) = takeWhile P xs" "dropWhile P (xs @ ys) = dropWhile P xs @ ys"
    by (rule takeWhile_append1, rule dropWhile_append1)
  then show ?thesis using before [of "takeWhile P xs" "dropWhile P xs"] by simp
next
  case True
  then have t: "takeWhile P (xs @ ys) = xs @ takeWhile P ys" "dropWhile P (xs @ ys) = dropWhile P ys"
    by (simp_all add: takeWhile_append2 dropWhile_append2)
  show ?thesis
  proof (cases "takeWhile P ys = []")
    case True
    then have "dropWhile P ys = ys" using takeWhile_dropWhile_id [of P ys] by simp
    then show ?thesis using before [of xs "[]"] t True by simp
  next
    case False
    show ?thesis
      by (rule after [of "takeWhile P ys" "dropWhile P ys"]) (use False t in \<open>auto dest: set_takeWhileD\<close>)
  qed
qed

lemma first_notin: "n \<noteq> 0 \<Longrightarrow> n \<notin> set ns \<Longrightarrow> first ns \<noteq> n"
  by (cases ns) auto

text \<open>
  The step of \<open>clean\<close> to the next block: \<open>p\<close> was in front of \<open>b\<close>; it is in the list still, or it
  was taken in and points to the rest \<open>ys\<close>.
\<close>

text \<open>
  Where \<open>clean\<close> goes on after \<open>b\<close>: \<open>p\<close> was in front of \<open>b\<close>. Either \<open>p\<close> is in the list still, or it was
  taken in and points to the rest \<open>ys\<close>.
\<close>

definition after_node :: "mem \<Rightarrow> u32 \<Rightarrow> u32 \<Rightarrow> u32" where
  "after_node m b p = (let nn = load32 m (nd_next p) in if b \<noteq> nn then nn else load32 m (nd_next nn))"

lemma next_before:
  assumes d: "dll m 0 h (h # (us @ b # vs) @ ys)" and di: "distinct (h # (us @ b # vs) @ ys)"
    and p: "load32 m (nd_next p) = first ys \<or> h # us @ vs = ks @ [p]"
  shows "after_node m b p = first ys"
proof -
  have b: "b \<noteq> 0" "load32 m (nd_next b) = first ys \<or> vs \<noteq> []"
    using dll_succ [of m 0 h "h # us" b "vs @ ys"] d by auto
  have f: "first ys \<noteq> b" by (rule first_notin [OF b(1)]) (use di in auto)
  have "load32 m (nd_next p) = first ys \<or> load32 m (nd_next p) = b \<and> vs = []" if e: "h # us @ vs = ks @ [p]"
  proof (cases vs rule: rev_cases)
    case Nil
    then have eq: "h # (us @ b # vs) @ ys = ks @ p # b # ys" using e by simp
    show ?thesis using dll_succ(1) [OF d [unfolded eq]] Nil by simp
  next
    case (snoc vs0 v)
    then have eq: "h # (us @ b # vs) @ ys = (h # us @ b # vs0) @ p # ys" using e by (cases ks) auto
    show ?thesis using dll_succ(1) [OF d [unfolded eq]] by simp
  qed
  with p b f show ?thesis by (auto simp: after_node_def Let_def)
qed

lemma next_after:
  assumes d: "dll m 0 h (h # xs @ us @ b # vs)" and di: "distinct (h # xs @ us @ b # vs)" and "us \<noteq> []"
    and p: "load32 m (nd_next p) = first (us @ vs) \<or> h # xs = ks @ [p]"
  shows "after_node m b p = first (us @ b # vs)"
proof -
  obtain u us0 where us: "us = u # us0" using assms(3) by (cases us) auto
  have "load32 m (nd_next p) = u" if e: "h # xs = ks @ [p]"
  proof -
    have eq: "h # xs @ us @ b # vs = ks @ p # u # us0 @ b # vs" using e us by simp
    show ?thesis using dll_succ(1) [OF d [unfolded eq]] by simp
  qed
  moreover have "u \<noteq> b" using di us by auto
  ultimately show ?thesis using p us by (auto simp: after_node_def Let_def)
qed

lemma clean_loop_step:
  assumes "b \<noteq> 0" and "unite_all (ml_del m b) b = Some m2" and "ml_add m2 ml b = Some (ml', m3)"
  shows "clean_loop m ml b = clean_loop m3 ml' (after_node m3 b (load32 m (nd_root b)))"
  using assms by (subst clean_loop.simps) (simp add: after_node_def Let_def)


text \<open>Taking \<open>b\<close> out, joining it with what is behind it, and putting it back.\<close>

lemma clean_block:
  assumes h: "heap_ok s (xs @ b # ys) B" and C: "closed (mem s) (set (xs @ b # ys)) (set (xs @ b # ys) \<union> B)"
    and p: "mmList s # xs = ks @ [p]" "xs \<noteq> [] \<Longrightarrow> closed (mem s) {p} B"
  shows "\<exists>m2 m3 K. unite_all (ml_del (mem s) b) b = Some m2
    \<and> ml_add m2 (mmList s) b = Some (mmList s, m3)
    \<and> tidied s (xs @ b # ys) B m3
        (let zs = filter (\<lambda>x. x \<notin> K) xs @ filter (\<lambda>x. x \<notin> K) ys in smaller m2 b zs @ b # larger m2 b zs)
    \<and> (\<forall>x \<in> set (filter (\<lambda>x. x \<notin> K) (xs @ ys)). load32 m2 x = load32 (mem s) x \<and> load32 m3 x = load32 (mem s) x)
    \<and> closed m3 {b} B
    \<and> K \<subseteq> set (xs @ ys) \<and> (K = {} \<longrightarrow> load32 m2 b = load32 (mem s) b)
    \<and> (p \<in> K \<longrightarrow> load32 m3 (nd_next p) = first (filter (\<lambda>x. x \<notin> K) ys))
    \<and> load32 (mem s) (nd_root b) = p"
proof -
  note D = heap_okD [OF h]
  let ?X = "set (mmList s # xs @ b # ys) \<union> B"
  define s1 where "s1 = s\<lparr>mem := ml_del (mem s) b\<rparr>"
  have s1: "mem s1 = ml_del (mem s) b" "mmList s1 = mmList s" by (simp_all add: s1_def)
  have h1: "heap_ok s1 (xs @ ys) B" and f1: "add_frame (mem s) (mem s1) (mmList s # xs @ b # ys)"
    using heap_remove [OF h] by (simp_all add: s1_def)
  have l1: "load32 (mem s1) x = load32 (mem s) x" "load32 (mem s1) (nd_state x) = load32 (mem s) (nd_state x)"
    if "x \<in> ?X" for x
    using add_frame_heads [OF f1 D(5) _ that] by auto
  have b1: "b \<notin> set (mmList s1 # xs @ ys) \<union> B" using D(3,4) by (auto simp: s1)
  have X1: "blocks_ok (mem s1) (insert b (set (mmList s1 # xs @ ys) \<union> B))"
    by (rule blocks_ok_mono [OF blocks_ok_cong [OF D(5) l1(1)]]) (auto simp: s1)
  have C1: "closed (mem s1) (insert b (set (xs @ ys))) (insert b (set (xs @ ys) \<union> B))"
    by (rule closed_mono [OF closed_cong [OF C l1(1)]]) auto
  from unite_all_took [OF h1 b1 X1 C1] obtain m2 K where
    u: "unite_all (mem s1) b = Some m2" "took_in s1 b (xs @ ys) B m2 K"
    "K \<subseteq> set (xs @ ys)" "if closed (mem s1) {b} B then m2 = mem s1 \<and> K = {} else K \<noteq> {}"
    "\<forall>us p vs. xs @ ys = us @ p # vs \<longrightarrow> p \<in> K \<longrightarrow> closed (mem s1) {p} B
      \<longrightarrow> load32 m2 (nd_next p) = first (filter (\<lambda>x. x \<notin> K) vs)"
    by blast
  let ?zs = "filter (\<lambda>x. x \<notin> K) (xs @ ys)"
  have T: "blocks_ok m2 (insert b (set (mmList s1 # ?zs) \<union> B))"
    "\<forall>x \<in> set (mmList s1 # ?zs) \<union> B. load32 m2 x = load32 (mem s1) x"
    "load32 m2 (nd_state b) = load32 (mem s1) (nd_state b)" "unat (load32 (mem s1) b) \<le> unat (load32 m2 b)"
    "closed m2 {b} B" "closed m2 (set ?zs) (insert b (set ?zs \<union> B))"
    "within m2 (insert b (set ?zs)) (mem s1) (insert b (set (xs @ ys)))"
    "only_headers (b # mmList s1 # xs @ ys) (mem s1) m2"
    "(\<forall>x \<in> insert b (set (xs @ ys)). crossless (mem s1) x) \<longrightarrow> (\<forall>x \<in> insert b (set ?zs). crossless m2 x)"
    and T0: "heap_ok (s1\<lparr>mem := m2\<rparr>) ?zs B"
    using u(2) unfolding took_in_def by - (elim conjE, assumption)+
  define s2 where "s2 = s\<lparr>mem := m2\<rparr>"
  have s2: "mem s2 = m2" "mmList s2 = mmList s" "s1\<lparr>mem := m2\<rparr> = s2" by (simp_all add: s1_def s2_def)
  have lb: "load32 (mem s) b \<noteq> 0" "load32 (mem s) (nd_state b) = FREE" using D(7,8) [of b] by simp_all
  have "load32 m2 (nd_state b) = FREE" "load32 m2 b \<noteq> 0"
    using T(3,4) l1 [of b] lb by (auto simp: unat_gt_0 [symmetric] simp del: unat_gt_0)
  then have "\<exists>m'. ml_add (mem s2) (mmList s2) b = Some (mmList s2, m')
    \<and> heap_ok (s2\<lparr>mem := m'\<rparr>) (smaller (mem s2) b ?zs @ b # larger (mem s2) b ?zs) B
    \<and> add_frame (mem s2) m' (b # mmList s2 # ?zs)"
    by (intro heap_insert_at T0 [unfolded s2]) (use T(1) b1 in \<open>simp_all only: s1 s2\<close>, auto)
  then obtain m3 where a3: "ml_add m2 (mmList s) b = Some (mmList s, m3)"
    and h3: "heap_ok (s\<lparr>mem := m3\<rparr>) (smaller m2 b ?zs @ b # larger m2 b ?zs) B"
    and f3: "add_frame m2 m3 (b # mmList s # ?zs)"
    unfolding s2 by (auto simp: s2_def)
  define L where "L = smaller m2 b ?zs @ b # larger m2 b ?zs"
  have sL: "set L = insert b (set ?zs)" unfolding L_def using insert_set [of m2 b ?zs] by simp
  have l3: "load32 m3 x = load32 m2 x" if "x \<in> insert b (set (mmList s # ?zs) \<union> B)" for x
    by (rule add_frame_heads(1) [OF f3 T(1) [unfolded s1]]) (use that in auto)
  have l2: "load32 m2 x = load32 (mem s) x" if "x \<in> set (mmList s # ?zs) \<union> B" for x
    using bspec [OF T(2)] l1(1) [of x] that by (auto simp: s1)
  have "closed m2 (insert b (set ?zs)) (insert b (set ?zs) \<union> B)" using T(5,6) by (auto simp: closed_def)
  then have c3: "closed m3 (set L) (set L \<union> B)" unfolding sL by (rule closed_cong) (rule l3, auto)
  have w3: "within m3 (set L) (mem s) (set (xs @ b # ys))"
  proof (rule within_trans [OF within_trans])
    show "within m3 (set L) m2 (insert b (set ?zs))" 
    proof (rule within_same)
      fix y
      assume y: "y \<in> insert b (set ?zs)"
      then have "load32 m3 y = load32 m2 y" by (intro l3) auto
      then show "y \<in> set L \<and> load32 m2 y = load32 m3 y" unfolding sL using y by simp
    qed
    show "within m2 (insert b (set ?zs)) (mem s1) (insert b (set (xs @ ys)))" by (rule T(7))
    show "within (mem s1) (insert b (set (xs @ ys))) (mem s) (set (xs @ b # ys))"
    proof (rule within_same)
      fix y
      assume y: "y \<in> set (xs @ b # ys)"
      then have "load32 (mem s1) y = load32 (mem s) y" by (intro l1(1)) auto
      then show "y \<in> insert b (set (xs @ ys)) \<and> load32 (mem s) y = load32 (mem s1) y" using y by auto
    qed
  qed
  have o3: "only_headers (mmList s # xs @ b # ys) (mem s) m3"
  proof (rule only_headers_trans [OF only_headers_trans])
    show "only_headers (mmList s # xs @ b # ys) (mem s) (mem s1)" by (rule add_frame_headers [OF f1])
    show "only_headers (mmList s # xs @ b # ys) (mem s1) m2"
      by (rule only_headers_mono [OF T(8)]) (auto simp: s1)
    show "only_headers (mmList s # xs @ b # ys) m2 m3"
      by (rule only_headers_mono [OF add_frame_headers [OF f3]]) auto
  qed
  have x3: "\<forall>x \<in> set L. crossless m3 x" if "\<forall>x \<in> set (xs @ b # ys). crossless (mem s) x"
  proof -
    have "\<forall>x \<in> insert b (set (xs @ ys)). crossless (mem s1) x"
      by (rule crossless_all [OF that _ l1(1)]) auto
    then have "\<forall>x \<in> insert b (set ?zs). crossless m2 x" using T(9) by blast
    then show ?thesis unfolding sL by (rule crossless_all [OF _ _ l3]) auto
  qed
  have "tidied s (xs @ b # ys) B m3 L"
    unfolding tidied_def using h3 [folded L_def] c3 w3 o3 x3 sL by (intro conjI impI) auto
  moreover have "closed m3 {b} B" by (rule closed_cong [OF T(5)]) (use l3 in simp)
  moreover have "load32 m2 b = load32 (mem s) b" if "K = {}" using u(4) that l1(1) [of b] by (auto split: if_splits)
  moreover have "load32 m3 (nd_next p) = first (filter (\<lambda>x. x \<notin> K) ys)" if k: "p \<in> K"
  proof -
    have pX: "p \<in> set (xs @ ys)" using u(3) k by blast
    then have "xs \<noteq> []" using p(1) D(3) by auto
    then obtain us where xs: "xs = us @ [p]" using p(1) by (cases ks) auto
    have "closed (mem s1) {p} B"
      by (rule closed_cong [OF p(2) [OF \<open>xs \<noteq> []\<close>]]) (use l1(1) [of p] pX in auto)
    with u(5) k have "load32 m2 (nd_next p) = first (filter (\<lambda>x. x \<notin> K) ys)"
      by (simp only: xs append.assoc append_Cons append_Nil)
    moreover have "\<forall>k \<in> set (b # mmList s # ?zs). apart k 16 p 16"
    proof
      fix y
      assume y: "y \<in> set (b # mmList s # ?zs)"
      have "y \<noteq> p" using y k pX D(3) by auto
      then show "apart y 16 p 16" by (rule blocks_apart16 [OF D(5), rotated 2]) (use y pX in auto)
    qed
    from add_frame_fields [OF f3 this, of 4] have "load32 m3 (nd_next p) = load32 m2 (nd_next p)" by simp
    ultimately show ?thesis by simp
  qed
  moreover have "load32 (mem s) (nd_root b) = p"
  proof -
    have eq: "mmList s # xs @ b # ys = ks @ p # b # ys" using p(1) by (metis append.assoc append_Cons append_Nil)
    show ?thesis by (rule dll_pred [OF D(1) [unfolded eq]])
  qed
  moreover have "\<forall>x \<in> set ?zs. load32 m2 x = load32 (mem s) x \<and> load32 m3 x = load32 (mem s) x"
    using l2 l3 by auto
  ultimately show ?thesis
    using u(1,3) a3 unfolding s1 L_def
    by (intro exI [of _ m2] exI [of _ m3] exI [of _ K] conjI) (simp_all add: Let_def)
qed


text \<open>
  The loop of \<open>clean\<close>: \<open>xs\<close> has been seen, its blocks have no free neighbour; \<open>ys\<close> is still to come.
  A block that grows moves towards the end and is seen once more.
\<close>

lemma clean_loop_tidies:
  assumes "heap_ok s (xs @ ys) B" and "closed (mem s) (set (xs @ ys)) (set (xs @ ys) \<union> B)"
    and "closed (mem s) (set xs) B"
  shows "\<exists>m' ns'. clean_loop (mem s) (mmList s) (first ys) = Some (mmList s, m')
    \<and> tidied s (xs @ ys) B m' ns' \<and> closed m' (set ns') B"
  using assms
proof (induction "length (xs @ ys) + length ys" arbitrary: s xs ys rule: less_induct)
  case less
  show ?case
  proof (cases ys)
    case Nil
    have "clean_loop (mem s) (mmList s) 0 = Some (mmList s, mem s)" by (subst clean_loop.simps) simp
    then show ?thesis using Nil tidied_refl [OF less.prems(1,2)] less.prems(3) by auto
  next
    case (Cons b ys0)
    note h = less.prems(1) [unfolded Cons] and C = less.prems(2) [unfolded Cons]
    note D = heap_okD [OF h]
    obtain ks p where p: "mmList s # xs = ks @ [p]" by (metis append_butlast_last_id list.distinct(1))
    have "closed (mem s) {p} B" if "xs \<noteq> []"
      by (rule closed_mono [OF less.prems(3)]) (use p that in \<open>cases ks; auto\<close>)+
    from clean_block [OF h C p this] obtain m2 m3 K where
      u: "unite_all (ml_del (mem s) b) b = Some m2" "ml_add m2 (mmList s) b = Some (mmList s, m3)"
      and t: "tidied s (xs @ b # ys0) B m3
        (let zs = filter (\<lambda>x. x \<notin> K) xs @ filter (\<lambda>x. x \<notin> K) ys0 in smaller m2 b zs @ b # larger m2 b zs)"
      and l: "\<forall>x \<in> set (filter (\<lambda>x. x \<notin> K) (xs @ ys0)). load32 m2 x = load32 (mem s) x \<and> load32 m3 x = load32 (mem s) x"
      and cb: "closed m3 {b} B" and K: "K \<subseteq> set (xs @ ys0)" "K = {} \<longrightarrow> load32 m2 b = load32 (mem s) b"
      and stale: "p \<in> K \<longrightarrow> load32 m3 (nd_next p) = first (filter (\<lambda>x. x \<notin> K) ys0)"
      and r: "load32 (mem s) (nd_root b) = p"
      by blast
    let ?xs = "filter (\<lambda>x. x \<notin> K) xs" and ?ys = "filter (\<lambda>x. x \<notin> K) ys0"
    define s3 where "s3 = s\<lparr>mem := m3\<rparr>"
    have s3: "mem s3 = m3" "mmList s3 = mmList s" "s3\<lparr>mem := m\<rparr> = s\<lparr>mem := m\<rparr>" for m by (simp_all add: s3_def)
    define L where "L = smaller m2 b (?xs @ ?ys) @ b # larger m2 b (?xs @ ?ys)"
    have t: "tidied s (xs @ b # ys0) B m3 L" using t by (simp add: L_def Let_def)
    then have h3: "heap_ok s3 L B" and C3: "closed (mem s3) (set L) (set L \<union> B)"
      by (simp_all add: tidied_def s3_def)
    have pp: "load32 m3 (nd_next p) = first ?ys \<or> mmList s # ?xs = filter (\<lambda>x. x \<notin> K) ks @ [p]"
    proof (cases "p \<in> K")
      case False
      have "mmList s \<notin> K" using K(1) D(3) by auto
      then have "mmList s # ?xs = filter (\<lambda>x. x \<notin> K) (mmList s # xs)" by simp
      also have "\<dots> = filter (\<lambda>x. x \<notin> K) ks @ [p]" using False by (simp add: p)
      finally show ?thesis ..
    qed (use stale in simp)
    have cx: "closed m3 (set ?xs) B"
      by (rule closed_cong [OF closed_mono [OF less.prems(3)]]) (use l in auto)
    have len: "length ?xs \<le> length xs" "length ?ys \<le> length ys0" by simp_all
    have "\<exists>ps rs. L = ps @ rs \<and> after_node m3 b p = first rs \<and> closed m3 (set ps) B
      \<and> length (ps @ rs) + length rs < length (xs @ ys) + length ys"
    proof (cases rule: insert_position [where xs = ?xs and ys = ?ys and P = "\<lambda>n. load32 m2 n < load32 m2 b" and b = b])
      case (before us vs)
      have L: "L = (us @ b # vs) @ ?ys" using before(2) by (simp add: L_def)
      have "after_node m3 b p = first ?ys"
        by (rule next_before [where h = "mmList s" and us = us and vs = vs])
          (use heap_okD(1,3) [OF h3] pp before(1) in \<open>auto simp: L s3\<close>)
      moreover have "closed m3 (set (us @ b # vs)) B" using cb cx by (auto simp: closed_def before(1))
      ultimately show ?thesis
        using L before(1) len Cons by - (rule exI [of _ "us @ b # vs"], rule exI [of _ ?ys], simp,
            use length_filter_le [of "\<lambda>x. x \<notin> K" ys0] in linarith)
    next
      case (after us vs)
      have L: "L = ?xs @ us @ b # vs" using after(4) by (simp add: L_def)
      have "after_node m3 b p = first (us @ b # vs)"
        by (rule next_after [where h = "mmList s" and xs = ?xs])
          (use heap_okD(1,3) [OF h3] pp after(1,2) in \<open>auto simp: L s3\<close>)
      moreover have "length (?xs @ ?ys) < length (xs @ ys0)"
      proof -
        obtain u where u: "u \<in> set us" using after(2) by (cases us) auto
        have uy: "u \<in> set ?ys" using u after(1) by simp
        have "load32 (mem s) b \<le> load32 (mem s) u" using D(6) uy by (auto simp: sorted_append)
        moreover have "load32 m2 u = load32 (mem s) u" using l uy by auto
        ultimately have "K \<noteq> {}" using K(2) after(3) u by auto
        then obtain k where "k \<in> set (xs @ ys0)" "k \<in> K" using K(1) by blast
        then have "length (filter (\<lambda>x. x \<notin> K) (xs @ ys0)) < length (xs @ ys0)"
          by (intro length_filter_less) auto
        then show ?thesis by simp
      qed
      ultimately show ?thesis
        using L cx after(1) len Cons by - (rule exI [of _ ?xs], rule exI [of _ "us @ b # vs"], simp)
    qed
    then obtain ps rs where q: "L = ps @ rs" "after_node m3 b p = first rs" "closed m3 (set ps) B"
      "length (ps @ rs) + length rs < length (xs @ ys) + length ys" by blast
    from less.hyps [OF q(4) h3 [unfolded q(1)] C3 [unfolded q(1)]] q(3) obtain m' ns' where
      e: "clean_loop m3 (mmList s) (first rs) = Some (mmList s, m')" "tidied s3 L B m' ns'" "closed m' (set ns') B"
      by (auto simp: s3 q(1))
    have "b \<noteq> 0" using dll_succ(2) [of "mem s" 0 "mmList s" "mmList s # xs" b ys0] D(1) by simp
    from clean_loop_step [OF this u] r q(2) e(1)
    have "clean_loop (mem s) (mmList s) (first ys) = Some (mmList s, m')" by (simp add: Cons)
    moreover have "tidied s (xs @ ys) B m' ns'"
      unfolding Cons by (rule tidied_trans [OF t e(2) [unfolded s3_def]])
    ultimately show ?thesis using e(3) by blast
  qed
qed

lemma clean_tidies:
  assumes h: "heap_ok s ns B" and C: "closed (mem s) (set ns) (set ns \<union> B)"
  shows "\<exists>m' ns'. clean (mem s) (mmList s) = Some (mmList s, m') \<and> tidied s ns B m' ns' \<and> closed m' (set ns') B"
proof -
  have "load32 (mem s) (nd_next (mmList s)) = first ns"
    using dll_succ(1) [of "mem s" 0 "mmList s" "[]" "mmList s" ns] heap_okD(1) [OF h] by simp
  then show ?thesis
    using clean_loop_tidies [of s "[]" ns B] h C by (simp add: clean_def closed_def)
qed


section \<open>The whole of \<open>malloc\<close>\<close>

text \<open>The bytes of busy blocks, headers included, are as before.\<close>

definition busy_same :: "machine \<Rightarrow> machine \<Rightarrow> u32 set \<Rightarrow> bool" where
  "busy_same s s' B \<longleftrightarrow> (\<forall>b \<in> B. \<forall>k < ext (mem s) b. mem s' (b + of_nat k) = mem s (b + of_nat k))"

lemma busy_same_size:
  assumes "busy_same s s' B" and "b \<in> B"
  shows "load32 (mem s') b = load32 (mem s) b"
  by (rule load32_cong) (use assms ext_ge [of "mem s" b] in \<open>auto simp: busy_same_def\<close>)

lemma busy_same_trans:
  assumes a: "busy_same s s' B" and b: "busy_same s' s'' B"
  shows "busy_same s s'' B"
  unfolding busy_same_def
proof (intro ballI allI impI)
  fix x k
  assume x: "x \<in> B" "k < ext (mem s) x"
  then have "k < ext (mem s') x" using busy_same_size [OF a x(1)] by (simp add: ext_def)
  then show "mem s'' (x + of_nat k) = mem s (x + of_nat k)"
    using a b x by (simp add: busy_same_def)
qed

lemma busy_same_headers:
  assumes "heap_ok s ns B" and "only_headers (mmList s # ns) (mem s) (mem s')"
  shows "busy_same s s' B"
  using assms(2) busy_outside [OF assms(1)] unfolding busy_same_def only_headers_def by blast

lemma heap_at_crossless:
  assumes "heap_at s ns B" and "x \<in> set ns \<union> B"
  shows "crossless (mem s) x"
proof -
  have "in_pages s (set ns \<union> B)" using assms(1) by (simp add: heap_at_def)
  from in_pagesD [OF this assms(2)] obtain q where q: "kpage q" "unat q \<le> unat x"
    "unat x + ext (mem s) x \<le> unat q + 4096" by blast
  then obtain a where a: "unat q = 4096 * a" by (auto simp: kpage_def page_def mod_eq_0_iff_dvd elim: dvdE)
  have "0 < ext (mem s) x" using ext_ge [of "mem s" x] by simp
  with q a have "unat x div 4096 = a" "(unat x + ext (mem s) x - 1) div 4096 = a"
    by (intro div_nat_eqI; simp)+
  then show ?thesis by (simp add: crossless_def)
qed

lemma crossless_page:
  assumes "crossless m x" and "page q" and "unat q \<le> unat x" and "unat x < unat q + 4096"
  shows "unat x + ext m x \<le> unat q + 4096"
proof -
  obtain a where a: "unat q = 4096 * a" using assms(2) by (auto simp: page_def mod_eq_0_iff_dvd elim: dvdE)
  have "unat x div 4096 = a" by (rule div_nat_eqI) (use assms(3,4) a in simp_all)
  then have "(unat x + ext m x - 1) div 4096 = a" using assms(1) by (simp add: crossless_def)
  then have "unat x + ext m x - 1 < 4096 * a + 4096"
    using dividend_less_div_times [of 4096 "unat x + ext m x - 1"] by simp
  then show ?thesis using a by simp
qed

text \<open>Header writes do not reach the page counts.\<close>

lemma headers_mmap:
  assumes h: "heap_at s ns B" and o: "only_headers (mmList s # ns) (mem s) m'"
  shows "m' (MMAP_ADDR + drop_bit 12 q) = mmap s (drop_bit 12 q)"
proof -
  have "apart x 16 (MMAP_ADDR + drop_bit 12 q) 1" if x: "x \<in> set (mmList s # ns)" for x
  proof -
    have "0x300000 \<le> unat x"
    proof (cases "x = mmList s")
      case False
      then have "x \<in> set ns \<union> B" "in_pages s (set ns \<union> B)" using x h by (simp_all add: heap_at_def)
      from in_pagesD [OF this(2,1)] show ?thesis by (auto simp: kpage_def)
    qed (use h in \<open>simp add: heap_at_def\<close>)
    moreover have "unat (MMAP_ADDR + drop_bit 12 q) < 0x300000"
      using u32_bound [of q] by (simp add: unat_mmap div_less_iff_less_mult)
    moreover have "unat x + 16 \<le> 2 ^ 32" by (rule separate_end [OF heap_okD(10) [OF heap_at_ok [OF h]] x])
    ultimately show ?thesis by (auto simp: apart_def)
  qed
  then show ?thesis using o by (simp add: only_headers_def)
qed

lemma heap_at_tidied:
  assumes h: "heap_at s ns B" and t: "tidied s ns B m' ns'"
  defines "s' \<equiv> s\<lparr>mem := m'\<rparr>"
  shows "heap_at s' ns' B" and "free_pages s' = free_pages s" and "busy_same s s' B"
proof -
  have T: "heap_ok s' ns' B" "set ns' \<subseteq> set ns" "only_headers (mmList s # ns) (mem s) m'"
    "(\<forall>x \<in> set ns. crossless (mem s) x) \<longrightarrow> (\<forall>x \<in> set ns'. crossless m' x)"
    using t unfolding tidied_def s'_def by - (elim conjE, assumption)+
  have tk: "taken s' q = taken s q" for q using headers_mmap [OF h T(3)] by (simp add: taken_def s'_def)
  show bs: "busy_same s s' B" by (rule busy_same_headers [OF heap_at_ok [OF h]]) (simp add: s'_def T(3))
  show "free_pages s' = free_pages s" by (simp add: free_pages_def tk) (simp add: s'_def)
  have "in_pages s' (set ns' \<union> B)"
    unfolding in_pages_def
  proof
    fix x
    assume x: "x \<in> set ns' \<union> B"
    then have "x \<in> set ns \<union> B" using T(2) by auto
    moreover have "in_pages s (set ns \<union> B)" using h by (simp add: heap_at_def)
    ultimately obtain q where q: "kpage q" "taken s q" "unat q \<le> unat x" "unat x + ext (mem s) x \<le> unat q + 4096"
      using in_pagesD by blast
    have "crossless (mem s') x"
    proof (cases "x \<in> set ns'")
      case True
      then show ?thesis using T(4) heap_at_crossless [OF h] by (simp add: s'_def)
    next
      case False
      then have "x \<in> B" using x by simp
      then show ?thesis
        using crossless_cong [OF busy_same_size [OF bs]] heap_at_crossless [OF h] by blast
    qed
    then have "unat x + ext (mem s') x \<le> unat q + 4096"
      by (rule crossless_page) (use q ext_ge [of "mem s" x] in \<open>auto simp: kpage_def\<close>)
    with q tk show "\<exists>q. kpage q \<and> taken s' q \<and> unat q \<le> unat x \<and> unat x + ext (mem s') x \<le> unat q + 4096"
      by blast
  qed
  then show "heap_at s' ns' B" using T(1) h by (simp add: heap_at_def s'_def)
qed

lemma page_busy_same:
  assumes h: "heap_at s ns B" and g: "get_free_page s = Some (p, s1)"
    and o: "only_headers (p # mmList s # ns) (mem s1) m"
    and a: "apart_blocks (mem s) p 4096 (set (mmList s # ns) \<union> B)"
  shows "busy_same s (s1\<lparr>mem := m, mmList := mmList s\<rparr>) B"
  unfolding busy_same_def
proof (intro ballI allI impI)
  fix b k
  assume b: "b \<in> B" and k: "k < ext (mem s) b"
  have "apart p 4096 b (ext (mem s) b)" using a b by (simp add: apart_blocks_def)
  then have "apart p 16 (b + of_nat k) 1" by (rule apart_mono [OF apart_byte [OF _ k]]) simp_all
  then have "m (b + of_nat k) = mem s1 (b + of_nat k)"
    using o busy_outside [OF heap_at_ok [OF h] b k] by (auto simp: only_headers_def)
  also have "\<dots> = mem s (b + of_nat k)"
  proof (rule kernel_pages.mem_after [OF g])
    have "in_pages s (set ns \<union> B)" using h by (simp add: heap_at_def)
    from in_pagesD [OF this, of b] b have "0x400000 \<le> unat b" by (auto simp: kpage_def)
    moreover have "unat (b + of_nat k) = unat b + k"
      by (rule unat_add_nat) (use blocks_okD(2) [OF heap_okD(5) [OF heap_at_ok [OF h]], of b] b k in simp)
    ultimately show "\<not> in_range MMAP_ADDR 0x100000 (b + of_nat k)"
      by (simp add: in_range_def MMAP_ADDR_def)
  qed
  finally show "mem (s1\<lparr>mem := m, mmList := mmList s\<rparr>) (b + of_nat k) = mem s (b + of_nat k)" by simp
qed

lemma busy_same_refl [simp]: "busy_same s s B"
  by (simp add: busy_same_def)

lemma grow_found:
  assumes h: "heap_ok s ns B" and z: "z \<noteq> 0" and "\<exists>k \<in> set ns. z \<le> load32 (mem s) k"
  shows "\<exists>n. grow z s = Some (Some n, s) \<and> n \<in> set ns \<and> z \<le> load32 (mem s) n"
proof -
  from heap_find_some [OF assms] obtain n where
    "ml_find (mem s) (mmList s) z = Some n" "n \<noteq> 0" "n \<in> set ns" "z \<le> load32 (mem s) n" by blast
  then show ?thesis by (subst grow.simps) simp
qed

lemma grow_serves:
  assumes h: "heap_at s ns B" and z: "z \<noteq> 0" "unat z \<le> 4080" and f: "free_pages s \<noteq> {}"
  shows "\<exists>n s' ns'. grow z s = Some (Some n, s') \<and> heap_ok s' ns' B \<and> n \<in> set ns'
    \<and> z \<le> load32 (mem s') n \<and> busy_same s s' B"
proof (cases "\<exists>k \<in> set ns. z \<le> load32 (mem s) k")
  case True
  from grow_found [OF heap_at_ok [OF h] z(1) this] heap_at_ok [OF h] show ?thesis
    by (meson busy_same_refl)
next
  case False
  then have nf: "\<forall>n \<in> set ns. load32 (mem s) n < z" by auto
  obtain p s1 where g: "get_free_page s = Some (p, s1)" using get_free_page_progress f by blast
  from heap_grow [OF h g] obtain m ns' where m: "ml_add (new_block (mem s1) p) (mmList s1) p = Some (mmList s, m)"
    "heap_at (s1\<lparr>mem := m, mmList := mmList s\<rparr>) ns' B" "set ns' = insert p (set ns)"
    "load32 m p = 0x1000 - sizeof_mlT" "only_headers (p # mmList s # ns) (mem s1) m"
    "apart_blocks (mem s) p 4096 (set (mmList s # ns) \<union> B)" by blast
  let ?s = "s1\<lparr>mem := m, mmList := mmList s\<rparr>"
  have "p \<noteq> 0" using kernel_kpage(1) [OF g] by (auto simp: kpage_def)
  then have gr: "grow z s = grow z ?s"
    using heap_find_none [OF heap_at_ok [OF h] z(1) nf] m(1) g by (subst grow.simps) simp
  have "\<exists>k \<in> set ns'. z \<le> load32 (mem ?s) k"
    using m(3,4) z(2) by (intro bexI [of _ p]) (simp_all add: sizeof_mlT_def word_le_nat_alt)
  from grow_found [OF heap_at_ok [OF m(2)] z(1) this] heap_at_ok [OF m(2)] page_busy_same [OF h g m(5,6)]
  show ?thesis unfolding gr by blast
qed

lemma take_serves:
  assumes h: "heap_ok s ns B" and n: "n \<in> set ns" and z: "z \<le> load32 (mem s) n"
  shows "\<exists>s' ns'. take_block z n s = Some (n + sizeof_mlT, s') \<and> heap_ok s' ns' (insert n B)
    \<and> z \<le> load32 (mem s') n \<and> busy_same s s' B"
proof -
  from take_block_spec [OF h n z] obtain s' ns' where
    t: "take_block z n s = Some (n + sizeof_mlT, s')" "heap_ok s' ns' (insert n B)" "z \<le> load32 (mem s') n"
      "\<forall>a. (\<forall>x \<in> set (mmList s # ns). apart x 16 a 1) \<and> apart n (ext (mem s) n) a 1 \<longrightarrow> mem s' a = mem s a"
    by blast
  have "busy_same s s' B" using busy_outside [OF h, of _ _ n] n t(4) by (simp add: busy_same_def)
  with t show ?thesis by blast
qed

lemma malloc_slow:
  assumes h: "heap_at s ns B" and C: "closed (mem s) (set ns) (set ns \<union> B)"
    and z: "round4 sz \<noteq> 0" "unat (round4 sz) \<le> 4080" and f: "free_pages s \<noteq> {}"
  shows "\<exists>n s' ns'. malloc sz s = Some (n + sizeof_mlT, s') \<and> n \<notin> B \<and> heap_ok s' ns' (insert n B)
    \<and> round4 sz \<le> load32 (mem s') n \<and> busy_same s s' B"
proof (cases "\<exists>k \<in> set ns. round4 sz \<le> load32 (mem s) k")
  case True
  from heap_find_some [OF heap_at_ok [OF h] z(1) this] obtain n where n:
    "ml_find (mem s) (mmList s) (round4 sz) = Some n" "n \<noteq> 0" "n \<in> set ns" "round4 sz \<le> load32 (mem s) n"
    by blast
  have "malloc sz s = take_block (round4 sz) n s" using n by (simp add: malloc_def Let_def)
  moreover have "n \<notin> B" using n(3) heap_okD(4) [OF heap_at_ok [OF h]] by auto
  ultimately show ?thesis using take_serves [OF heap_at_ok [OF h] n(3,4)] by auto
next
  case False
  then have nf: "\<forall>n \<in> set ns. load32 (mem s) n < round4 sz" by auto
  from clean_tidies [OF heap_at_ok [OF h] C] obtain m ns1 where
    c: "clean (mem s) (mmList s) = Some (mmList s, m)" "tidied s ns B m ns1" by blast
  note A = heap_at_tidied [OF h c(2)]
  have "free_pages (s\<lparr>mem := m\<rparr>) \<noteq> {}" using A(2) f by simp
  from grow_serves [OF A(1) z this] obtain n s2 ns2 where
    g: "grow (round4 sz) (s\<lparr>mem := m\<rparr>) = Some (Some n, s2)" "heap_ok s2 ns2 B" "n \<in> set ns2"
      "round4 sz \<le> load32 (mem s2) n" "busy_same (s\<lparr>mem := m\<rparr>) s2 B" by blast
  have "s\<lparr>mem := m, mmList := mmList s\<rparr> = s\<lparr>mem := m\<rparr>" by simp
  then have "malloc sz s = take_block (round4 sz) n s2"
    using heap_find_none [OF heap_at_ok [OF h] z(1) nf] c(1) g(1) by (simp add: malloc_def Let_def)
  moreover have "n \<notin> B" using g(3) heap_okD(4) [OF g(2)] by auto
  ultimately show ?thesis
    using take_serves [OF g(2-4)] busy_same_trans [OF busy_same_trans [OF A(3) g(5)]] by auto
qed

text \<open>A request no page can hold, from any heap.\<close>

lemma malloc_never:
  assumes h: "heap_at s ns B" and C: "closed (mem s) (set ns) (set ns \<union> B)" and z: "4080 < unat (round4 sz)"
  shows "malloc sz s = None"
proof -
  have z0: "round4 sz \<noteq> 0" using z by auto
  have nf: "\<forall>n \<in> set ns. load32 (mem s) n < round4 sz"
    using heap_at_small [OF h] z by (auto simp: word_less_nat_alt intro: le_less_trans)
  from clean_tidies [OF heap_at_ok [OF h] C] obtain m ns1 where
    c: "clean (mem s) (mmList s) = Some (mmList s, m)" "tidied s ns B m ns1" by blast
  have "grow (round4 sz) (s\<lparr>mem := m\<rparr>) = None"
    using grow_never [OF _ heap_at_tidied(1) [OF h c(2)] z] by (cases "grow (round4 sz) (s\<lparr>mem := m\<rparr>)") auto
  moreover have "s\<lparr>mem := m, mmList := mmList s\<rparr> = s\<lparr>mem := m\<rparr>" by simp
  ultimately show ?thesis
    using heap_find_none [OF heap_at_ok [OF h] z0 nf] c(1) by (simp add: malloc_def Let_def)
qed

section \<open>Properties\<close>

text \<open>
  C6: \<open>clean\<close> returns from every well formed heap in which the block behind a free block, if it is
  in the same page, is a block of the heap. Afterwards the list is well formed again, no free
  block has a free neighbour in its page, every block that was free lies inside a free block,
  and memory changed in headers of free blocks only. Neither the changes of the list during the
  walk nor the \<open>next\<close> fields of blocks that were taken in mislead it.
\<close>

theorem clean_joins:
  assumes "heap_ok s ns B" and "closed (mem s) (set ns) (set ns \<union> B)"
  shows "\<exists>m' ns'. clean (mem s) (mmList s) = Some (mmList s, m')
    \<and> heap_ok (s\<lparr>mem := m'\<rparr>) ns' B \<and> set ns' \<subseteq> set ns
    \<and> (\<forall>n \<in> set ns'. same_page (neighbour m' n) n \<longrightarrow> neighbour m' n \<in> B)
    \<and> within m' (set ns') (mem s) (set ns) \<and> only_headers (mmList s # ns) (mem s) m'"
  using clean_tidies [OF assms] unfolding tidied_def closed_def by blast

text \<open>
  C4: \<open>malloc\<close> of one to 4080 bytes returns from every heap as long as the page allocator has a free
  page. The block handed out was not in use, holds the bytes asked for and is busy afterwards,
  the heap is well formed, and no byte of a block in use changed, whichever way the block was
  found: in the list, after joining neighbours, or in a new page.
\<close>

theorem malloc_serves:
  assumes "heap_at s ns B" and "closed (mem s) (set ns) (set ns \<union> B)" and "free_pages s \<noteq> {}"
    and "0 < sz" and "sz \<le> 4080"
  shows "\<exists>n s' ns'. malloc sz s = Some (n + sizeof_mlT, s') \<and> n \<notin> B \<and> heap_ok s' ns' (insert n B)
    \<and> unat sz \<le> unat (get32 s' n)
    \<and> (\<forall>b \<in> B. \<forall>k < ext (mem s) b. mem s' (b + of_nat k) = mem s (b + of_nat k))"
proof -
  have sz: "sz \<le> 0xFFFFFFFC" "unat sz \<le> 4080" using assms(5) by (simp_all add: word_le_nat_alt)
  note r = round4_ge [OF assms(4) sz(1)]
  from malloc_slow [OF assms(1,2) r(1) r(4) [OF sz(2)] assms(3)] obtain n s' ns' where
    "malloc sz s = Some (n + sizeof_mlT, s')" "n \<notin> B" "heap_ok s' ns' (insert n B)"
    "round4 sz \<le> get32 s' n" "busy_same s s' B" by blast
  moreover from this r(2) have "unat sz \<le> unat (get32 s' n)" by (simp add: word_le_nat_alt)
  ultimately show ?thesis unfolding busy_same_def by blast
qed

text \<open>
  C38: \<open>malloc\<close> of 4081 to \<open>0xFFFFFFFC\<close> bytes, the sizes above 4080 that rounding up does not wrap,
  never returns from a well formed heap in which the right neighbour of each free block within its
  page is a block. No page yields a block that large, blocks of different pages are never joined,
  and the loop takes page after page until the page allocator itself hangs; there is no failure result.
\<close>

theorem malloc_huge_hangs:
  assumes "heap_at s ns B" and "closed (mem s) (set ns) (set ns \<union> B)" and "4080 < sz" and "sz \<le> 0xFFFFFFFC"
  shows "malloc sz s = None"
proof -
  have sz: "4080 < unat sz" using assms(3) by (simp add: word_less_nat_alt)
  then have "0 < sz" by (simp add: word_less_nat_alt)
  from round4_ge(3) [OF this assms(4) sz] show ?thesis by (rule malloc_never [OF assms(1,2)])
qed

section \<open>Witnesses\<close>

text \<open>A page whose two halves are free blocks side by side.\<close>

definition pair_machine :: machine where
  "pair_machine = free_machine\<lparr>mem :=
     (store32 (store32 (store32 (store32 (store32 (store32 (store32 (store32 (\<lambda>_. 0)
       0x310004 0x400000) 0x400000 2024) 0x400004 0x4007F8) 0x400008 0x310000) 0x40000C FREE)
       0x4007F8 2040) 0x400800 0x400000) 0x400804 FREE)(0x200400 := 1)\<rparr>"

lemma pair_machine_fields:
  "get32 pair_machine 0x310000 = 0" "get32 pair_machine 0x310004 = 0x400000"
  "get32 pair_machine 0x310008 = 0" "get32 pair_machine 0x400000 = 2024"
  "get32 pair_machine 0x400004 = 0x4007F8" "get32 pair_machine 0x400008 = 0x310000"
  "get32 pair_machine 0x40000C = FREE" "get32 pair_machine 0x4007F8 = 2040"
  "get32 pair_machine 0x4007FC = 0" "get32 pair_machine 0x400800 = 0x400000"
  "get32 pair_machine 0x400804 = FREE" "mmList pair_machine = 0x310000" "KMEM pair_machine = 0x800000"
  by (simp_all add: pair_machine_def load32_upd_apart load32_store32_apart apart_def load32_zero free_machine_def
      boot_machine_def)

lemma pair_machine_ok: "heap_ok pair_machine [0x400000, 0x4007F8] {}"
  by (simp add: heap_ok_def pair_machine_fields blocks_ok_def ext_def apart_def)

lemma pair_machine_taken: "mmap pair_machine 0x400 = 1" "mmap pair_machine 0x401 = 0"
  by (simp_all add: pair_machine_def MMAP_ADDR_def store32_byte apart_def)

lemma pair_machine_at: "heap_at pair_machine [0x400000, 0x4007F8] {}"
proof -
  have "kpage 0x400000" "taken pair_machine 0x400000"
    using pair_machine_taken by (simp_all add: kpage_def page_def taken_def drop_bit_eq_div)
  then have "in_pages pair_machine {0x400000, 0x4007F8}"
    by (auto simp: in_pages_def ext_def pair_machine_fields intro!: exI [of _ "0x400000"])
  then show ?thesis using pair_machine_ok by (simp add: heap_at_def pair_machine_fields)
qed

lemma pair_machine_closed:
  "closed (mem pair_machine) (set [0x400000, 0x4007F8]) (set [0x400000, 0x4007F8] \<union> {})"
  by (simp add: closed_def neighbour_def pair_machine_fields sizeof_mlT_def same_page_def)

lemma pair_machine_pages: "free_pages pair_machine \<noteq> {}"
proof -
  have "0x401000 \<in> free_pages pair_machine"
    using pair_machine_taken by (simp add: free_pages_def kpage_def page_def taken_def drop_bit_eq_div pair_machine_fields)
  then show ?thesis by blast
qed

theorem clean_joins_witness:
  "\<exists>m'. clean (mem pair_machine) 0x310000 = Some (0x310000, m')"
  using clean_joins [OF pair_machine_ok pair_machine_closed] by (auto simp: pair_machine_fields)

theorem malloc_serves_witness:
  "\<exists>n s'. malloc 3000 pair_machine = Some (n + 16, s') \<and> 3000 \<le> unat (get32 s' n)"
  using malloc_serves [OF pair_machine_at pair_machine_closed pair_machine_pages, of 3000]
  by (auto simp: sizeof_mlT_def)

theorem malloc_huge_hangs_witness: "malloc 5000 pair_machine = None"
  by (rule malloc_huge_hangs [OF pair_machine_at pair_machine_closed]) simp_all

end
