(* ===== verification/Ne2kReg.thy ===== *)
theory Ne2kReg
  imports Machine
begin

text \<open>
  \<open>include/net/ne2k/ne2k.h\<close>: the port addresses of the NE2000 card, its command and mode bits,
  and the macros that access its registers, each as the sequence of port accesses it expands to.
\<close>

unbundle bit_operations_syntax

named_theorems nic_ports \<open>port addresses\<close>
named_theorems nic_bits \<open>command and mode bits\<close>
named_theorems nic_macros \<open>the register macros\<close>

section \<open>Ports\<close>

definition COMMAND :: u16 where [nic_ports]: "COMMAND = 0x300"
definition PAGESTART :: u16 where [nic_ports]: "PAGESTART = COMMAND + 1"
definition PAGESTOP :: u16 where [nic_ports]: "PAGESTOP = COMMAND + 2"
definition BOUNDARY :: u16 where [nic_ports]: "BOUNDARY = COMMAND + 3"
definition TRANSMITSTATUS :: u16 where [nic_ports]: "TRANSMITSTATUS = COMMAND + 4"
definition TRANSMITPAGE :: u16 where [nic_ports]: "TRANSMITPAGE = COMMAND + 4"
definition TRANSMITBYTECOUNT0 :: u16 where [nic_ports]: "TRANSMITBYTECOUNT0 = COMMAND + 5"
definition TRANSMITBYTECOUNT1 :: u16 where [nic_ports]: "TRANSMITBYTECOUNT1 = COMMAND + 6"
definition INTERRUPTSTATUS :: u16 where [nic_ports]: "INTERRUPTSTATUS = COMMAND + 7"
definition CURRENT :: u16 where [nic_ports]: "CURRENT = COMMAND + 7"
definition REMOTESTARTADDRESS0 :: u16 where [nic_ports]: "REMOTESTARTADDRESS0 = COMMAND + 8"
definition REMOTESTARTADDRESS1 :: u16 where [nic_ports]: "REMOTESTARTADDRESS1 = COMMAND + 9"
definition REMOTEBYTECOUNT0 :: u16 where [nic_ports]: "REMOTEBYTECOUNT0 = COMMAND + 0xa"
definition REMOTEBYTECOUNT1 :: u16 where [nic_ports]: "REMOTEBYTECOUNT1 = COMMAND + 0xb"
definition RECEIVECONFIGURATION :: u16 where [nic_ports]: "RECEIVECONFIGURATION = COMMAND + 0xc"
definition TRANSMITCONFIGURATION :: u16 where [nic_ports]: "TRANSMITCONFIGURATION = COMMAND + 0xd"
definition DATACONFIGURATION :: u16 where [nic_ports]: "DATACONFIGURATION = COMMAND + 0xe"
definition INTERRUPTMASK :: u16 where [nic_ports]: "INTERRUPTMASK = COMMAND + 0xf"
definition IOPORT :: u16 where [nic_ports]: "IOPORT = COMMAND + 0x10"
definition PAR0 :: u16 where [nic_ports]: "PAR0 = COMMAND + 1"
definition PAR1 :: u16 where [nic_ports]: "PAR1 = COMMAND + 2"
definition PAR2 :: u16 where [nic_ports]: "PAR2 = COMMAND + 3"
definition PAR3 :: u16 where [nic_ports]: "PAR3 = COMMAND + 4"
definition PAR4 :: u16 where [nic_ports]: "PAR4 = COMMAND + 5"
definition PAR5 :: u16 where [nic_ports]: "PAR5 = COMMAND + 6"
definition MAR0 :: u16 where [nic_ports]: "MAR0 = COMMAND + 0x8"
definition MAR1 :: u16 where [nic_ports]: "MAR1 = COMMAND + 0x9"
definition MAR2 :: u16 where [nic_ports]: "MAR2 = COMMAND + 0xa"
definition MAR3 :: u16 where [nic_ports]: "MAR3 = COMMAND + 0xb"
definition MAR4 :: u16 where [nic_ports]: "MAR4 = COMMAND + 0xc"
definition MAR5 :: u16 where [nic_ports]: "MAR5 = COMMAND + 0xd"
definition MAR6 :: u16 where [nic_ports]: "MAR6 = COMMAND + 0xe"
definition MAR7 :: u16 where [nic_ports]: "MAR7 = COMMAND + 0xf"

section \<open>Command and mode bits\<close>

definition NE_STOP :: u8 where [nic_bits]: "NE_STOP = 0x01"
definition NE_START :: u8 where [nic_bits]: "NE_START = 0x02"
definition NE_SEND :: u8 where [nic_bits]: "NE_SEND = 0x04"
definition NE_READ_DMA :: u8 where [nic_bits]: "NE_READ_DMA = 0x08"
definition NE_WRITE_DMA :: u8 where [nic_bits]: "NE_WRITE_DMA = 0x10"
definition NE_DMA_ABORT :: u8 where [nic_bits]: "NE_DMA_ABORT = 0x20"
definition NE_PAGE00 :: u8 where [nic_bits]: "NE_PAGE00 = 0x00"
definition NE_PAGE01 :: u8 where [nic_bits]: "NE_PAGE01 = 0x40"
definition NE_ISR_PRX :: u8 where [nic_bits]: "NE_ISR_PRX = 0x01"
definition NE_ISR_PTX :: u8 where [nic_bits]: "NE_ISR_PTX = 0x02"
definition NE_RDC :: u8 where [nic_bits]: "NE_RDC = 0x40"
definition NE_WTS :: u8 where [nic_bits]: "NE_WTS = 0x01"
definition NE_BOS :: u8 where [nic_bits]: "NE_BOS = 0x02"
definition NE_LS :: u8 where [nic_bits]: "NE_LS = 0x08"
definition NE_ARM :: u8 where [nic_bits]: "NE_ARM = 0x10"
definition NE_LB00 :: u8 where [nic_bits]: "NE_LB00 = 0x00"
definition NE_SEP :: u8 where [nic_bits]: "NE_SEP = 0x01"
definition NE_AR :: u8 where [nic_bits]: "NE_AR = 0x02"
definition NE_AB :: u8 where [nic_bits]: "NE_AB = 0x04"
definition NE_AM :: u8 where [nic_bits]: "NE_AM = 0x08"

section \<open>Register macros\<close>

definition neCmd :: "u8 \<Rightarrow> machine \<Rightarrow> machine" where [nic_macros]:
  "neCmd cmd s = outb cmd COMMAND s"

definition neWriteDMA :: "machine \<Rightarrow> machine" where [nic_macros]:
  "neWriteDMA s = neCmd (NE_START OR NE_WRITE_DMA) s"

definition neReadDMA :: "machine \<Rightarrow> machine" where [nic_macros]:
  "neReadDMA s = neCmd (NE_START OR NE_READ_DMA) s"

definition neSetMAC :: "u32 \<Rightarrow> u32 \<Rightarrow> machine \<Rightarrow> machine" where [nic_macros]:
  "neSetMAC macl mach s =
     (let s = neCmd (NE_PAGE01 OR NE_STOP OR NE_DMA_ABORT) s;
          s = outb (ucast (macl AND 0xff)) PAR0 s;
          s = outb (ucast (drop_bit 8 macl AND 0xff)) PAR1 s;
          s = outb (ucast (drop_bit 16 macl AND 0xff)) PAR2 s;
          s = outb (ucast (drop_bit 24 macl AND 0xff)) PAR3 s;
          s = outb (ucast (mach AND 0xff)) PAR4 s;
          s = outb (ucast (drop_bit 8 mach AND 0xff)) PAR5 s
      in neCmd (NE_PAGE00 OR NE_START OR NE_DMA_ABORT) s)"

definition neSetMap :: "u32 \<Rightarrow> u32 \<Rightarrow> machine \<Rightarrow> machine" where [nic_macros]:
  "neSetMap mapl maph s =
     (let s = neCmd (NE_PAGE01 OR NE_STOP OR NE_DMA_ABORT) s;
          s = outb (ucast (mapl AND 0xff)) MAR0 s;
          s = outb (ucast (drop_bit 8 mapl AND 0xff)) MAR1 s;
          s = outb (ucast (drop_bit 16 mapl AND 0xff)) MAR2 s;
          s = outb (ucast (drop_bit 24 mapl AND 0xff)) MAR3 s;
          s = outb (ucast (maph AND 0xff)) MAR4 s;
          s = outb (ucast (drop_bit 8 maph AND 0xff)) MAR5 s;
          s = outb (ucast (drop_bit 16 maph AND 0xff)) MAR6 s;
          s = outb (ucast (drop_bit 24 maph AND 0xff)) MAR7 s
      in neCmd (NE_PAGE00 OR NE_START OR NE_DMA_ABORT) s)"

definition neSetTransferPage :: "u8 \<Rightarrow> machine \<Rightarrow> machine" where [nic_macros]:
  "neSetTransferPage page s = outb page TRANSMITPAGE s"

definition neSetTransferByteCount :: "u16 \<Rightarrow> machine \<Rightarrow> machine" where [nic_macros]:
  "neSetTransferByteCount count s =
     (let s = outb (ucast (count AND 0xff)) TRANSMITBYTECOUNT0 s
      in outb (ucast (drop_bit 8 count AND 0xff)) TRANSMITBYTECOUNT1 s)"

definition neSendPack :: "u8 \<Rightarrow> u16 \<Rightarrow> machine \<Rightarrow> machine" where [nic_macros]:
  "neSendPack page count s =
     (let s = neSetTransferPage page s;
          s = neSetTransferByteCount count s
      in neCmd (NE_DMA_ABORT OR NE_SEND OR NE_START) s)"

definition neGetIntState :: "device \<Rightarrow> machine \<Rightarrow> u8 \<times> machine" where [nic_macros]:
  "neGetIntState dev s = inb dev INTERRUPTSTATUS s"

definition neSetIntState :: "u8 \<Rightarrow> machine \<Rightarrow> machine" where [nic_macros]:
  "neSetIntState state s = outb state INTERRUPTSTATUS s"

definition neSetDataConfig :: "u8 \<Rightarrow> machine \<Rightarrow> machine" where [nic_macros]:
  "neSetDataConfig mode s = outb (mode OR 0x80) DATACONFIGURATION s"

definition neSetTransferConfig :: "u8 \<Rightarrow> machine \<Rightarrow> machine" where [nic_macros]:
  "neSetTransferConfig mode s = outb (mode OR 0xE0) TRANSMITCONFIGURATION s"

definition neSetRecvConfig :: "u8 \<Rightarrow> machine \<Rightarrow> machine" where [nic_macros]:
  "neSetRecvConfig mode s = outb mode RECEIVECONFIGURATION s"

text \<open>The count is an \<open>int\<close>, so the shift is arithmetic.\<close>

definition neSetRemoteByteCount :: "u32 \<Rightarrow> machine \<Rightarrow> machine" where [nic_macros]:
  "neSetRemoteByteCount count s =
     (let s = outb (ucast (count AND 0xff)) REMOTEBYTECOUNT0 s
      in outb (ucast (signed_drop_bit 8 count AND 0xff)) REMOTEBYTECOUNT1 s)"

definition neSetRemoteAddr :: "u16 \<Rightarrow> machine \<Rightarrow> machine" where [nic_macros]:
  "neSetRemoteAddr addr s =
     (let s = outb (ucast (addr AND 0xff)) REMOTESTARTADDRESS0 s
      in outb (ucast (drop_bit 8 addr AND 0xff)) REMOTESTARTADDRESS1 s)"

definition neSetRecvPage :: "u8 \<Rightarrow> u8 \<Rightarrow> machine \<Rightarrow> machine" where [nic_macros]:
  "neSetRecvPage start stop s = (let s = outb start PAGESTART s in outb stop PAGESTOP s)"

definition neSetIntMask :: "u8 \<Rightarrow> machine \<Rightarrow> machine" where [nic_macros]:
  "neSetIntMask msk s = outb msk INTERRUPTMASK s"

definition neSetBoundary :: "u8 \<Rightarrow> machine \<Rightarrow> machine" where [nic_macros]:
  "neSetBoundary page s = outb page BOUNDARY s"

definition neGetBoundary :: "device \<Rightarrow> machine \<Rightarrow> u8 \<times> machine" where [nic_macros]:
  "neGetBoundary dev s = inb dev BOUNDARY s"

definition neSetCurrnet :: "u8 \<Rightarrow> machine \<Rightarrow> machine" where [nic_macros]:
  "neSetCurrnet page s =
     (let s = neCmd (NE_PAGE01 OR NE_STOP OR NE_DMA_ABORT) s;
          s = outb page CURRENT s
      in neCmd (NE_PAGE00 OR NE_START OR NE_DMA_ABORT) s)"

definition neGetCurrnet :: "device \<Rightarrow> machine \<Rightarrow> u8 \<times> machine" where [nic_macros]:
  "neGetCurrnet dev s =
     (let s = neCmd (NE_PAGE01 OR NE_START OR NE_DMA_ABORT) s;
          (v, s) = inb dev CURRENT s;
          s = neCmd (NE_PAGE00 OR NE_START OR NE_DMA_ABORT) s
      in (v, s))"

end
