(* ===== verification/Console.thy ===== *)
theory Console
  imports CString "HOL-Library.Signed_Division"
begin

text \<open>
  \<open>kernel/dg.c\<close>: the text console on the VGA frame buffer at \<open>0xb8000\<close>, 25 rows of 80 cells of
  two bytes (character, attribute), with one cell of a 26th row used before it scrolls.
\<close>

unbundle bit_operations_syntax

section \<open>The code\<close>

definition write_ch :: "u32 \<Rightarrow> machine \<Rightarrow> machine" where
  "write_ch ch s =
     (let addr = push_bit 1 (word_of_int (con_y s * 80 + con_x s) :: u32);
          s = (if ch = 10 then s\<lparr>con_y := con_y s + 1, con_x := 0\<rparr>
               else s\<lparr>mem := store16 (mem s) (0xb8000 + addr) (ucast (ch OR 0x0F00)),
                      con_x := con_x s + 1\<rparr>);
          s = s\<lparr>con_y := con_y s + con_x s sdiv 80\<rparr>;
          s = s\<lparr>con_x := con_x s smod 80\<rparr>;
          addr = (word_of_int ((con_y s * 80 + con_x s) * 2) :: u32)
      in if addr > 80 * 25 * 2
         then s\<lparr>mem := snd (memcpy (mem s) 0xb8000 (0xb8000 + 160) (25 * 80 * 2)),
                con_y := con_y s - 1\<rparr>
         else s)"

text \<open>The string literal \<open>"0123456789ABCDEF"\<close>; its characters are positive as \<open>char\<close>.\<close>

definition hex_literal :: "u32 list" where
  "hex_literal = [0x30, 0x31, 0x32, 0x33, 0x34, 0x35, 0x36, 0x37, 0x38, 0x39,
     0x41, 0x42, 0x43, 0x44, 0x45, 0x46]"

definition hexdigit :: "u32 \<Rightarrow> u32" where
  "hexdigit i = hex_literal ! unat (i AND 0xF)"

text \<open>\<open>num\<close> is promoted to \<open>int\<close> before it is shifted and masked.\<close>

definition putByte :: "u8 \<Rightarrow> machine \<Rightarrow> machine" where
  "putByte num s =
     (let s = write_ch (hexdigit (drop_bit 4 (ucast num))) s
      in write_ch (hexdigit (ucast num)) s)"

definition puthex :: "u32 \<Rightarrow> machine \<Rightarrow> machine" where
  "puthex num s =
     (let s = putByte (ucast (drop_bit 24 num AND 0xff)) s;
          s = putByte (ucast (drop_bit 16 num AND 0xff)) s;
          s = putByte (ucast (drop_bit 8 num AND 0xff)) s
      in putByte (ucast (num AND 0xff)) s)"

text \<open>
  The format loop of \<open>printk\<close>: the string's bytes from the pointer on, the words on the stack
  above the format argument, and the index of the next one. \<open>\<e>\<close> (27) prints a word in
  hexadecimal; \<open>%\<close> falls through to the default, which prints the character, a signed
  \<open>char\<close> extended to \<open>int\<close>.
\<close>

fun printk_loop :: "u8 list \<Rightarrow> (nat \<Rightarrow> u32) \<Rightarrow> nat \<Rightarrow> machine \<Rightarrow> machine" where
  "printk_loop [] va i s = s"
| "printk_loop (c # str) va i s =
     (if c = 0 then s
      else if c = 27 then printk_loop str va (i + 1) (puthex (va i) s)
      else printk_loop str va i (write_ch (scast c) s))"

definition printk :: "u8 list \<Rightarrow> (nat \<Rightarrow> u32) \<Rightarrow> machine \<Rightarrow> u32 \<times> machine" where
  "printk str va s = (0, printk_loop str va 0 s)"

definition clear :: "machine \<Rightarrow> machine" where
  "clear s = s\<lparr>con_y := 0, con_x := 0, mem := snd (memset (mem s) 0xb8000 0 (80 * 25 * 2))\<rparr>"

section \<open>The cursor invariant\<close>

text \<open>
  The cursor is on the screen, or on the first cell of the row below it, where the scroll is
  still pending.
\<close>

definition con_ok :: "machine \<Rightarrow> bool" where
  "con_ok s \<longleftrightarrow> 0 \<le> con_x s \<and> con_x s < 80 \<and> 0 \<le> con_y s \<and> con_y s * 80 + con_x s \<le> 2000"

text \<open>The linear cell index of the cursor.\<close>

definition con_pos :: "machine \<Rightarrow> nat" where
  "con_pos s = nat (con_y s * 80 + con_x s)"

text \<open>Cell \<open>n\<close> of the frame buffer, counting rows of 80 from the top.\<close>

definition cell :: "machine \<Rightarrow> nat \<Rightarrow> u16" where
  "cell s n = load16 (mem s) (0xb8000 + of_nat (2 * n))"

text \<open>The position after a character, before any scrolling.\<close>

definition next_pos :: "u32 \<Rightarrow> nat \<Rightarrow> nat" where
  "next_pos ch n = (if ch = 10 then (n div 80 + 1) * 80 else n + 1)"

text \<open>The cells after the character is stored, before any scrolling.\<close>

definition put_cell :: "u32 \<Rightarrow> nat \<Rightarrow> (nat \<Rightarrow> u16) \<Rightarrow> nat \<Rightarrow> u16" where
  "put_cell ch n f = (if ch = 10 then f else f(n := ucast (ch OR 0x0F00)))"

section \<open>Memory of the frame buffer\<close>

lemma unat_vga: "n < 32000 \<Longrightarrow> unat ((0xb8000 :: u32) + 2 * of_nat n) = 0xb8000 + 2 * n"
  using unat_add_nat [of "0xb8000" "2 * n"] by simp

lemma vga_apart:
  assumes "n < 32000" and "k < 32000" and "n \<noteq> k"
  shows "apart (0xb8000 + of_nat (2 * n)) 2 (0xb8000 + of_nat (2 * k)) 2"
  using assms by (auto simp: apart_def unat_vga)

lemma load16_vga_store:
  assumes "n < 32000" and "k < 32000"
  shows "load16 (store16 m (0xb8000 + of_nat (2 * n)) v) (0xb8000 + of_nat (2 * k))
    = (if k = n then v else load16 m (0xb8000 + of_nat (2 * k)))"
  using vga_apart [OF assms] by (cases "k = n") (auto simp: load16_store16_apart)

lemma copy_scroll_cell:
  assumes "k < 2000"
  shows "load16 (copy_bytes 4000 0xb8000 0xb80a0 m) (0xb8000 + of_nat (2 * k))
    = load16 m (0xb8000 + of_nat (2 * (k + 80)))"
proof -
  have c: "copy_bytes 4000 0xb8000 0xb80a0 m (0xb8000 + of_nat j) = m (0xb80a0 + of_nat j)"
    if "j < 4000" for j
    by (rule copy_bytes_offset) (use that in simp_all)
  have "copy_bytes 4000 0xb8000 0xb80a0 m (0xb8000 + of_nat (2 * k) + of_nat i)
      = m (0xb8000 + of_nat (2 * (k + 80)) + of_nat i)" if "i < 2" for i
    using c [of "2 * k + i"] assms that by (simp add: algebra_simps)
  from this[of 0] this[of 1] show ?thesis by (simp add: load16_def)
qed

lemma copy_scroll_frame:
  assumes "\<not> in_range 0xb8000 4000 a"
  shows "copy_bytes 4000 0xb8000 0xb80a0 m a = m a"
  by (rule copy_bytes_frame) (use assms in simp_all)

section \<open>One character\<close>

lemma con_pos_le: "con_ok s \<Longrightarrow> con_pos s \<le> 2000"
  by (auto simp: con_ok_def con_pos_def)

lemma con_coords:
  assumes "con_ok s"
  shows "con_y s = int (con_pos s div 80)" and "con_x s = int (con_pos s mod 80)"
    and "con_y s * 80 + con_x s = int (con_pos s)"
proof -
  have p: "int (con_pos s) = con_y s * 80 + con_x s"
    using assms by (simp add: con_ok_def con_pos_def)
  then show "con_y s * 80 + con_x s = int (con_pos s)" by simp
  show "con_y s = int (con_pos s div 80)" and "con_x s = int (con_pos s mod 80)"
    using assms by (auto simp: zdiv_int zmod_int p con_ok_def)
qed

lemma sdiv_smod_nat:
  "int a sdiv 80 = int (a div 80)" "int a smod 80 = int (a mod 80)"
  by (cases "a = 0"; simp add: signed_divide_int_def signed_modulo_int_def zdiv_int zmod_int)+

lemma word_of_int_nat [simp]: "word_of_int (int n) = (of_nat n :: 'a :: len word)"
  by simp

text \<open>The step before the scroll, as one update of position \<open>n\<close> to position \<open>p\<close>.\<close>

definition typed :: "u32 \<Rightarrow> machine \<Rightarrow> machine" where
  "typed ch s =
     (let p = next_pos ch (con_pos s)
      in s\<lparr>mem := (if ch = 10 then mem s
                  else store16 (mem s) (0xb8000 + of_nat (2 * con_pos s)) (ucast (ch OR 0x0F00))),
           con_y := int (p div 80), con_x := int (p mod 80)\<rparr>)"

lemma next_pos_le: "n \<le> 2000 \<Longrightarrow> next_pos ch n \<le> 2080"
  by (auto simp: next_pos_def)

lemma row_column: "int (p div 80) * 80 + int (p mod 80) = int p"
  by (metis div_mult_mod_eq of_nat_add of_nat_mult of_nat_numeral)

lemma Suc_split: "n div 80 + Suc (n mod 80) div 80 = Suc n div (80 :: nat)"
proof -
  have "Suc n = Suc (n mod 80) + n div 80 * 80" by simp
  then have "Suc n div 80 = (Suc (n mod 80) + n div 80 * 80) div 80" by (rule arg_cong)
  also have "\<dots> = n div 80 + Suc (n mod 80) div 80" by (rule div_mult_self1) simp
  finally show ?thesis by (rule sym)
qed

lemma write_ch_typed:
  assumes "con_ok s"
  shows "write_ch ch s =
    (if next_pos ch (con_pos s) > 2000
     then (typed ch s)\<lparr>mem := copy_bytes 4000 0xb8000 0xb80a0 (mem (typed ch s)),
                        con_y := con_y (typed ch s) - 1\<rparr>
     else typed ch s)"
proof -
  define n where "n = con_pos s"
  define p where "p = next_pos ch n"
  have n: "n \<le> 2000" using con_pos_le [OF assms] by (simp add: n_def)
  have p: "p \<le> 2080" using next_pos_le [OF n] by (simp add: p_def)
  note c = con_coords [OF assms, folded n_def]
  have a1: "push_bit 1 (word_of_int (con_y s * 80 + con_x s) :: u32) = of_nat (2 * n)"
    unfolding c(3) by (simp add: push_bit_eq_mult)
  have y: "con_y s + (con_x s + 1) sdiv 80 = int (Suc n div 80)"
    and x: "(con_x s + 1) smod 80 = int (Suc n mod 80)"
  proof -
    have e: "int (n mod 80) + 1 = int (Suc (n mod 80))" by simp
    have d: "n div 80 + Suc (n mod 80) div 80 = Suc n div 80"
      by (rule Suc_split)
    show "con_y s + (con_x s + 1) sdiv 80 = int (Suc n div 80)"
      unfolding c(1,2) e sdiv_smod_nat d [symmetric] by simp
    show "(con_x s + 1) smod 80 = int (Suc n mod 80)"
      unfolding c(1,2) e sdiv_smod_nat by (simp only: mod_Suc_eq)
  qed
  have a2: "(4000 < (word_of_int ((int (p div 80) * 80 + int (p mod 80)) * 2) :: u32)) = (2000 < p)"
  proof -
    have "(int (p div 80) * 80 + int (p mod 80)) * 2 = int (2 * p)"
      unfolding row_column by simp
    moreover have "(4000 < (of_nat (2 * p) :: u32)) = (2000 < p)"
    proof -
      have "unat (of_nat (2 * p) :: u32) = 2 * p"
        using unat_add_nat [of 0 "2 * p"] p by simp
      then show ?thesis unfolding word_less_nat_alt by simp
    qed
    ultimately show ?thesis by (simp only: word_of_int_nat)
  qed
  show ?thesis
  proof (cases "ch = 10")
    case True
    then have "p = (n div 80 + 1) * 80" by (simp add: p_def next_pos_def)
    then have "int (p div 80) = con_y s + 1" "int (p mod 80) = 0" by (simp_all add: c)
    moreover have "next_pos 10 n = p" using True by (simp add: p_def)
    ultimately show ?thesis using True a2
      by (simp add: write_ch_def typed_def Let_def memcpy_def n_def [symmetric] p_def [symmetric])
  next
    case False
    then have p: "p = Suc n" by (simp add: p_def next_pos_def)
    from y have "160 * con_y s + 160 * ((con_x s + 1) sdiv 80) = 160 * int (Suc n div 80)"
      by linarith
    with False a1 a2 x y show ?thesis
      by (simp add: write_ch_def typed_def Let_def memcpy_def n_def [symmetric] p_def [symmetric] p
          del: of_int_add of_int_mult of_nat_Suc)
  qed
qed

lemma typed_simps:
  "con_pos (typed ch s) = next_pos ch (con_pos s)"
  "0 \<le> con_x (typed ch s)" "con_x (typed ch s) < 80" "0 \<le> con_y (typed ch s)"
  "con_y (typed ch s) * 80 + con_x (typed ch s) = int (next_pos ch (con_pos s))"
proof -
  have "con_y (typed ch s) = int (next_pos ch (con_pos s) div 80)"
    and "con_x (typed ch s) = int (next_pos ch (con_pos s) mod 80)"
    by (simp_all add: typed_def Let_def)
  then show "con_y (typed ch s) * 80 + con_x (typed ch s) = int (next_pos ch (con_pos s))"
    by (simp only: row_column)
  then show "con_pos (typed ch s) = next_pos ch (con_pos s)"
    by (simp add: con_pos_def [of "typed ch s"])
  show "0 \<le> con_x (typed ch s)" "con_x (typed ch s) < 80" "0 \<le> con_y (typed ch s)"
    by (simp_all add: typed_def Let_def)
qed

lemma typed_cell:
  assumes "con_pos s < 32000" and "k < 32000"
  shows "cell (typed ch s) k = put_cell ch (con_pos s) (cell s) k"
  using load16_vga_store [OF assms]
  by (simp add: cell_def typed_def put_cell_def Let_def)

lemma typed_frame:
  assumes "con_pos s \<le> 2000" and "\<not> in_range 0xb8000 4002 a"
  shows "mem (typed ch s) a = mem s a"
proof -
  have "apart (0xb8000 + of_nat (2 * con_pos s)) 2 a 1"
    using assms u32_bound [of a] by (auto simp: apart_def in_range_def unat_vga)
  from store16_byte [OF this] show ?thesis
    by (simp add: typed_def Let_def)
qed

lemma write_ch_ok:
  assumes "con_ok s"
  shows "con_ok (write_ch ch s)
    \<and> (\<forall>a. \<not> in_range 0xb8000 4002 a \<longrightarrow> mem (write_ch ch s) a = mem s a)"
proof
  let ?p = "next_pos ch (con_pos s)"
  have p: "?p \<le> 2080" by (rule next_pos_le [OF con_pos_le [OF assms]])
  show "con_ok (write_ch ch s)"
    using typed_simps [of ch s] p
    by (auto simp: write_ch_typed [OF assms] con_ok_def)
  show "\<forall>a. \<not> in_range 0xb8000 4002 a \<longrightarrow> mem (write_ch ch s) a = mem s a"
  proof (intro allI impI)
    fix a :: u32
    assume a: "\<not> in_range 0xb8000 4002 a"
    then have "\<not> in_range 0xb8000 4000 a" by (auto simp: in_range_def)
    with a show "mem (write_ch ch s) a = mem s a"
      using typed_frame [OF con_pos_le [OF assms] a]
      by (simp add: write_ch_typed [OF assms] copy_scroll_frame)
  qed
qed

section \<open>Properties\<close>

text \<open>
  The console invariant: from a cursor on the screen, printing any character leaves the
  cursor on the screen again, and whatever happens the only bytes written are the 4002 bytes of
  the frame buffer from \<open>0xb8000\<close> on (the 25 rows and the first cell of the row below).
\<close>

theorem write_ch_safe:
  assumes "con_ok s"
  shows "con_ok (write_ch ch s)
    \<and> (\<forall>a. \<not> in_range 0xb8000 4002 a \<longrightarrow> mem (write_ch ch s) a = mem s a)"
  using assms by (rule write_ch_ok)

theorem write_ch_safe_witness:
  "con_ok (write_ch 65 (boot_machine (\<lambda>_. 0) 0x310000))
   \<and> mem (write_ch 65 (boot_machine (\<lambda>_. 0) 0x310000)) 0xb9000 = 0"
  using write_ch_safe [of "boot_machine (\<lambda>_. 0) 0x310000" 65]
  by (simp add: con_ok_def boot_machine_def in_range_def)

text \<open>
  C36: what a character does to the screen. It is stored with attribute \<open>0x0F\<close> in the cell of
  the cursor (a newline stores nothing) and the cursor moves to the next cell (to the start of
  the next row). Where that is beyond cell 2000, every row moves up by one and the cursor with
  it; otherwise all other cells stay as they are.
\<close>

theorem write_ch_cells:
  assumes "con_ok s"
  shows "let p = next_pos ch (con_pos s); f = put_cell ch (con_pos s) (cell s);
             s' = write_ch ch s
         in if p \<le> 2000 then con_pos s' = p \<and> (\<forall>k \<le> 2000. cell s' k = f k)
            else con_pos s' = p - 80 \<and> (\<forall>k < 2000. cell s' k = f (k + 80))"
proof -
  let ?p = "next_pos ch (con_pos s)" and ?t = "typed ch s"
  have n: "con_pos s \<le> 2000" by (rule con_pos_le [OF assms])
  have "cell (?t\<lparr>mem := copy_bytes 4000 0xb8000 0xb80a0 (mem ?t), con_y := y\<rparr>) k
      = put_cell ch (con_pos s) (cell s) (k + 80)" if "k < 2000" for k y
  proof -
    have "cell (?t\<lparr>mem := copy_bytes 4000 0xb8000 0xb80a0 (mem ?t), con_y := y\<rparr>) k
        = cell ?t (k + 80)"
      using copy_scroll_cell [OF that, of "mem ?t"] by (simp add: cell_def)
    then show ?thesis using typed_cell [of s "k + 80" ch] n that by simp
  qed
  moreover have "con_pos (?t\<lparr>mem := m, con_y := con_y ?t - 1\<rparr>) = ?p - 80"
    if "?p > 2000" for m
    using typed_simps(5) [of ch s] that by (simp add: con_pos_def)
  ultimately show ?thesis
    using typed_cell [of s _ ch] typed_simps(1) [of ch s] n
    by (simp add: write_ch_typed [OF assms])
qed

theorem write_ch_cells_witness:
  "con_pos (write_ch 65 (boot_machine (\<lambda>_. 0) 0x310000)) = 801
   \<and> cell (write_ch 65 (boot_machine (\<lambda>_. 0) 0x310000)) 800 = 0x0F41"
proof -
  let ?s = "boot_machine (\<lambda>_. 0) 0x310000"
  have "con_ok ?s" "con_pos ?s = 800" by (simp_all add: con_ok_def boot_machine_def con_pos_def)
  with write_ch_cells [of ?s 65] show ?thesis
    by (simp add: next_pos_def put_cell_def Let_def)
qed

section \<open>Hexadecimal output and formats\<close>

text \<open>The value of a hexadecimal digit character.\<close>

definition hexval :: "u32 \<Rightarrow> nat" where
  "hexval c = (if c < 0x41 then unat c - 0x30 else unat c - 0x41 + 10)"

lemma unat_and_15: "unat (i AND 0xF :: 'a :: len word) = unat i mod 16"
proof -
  have "(0xF :: 'a word) = mask 4" by (simp add: mask_eq_exp_minus_1)
  then show ?thesis using unat_and_mask [of i 4] by simp
qed

lemma hexval_hexdigit: "hexval (hexdigit i) = unat i mod 16"
proof -
  define d where "d = unat i mod 16"
  have "d < 16" by (simp add: d_def)
  moreover have "list_all (\<lambda>d. hexval (hex_literal ! d) = d) [0..<16]" by code_simp
  ultimately have "hexval (hex_literal ! d) = d" by (simp add: list_all_iff)
  then show ?thesis by (simp add: hexdigit_def unat_and_15 d_def)
qed

definition byte_chars :: "u8 \<Rightarrow> u32 list" where
  "byte_chars b = [hexdigit (drop_bit 4 (ucast b)), hexdigit (ucast b)]"

definition hex_chars :: "u32 \<Rightarrow> u32 list" where
  "hex_chars num = byte_chars (ucast (drop_bit 24 num)) @ byte_chars (ucast (drop_bit 16 num))
     @ byte_chars (ucast (drop_bit 8 num)) @ byte_chars (ucast num)"

lemma putByte_fold: "putByte b s = fold write_ch (byte_chars b) s"
  by (simp add: putByte_def byte_chars_def Let_def)

lemma ucast_and_ff: "(ucast (w AND 0xff :: u32) :: u8) = ucast w"
proof -
  have ff: "(0xff :: u32) = mask 8" by (simp add: mask_eq_exp_minus_1)
  show ?thesis unfolding ff by (rule bit_word_eqI) (auto simp: bit_simps)
qed

lemma puthex_fold: "puthex num s = fold write_ch (hex_chars num) s"
  by (simp add: puthex_def hex_chars_def putByte_fold Let_def ucast_and_ff)

lemma byte_value:
  "16 * (16 * v + hexval (hexdigit (drop_bit 4 (ucast b)))) + hexval (hexdigit (ucast (b :: u8)))
    = 256 * v + unat b"
proof -
  have b: "unat b < 256" using unsigned_less [of b, where ?'a = nat] by simp
  then have "unat (ucast b :: u32) = unat b" by (simp add: unat_simps)
  with b show ?thesis by (simp add: hexval_hexdigit unat_simps)
qed

lemma set_byte_chars: "set (byte_chars b) \<subseteq> set hex_literal"
proof -
  have "hexdigit i \<in> set hex_literal" for i
    unfolding hexdigit_def by (rule nth_mem) (simp add: unat_and_15 hex_literal_def)
  then show ?thesis by (simp add: byte_chars_def)
qed

lemma bytes_value:
  fixes x :: nat
  shows "16777216 * (x div 16777216) + 65536 * (x div 65536 mod 256)
    + 256 * (x div 256 mod 256) + x mod 256 = x"
proof -
  define a b c where "a = x div 256" and "b = a div 256" and "c = b div 256"
  define r0 r1 r2 where "r0 = x mod 256" and "r1 = a mod 256" and "r2 = b mod 256"
  have e: "x div 65536 = b" "x div 16777216 = c" "x div 256 = a"
    by (simp_all add: a_def b_def c_def flip: div_mult2_eq)
  have "x = 256 * a + r0" "a = 256 * b + r1" "b = 256 * c + r2"
    by (simp_all add: a_def b_def c_def r0_def r1_def r2_def)
  then have "16777216 * c + 65536 * r2 + 256 * r1 + r0 = x" by simp
  then show ?thesis by (simp only: e r0_def r1_def r2_def)
qed

lemma hex_value: "foldl (\<lambda>v c. 16 * v + hexval c) 0 (hex_chars num) = unat num"
proof -
  have "foldl (\<lambda>v c. 16 * v + hexval c) v (byte_chars b) = 256 * v + unat b" for v b
    using byte_value [of v b] by (simp add: byte_chars_def)
  moreover have "unat num < 2 ^ 32" by (rule u32_bound)
  ultimately show ?thesis
    by (simp add: hex_chars_def unat_simps bytes_value)
qed

text \<open>
  \<open>puthex\<close> prints eight characters that are hexadecimal digits and that read back as the
  number.
\<close>

theorem puthex_roundtrip:
  "puthex num s = fold write_ch (hex_chars num) s \<and> length (hex_chars num) = 8
   \<and> set (hex_chars num) \<subseteq> set hex_literal
   \<and> foldl (\<lambda>v c. 16 * v + hexval c) 0 (hex_chars num) = unat num"
  using set_byte_chars hex_value [of num]
  by (auto simp: puthex_fold) (auto simp: hex_chars_def byte_chars_def)

text \<open>The characters a format prints: the reference for the loop of \<open>printk\<close>.\<close>

fun format_chars :: "u8 list \<Rightarrow> (nat \<Rightarrow> u32) \<Rightarrow> u32 list" where
  "format_chars [] va = []"
| "format_chars (c # str) va =
     (if c = 0 then []
      else if c = 27 then hex_chars (va 0) @ format_chars str (\<lambda>i. va (Suc i))
      else scast c # format_chars str va)"

lemma printk_loop_fold:
  "printk_loop str va i s = fold write_ch (format_chars str (\<lambda>j. va (i + j))) s"
  by (induction str va i s rule: printk_loop.induct) (simp_all add: puthex_fold)

lemma fold_write_ch_safe:
  "con_ok s \<Longrightarrow> con_ok (fold write_ch cs s)
     \<and> (\<forall>a. \<not> in_range 0xb8000 4002 a \<longrightarrow> mem (fold write_ch cs s) a = mem s a)"
proof (induction cs arbitrary: s)
  case (Cons c cs)
  then show ?case using write_ch_ok [of s c] by simp
qed simp

text \<open>
  \<open>printk\<close> prints the characters of its format in order, each escape replaced by the eight
  hexadecimal digits of the next argument, up to the terminating NUL; it keeps the cursor on
  the screen and writes nothing but the frame buffer.
\<close>

theorem printk_prints:
  assumes "con_ok s"
  shows "snd (printk str va s) = fold write_ch (format_chars str va) s
    \<and> con_ok (snd (printk str va s))
    \<and> (\<forall>a. \<not> in_range 0xb8000 4002 a \<longrightarrow> mem (snd (printk str va s)) a = mem s a)"
  using fold_write_ch_safe [OF assms] by (simp add: printk_def printk_loop_fold)

text \<open>
  \<open>clear\<close> blanks all 2000 cells of the screen, puts the cursor in the top left corner, and
  changes no byte outside the screen.
\<close>

theorem clear_blanks:
  "con_ok (clear s) \<and> con_pos (clear s) = 0 \<and> (\<forall>k < 2000. cell (clear s) k = 0)
   \<and> (\<forall>a. \<not> in_range 0xb8000 4000 a \<longrightarrow> mem (clear s) a = mem s a)"
proof -
  have m: "mem (clear s) a = (if unat (a - 0xb8000) < 4000 then 0 else mem s a)" for a
    by (simp add: clear_def memset_def loop_count_def fill_bytes_eq)
  have "cell (clear s) k = 0" if "k < 2000" for k
  proof -
    have "mem (clear s) (0xb8000 + of_nat j) = 0" if "j < 4000" for j
      using that unat_add_nat [of 0 j] by (simp add: m)
    from this[of "2 * k"] this[of "2 * k + 1"] that show ?thesis
      by (simp add: cell_def load16_def algebra_simps)
  qed
  moreover have "con_ok (clear s)" "con_pos (clear s) = 0"
    by (simp_all add: clear_def con_ok_def con_pos_def)
  ultimately show ?thesis by (simp add: m in_range_iff)
qed

theorem printk_prints_witness:
  "snd (printk [0x41, 27] (\<lambda>_. 0x1F) (boot_machine (\<lambda>_. 0) 0x310000))
     = fold write_ch [0x41, 0x30, 0x30, 0x30, 0x30, 0x30, 0x30, 0x31, 0x46]
         (boot_machine (\<lambda>_. 0) 0x310000)"
proof -
  have "con_ok (boot_machine (\<lambda>_. 0) 0x310000)" by (simp add: con_ok_def boot_machine_def)
  moreover have "format_chars [0x41, 27] (\<lambda>_. 0x1F)
      = [0x41, 0x30, 0x30, 0x30, 0x30, 0x30, 0x30, 0x31, 0x46]"
    by code_simp
  ultimately show ?thesis
    using printk_prints [of "boot_machine (\<lambda>_. 0) 0x310000" "[0x41, 27]" "\<lambda>_. 0x1F"] by simp
qed

theorem clear_blanks_witness:
  "cell (clear (boot_machine (\<lambda>_. 0x41) 0x310000)) 1999 = 0
   \<and> mem (clear (boot_machine (\<lambda>_. 0x41) 0x310000)) 0xb8FA0 = 0x41"
  using clear_blanks [of "boot_machine (\<lambda>_. 0x41) 0x310000"]
  by (simp add: in_range_def boot_machine_def)

end
