(* ===== verification/Areas.thy ===== *)
theory Areas
  imports Malloc
begin

text \<open>
  Who may write where: the interface the network code has to the heap. A client owns areas of
  memory; the allocator adds one, takes one back, and changes no other. The interface is a
  locale, interpreted at the end on \<open>malloc\<close> and \<open>free\<close> of \<open>kernel/malloc.c\<close>.
\<close>

unbundle bit_operations_syntax

section \<open>Areas\<close>

type_synonym area = "u32 \<times> nat"

definition areas_ok :: "area set \<Rightarrow> bool" where
  "areas_ok R \<longleftrightarrow> (\<forall>(p, k) \<in> R. unat p + k \<le> 2 ^ 32)
     \<and> (\<forall>A \<in> R. \<forall>A' \<in> R. A \<noteq> A' \<longrightarrow> apart (fst A) (snd A) (fst A') (snd A'))"

definition same_areas :: "area set \<Rightarrow> mem \<Rightarrow> mem \<Rightarrow> bool" where
  "same_areas R m m' \<longleftrightarrow> (\<forall>p k a. (p, k) \<in> R \<longrightarrow> in_range p k a \<longrightarrow> m' a = m a)"

text \<open>Memory that differs inside one area only.\<close>

definition only_area :: "u32 \<Rightarrow> nat \<Rightarrow> mem \<Rightarrow> mem \<Rightarrow> bool" where
  "only_area p k m m' \<longleftrightarrow> (\<forall>a. \<not> in_range p k a \<longrightarrow> m' a = m a)"

lemma areas_apart: "areas_ok R \<Longrightarrow> (p, k) \<in> R \<Longrightarrow> (q, l) \<in> R \<Longrightarrow> (p, k) \<noteq> (q, l) \<Longrightarrow> apart p k q l"
  by (force simp: areas_ok_def)

lemma areas_bound: "areas_ok R \<Longrightarrow> (p, k) \<in> R \<Longrightarrow> unat p + k \<le> 2 ^ 32"
  by (auto simp: areas_ok_def)

lemma areas_ok_mono: "areas_ok R \<Longrightarrow> Q \<subseteq> R \<Longrightarrow> areas_ok Q"
  unfolding areas_ok_def by blast

lemma same_areas_refl [simp]: "same_areas R m m"
  by (simp add: same_areas_def)

lemma same_areas_trans: "same_areas R m m' \<Longrightarrow> same_areas R m' m'' \<Longrightarrow> same_areas R m m''"
  by (auto simp: same_areas_def)

lemma same_areas_mono: "same_areas R m m' \<Longrightarrow> Q \<subseteq> R \<Longrightarrow> same_areas Q m m'"
  unfolding same_areas_def by blast

lemma same_areas_sym: "same_areas R m m' \<Longrightarrow> same_areas R m' m"
  unfolding same_areas_def by simp

lemma same_areasD: "same_areas R m m' \<Longrightarrow> (p, k) \<in> R \<Longrightarrow> in_range p k a \<Longrightarrow> m' a = m a"
  by (auto simp: same_areas_def)

lemma only_areaD: "only_area p k m m' \<Longrightarrow> \<not> in_range p k a \<Longrightarrow> m' a = m a"
  by (simp add: only_area_def)

lemma only_area_refl [simp]: "only_area p k m m"
  by (simp add: only_area_def)

lemma only_area_trans: "only_area p k m m' \<Longrightarrow> only_area p k m' m'' \<Longrightarrow> only_area p k m m''"
  by (simp add: only_area_def)

lemma apart_range: "apart x i q l \<Longrightarrow> in_range q l a \<Longrightarrow> apart x i a 1"
  using u32_bound [of a] by (auto simp: apart_def in_range_def)

lemma apart_not_range: "apart x i q l \<Longrightarrow> in_range q l a \<Longrightarrow> \<not> in_range x i a"
  by (auto simp: apart_def in_range_def)

lemma in_range_offset:
  assumes "unat p + n \<le> 2 ^ 32" and "i < n"
  shows "in_range p n (p + of_nat i)"
proof -
  have "unat (p + of_nat i) = unat p + i" by (rule unat_add_nat) (use assms in simp)
  then show ?thesis using assms(2) by (simp add: in_range_def)
qed

lemma in_range_sub:
  "in_range q l a \<Longrightarrow> unat p \<le> unat q \<Longrightarrow> unat q + l \<le> unat p + k \<Longrightarrow> in_range p k a"
  by (auto simp: in_range_def)

lemma only_area_others:
  assumes "areas_ok R" and "(p, k) \<in> R" and "only_area p k m m'"
  shows "same_areas (R - {(p, k)}) m m'"
  unfolding same_areas_def
proof (intro allI impI)
  fix q l a
  assume "(q, l) \<in> R - {(p, k)}" "in_range q l a"
  then have "apart p k q l" by (intro areas_apart [OF assms(1,2)]) auto
  then show "m' a = m a" using apart_not_range [OF _ \<open>in_range q l a\<close>] assms(3) by (auto simp: only_area_def)
qed

text \<open>Reading a word that lies inside an area.\<close>

lemma load32_same:
  assumes "\<And>a. in_range p k a \<Longrightarrow> m' a = m a" and "unat p + k \<le> 2 ^ 32" and "i + 4 \<le> k"
  shows "load32 m' (p + of_nat i) = load32 m (p + of_nat i)"
proof (rule load32_cong)
  fix j :: nat
  assume "j < 4"
  then have "in_range p k (p + of_nat (i + j))" by (intro in_range_offset) (use assms in auto)
  then show "m' (p + of_nat i + of_nat j) = m (p + of_nat i + of_nat j)"
    using assms(1) by (simp add: add.assoc)
qed

lemma load16_same:
  assumes "\<And>a. in_range p k a \<Longrightarrow> m' a = m a" and "unat p + k \<le> 2 ^ 32" and "i + 2 \<le> k"
  shows "load16 m' (p + of_nat i) = load16 m (p + of_nat i)"
proof (rule load16_cong)
  fix j :: nat
  assume "j < 2"
  then have "in_range p k (p + of_nat (i + j))" by (intro in_range_offset) (use assms in auto)
  then show "m' (p + of_nat i + of_nat j) = m (p + of_nat i + of_nat j)"
    using assms(1) by (simp add: add.assoc)
qed

lemma only_area_store32:
  assumes "unat p + k \<le> 2 ^ 32" and "i + 4 \<le> k"
  shows "only_area p k m (store32 m (p + of_nat i) v)"
  unfolding only_area_def
proof (intro allI impI)
  fix a
  assume a: "\<not> in_range p k a"
  have "in_range p k (p + of_nat (i + j))" if "j < 4" for j
    by (rule in_range_offset) (use assms that in auto)
  from this[of 0] this[of 1] this[of 2] this[of 3] a
  show "store32 m (p + of_nat i) v a = m a" by (auto simp: store32_def ac_simps)
qed

lemma only_area_store16:
  assumes "unat p + k \<le> 2 ^ 32" and "i + 2 \<le> k"
  shows "only_area p k m (store16 m (p + of_nat i) v)"
  unfolding only_area_def
proof (intro allI impI)
  fix a
  assume a: "\<not> in_range p k a"
  have "in_range p k (p + of_nat (i + j))" if "j < 2" for j
    by (rule in_range_offset) (use assms that in auto)
  from this[of 0] this[of 1] a
  show "store16 m (p + of_nat i) v a = m a" by (auto simp: store16_def ac_simps)
qed

lemma only_area_upd:
  assumes "unat p + k \<le> 2 ^ 32" and "i < k"
  shows "only_area p k m (m(p + of_nat i := v))"
  using in_range_offset [OF assms] by (auto simp: only_area_def)

text \<open>Bytes stored one after the other.\<close>

primrec store_bytes :: "u8 list \<Rightarrow> u32 \<Rightarrow> mem \<Rightarrow> mem" where
  "store_bytes [] d m = m"
| "store_bytes (b # bs) d m = store_bytes bs (d + 1) (m(d := b))"

lemma diff_Suc_word:
  fixes a d :: u32
  assumes "a \<noteq> d"
  shows "unat (a - d) = Suc (unat (a - (d + 1)))"
proof -
  have "a - d \<noteq> 0" using assms by simp
  then have "unat (a - d - 1) = unat (a - d) - 1" and "0 < unat (a - d)"
    by (simp_all add: unat_minus_one unat_gt_0)
  then show ?thesis by (simp add: diff_diff_eq)
qed

lemma store_bytes_at:
  "length bs \<le> 2 ^ 32 \<Longrightarrow>
    store_bytes bs d m a = (if unat (a - d) < length bs then bs ! unat (a - d) else m a)"
proof (induction bs arbitrary: d m)
  case (Cons b bs)
  show ?case
  proof (cases "a = d")
    case True
    have "a - (d + 1) = - 1" using True by simp
    moreover have "unat (- 1 :: u32) = 2 ^ 32 - 1" by (simp add: unsigned_minus_1_eq_mask mask_eq_exp_minus_1)
    ultimately show ?thesis using True Cons by simp
  next
    case False
    then show ?thesis using Cons by (simp add: diff_Suc_word [OF False])
  qed
qed simp

lemma only_area_store_bytes:
  assumes "unat p + k \<le> 2 ^ 32" and "i + length bs \<le> k"
  shows "only_area p k m (store_bytes bs (p + of_nat i) m)"
  unfolding only_area_def
proof (intro allI impI)
  fix a
  assume a: "\<not> in_range p k a"
  show "store_bytes bs (p + of_nat i) m a = m a"
  proof (cases "length bs = 0")
    case False
    then have "unat p + i < 2 ^ 32" using assms by linarith
    then have u: "unat (p + of_nat i) = unat p + i" by (rule unat_add_nat)
    have "\<not> in_range (p + of_nat i) (length bs) a" using a assms(2) u by (auto simp: in_range_def)
    then have "\<not> unat (a - (p + of_nat i)) < length bs"
      using in_range_iff [of "p + of_nat i" "length bs" a] assms u by simp
    then show ?thesis using assms by (simp add: store_bytes_at)
  qed simp
qed

section \<open>The interface\<close>

text \<open>
  \<open>owns s H S\<close>: the areas \<open>H\<close> come from the allocator, the areas \<open>S\<close> are the client's own, on its
  stack or in its static data. \<open>fits\<close> and \<open>freeable\<close> are the conditions under which the provider
  promises success.
\<close>

locale allocator =
  fixes owns :: "machine \<Rightarrow> area set \<Rightarrow> area set \<Rightarrow> bool"
    and fits :: "machine \<Rightarrow> u32 \<Rightarrow> bool"
    and freeable :: "machine \<Rightarrow> u32 \<Rightarrow> bool"
    and alloc :: "u32 \<Rightarrow> machine \<Rightarrow> (u32 \<times> machine) option"
    and release :: "u32 \<Rightarrow> machine \<Rightarrow> machine option"
  assumes areas: "owns s H S \<Longrightarrow> areas_ok (H \<union> S)"
    and allocs: "owns s H S \<Longrightarrow> fits s n \<Longrightarrow>
      \<exists>p k s'. alloc n s = Some (p, s') \<and> p \<noteq> 0 \<and> unat n \<le> k \<and> (p, k) \<notin> H \<union> S
        \<and> s' = s\<lparr>mem := mem s'\<rparr> \<and> owns s' (insert (p, k) H) S \<and> same_areas (H \<union> S) (mem s) (mem s')"
    and releases: "owns s H S \<Longrightarrow> (p, k) \<in> H \<Longrightarrow> freeable s p \<Longrightarrow>
      \<exists>s'. release p s = Some s' \<and> s' = s\<lparr>mem := mem s'\<rparr> \<and> owns s' (H - {(p, k)}) S
        \<and> same_areas (H \<union> S - {(p, k)}) (mem s) (mem s')"
    and writes: "owns s H S \<Longrightarrow> (p, k) \<in> H \<union> S \<Longrightarrow> only_area p k (mem s) m \<Longrightarrow> owns (s\<lparr>mem := m\<rparr>) H S"
    and fits_write: "owns s H S \<Longrightarrow> (p, k) \<in> H \<union> S \<Longrightarrow> only_area p k (mem s) m \<Longrightarrow> fits s n
      \<Longrightarrow> fits (s\<lparr>mem := m\<rparr>) n"
    and fits_other: "fits s n \<Longrightarrow> mem s' = mem s \<Longrightarrow> mmList s' = mmList s \<Longrightarrow> fits s' n"
    and others: "owns s H S \<Longrightarrow> mem s' = mem s \<Longrightarrow> mmList s' = mmList s \<Longrightarrow> owns s' H S"
begin

text \<open>Allocating an area and filling it.\<close>

lemma alloc_fill:
  assumes o: "owns s H S" and "fits s n"
    and fill: "\<And>p k m. unat p + k \<le> 2 ^ 32 \<Longrightarrow> unat n \<le> k \<Longrightarrow> only_area p k m (f p m)"
  shows "\<exists>p k s'. alloc n s = Some (p, s') \<and> p \<noteq> 0 \<and> unat n \<le> k \<and> unat p + k \<le> 2 ^ 32
    \<and> (p, k) \<notin> H \<union> S \<and> s' = s\<lparr>mem := mem s'\<rparr>
    \<and> owns (s'\<lparr>mem := f p (mem s')\<rparr>) (insert (p, k) H) S
    \<and> same_areas (H \<union> S) (mem s) (f p (mem s'))"
proof -
  from allocs [OF assms(1,2)] obtain p k s' where a: "alloc n s = Some (p, s')" "p \<noteq> 0" "unat n \<le> k"
    "(p, k) \<notin> H \<union> S" "s' = s\<lparr>mem := mem s'\<rparr>" "owns s' (insert (p, k) H) S"
    "same_areas (H \<union> S) (mem s) (mem s')" by blast
  have ok: "areas_ok (insert (p, k) H \<union> S)" by (rule areas [OF a(6)])
  then have b: "unat p + k \<le> 2 ^ 32" by (rule areas_bound) simp
  have f: "only_area p k (mem s') (f p (mem s'))" by (rule fill [OF b a(3)])
  have "same_areas (insert (p, k) H \<union> S - {(p, k)}) (mem s') (f p (mem s'))"
    by (rule only_area_others [OF ok _ f]) simp
  then have "same_areas (H \<union> S) (mem s') (f p (mem s'))"
    by (rule same_areas_mono) (use a(4) in auto)
  with a(7) have "same_areas (H \<union> S) (mem s) (f p (mem s'))" by (rule same_areas_trans)
  moreover have "owns (s'\<lparr>mem := f p (mem s')\<rparr>) (insert (p, k) H) S"
    by (rule writes [OF a(6) _ f]) simp
  ultimately show ?thesis using a b by blast
qed

text \<open>A write into an owned area leaves the others alone.\<close>

lemma write_frame:
  assumes "owns s H S" and "(p, k) \<in> H \<union> S" and "only_area p k (mem s) m"
  shows "owns (s\<lparr>mem := m\<rparr>) H S \<and> same_areas (H \<union> S - {(p, k)}) (mem s) m"
  using writes [OF assms] only_area_others [OF areas [OF assms(1)] assms(2,3)] by blast

end

section \<open>The heap as a provider\<close>

text \<open>The bytes behind a header belong to the client.\<close>

definition payload :: "mem \<Rightarrow> u32 \<Rightarrow> area" where
  "payload m b = (b + sizeof_mlT, unat (load32 m b))"

definition clear_of :: "mem \<Rightarrow> u32 set \<Rightarrow> area set \<Rightarrow> bool" where
  "clear_of m X S \<longleftrightarrow>
     (\<forall>q l. (q, l) \<in> S \<longrightarrow> 0 < l \<and> (\<forall>x \<in> X. apart x (ext m x) q l))"

definition heap_owns :: "machine \<Rightarrow> area set \<Rightarrow> area set \<Rightarrow> bool" where
  "heap_owns s H S \<longleftrightarrow> (\<exists>ns B. heap_ok s ns B \<and> H = payload (mem s) ` B \<and> areas_ok S
     \<and> clear_of (mem s) (set (mmList s # ns) \<union> B) S)"

definition heap_fits :: "machine \<Rightarrow> u32 \<Rightarrow> bool" where
  "heap_fits s n \<longleftrightarrow> 0 < n \<and> n \<le> 0xFFFFFFFC
     \<and> (\<exists>ns. dll (mem s) 0 (mmList s) (mmList s # ns) \<and> (\<exists>k \<in> set ns. round4 n \<le> load32 (mem s) k))"

definition heap_freeable :: "machine \<Rightarrow> u32 \<Rightarrow> bool" where
  "heap_freeable s p \<longleftrightarrow> (let b = p - sizeof_mlT; nx = neighbour (mem s) b in
     load32 (mem s) b \<noteq> 0
     \<and> (same_page nx b \<and> load32 (mem s) (nd_state nx) = FREE
        \<longrightarrow> (\<exists>ns. dll (mem s) 0 (mmList s) (mmList s # ns) \<and> nx \<in> set ns)))"

lemma dll_unique: "dll m prev p ns \<Longrightarrow> dll m prev' p ks \<Longrightarrow> ns = ks"
proof (induction ns arbitrary: prev p prev' ks)
  case Nil
  then show ?case by (cases ks) simp_all
next
  case (Cons n ns)
  then obtain k ks' where "ks = k # ks'" by (cases ks) simp_all
  moreover from this Cons.prems have "k = n" "dll m n (load32 m (nd_next n)) ns"
    "dll m n (load32 m (nd_next n)) ks'" by simp_all
  ultimately show ?case using Cons.IH by simp
qed

lemma payload_inj: "payload m b = payload m' c \<Longrightarrow> b = c"
  by (simp add: payload_def)

lemma clear_ofD: "clear_of m X S \<Longrightarrow> (q, l) \<in> S \<Longrightarrow> x \<in> X \<Longrightarrow> 0 < l \<and> apart x (ext m x) q l"
  unfolding clear_of_def by blast

lemma clear_of_within:
  assumes "clear_of m X S" and "within m X m' Y"
  shows "clear_of m' Y S"
  unfolding clear_of_def
proof (intro allI impI conjI ballI)
  fix q l
  assume q: "(q, l) \<in> S"
  show "0 < l" using assms(1) q unfolding clear_of_def by blast
  fix y
  assume "y \<in> Y"
  then obtain x where x: "x \<in> X" "unat x \<le> unat y" "unat y + ext m' y \<le> unat x + ext m x"
    using assms(2) unfolding within_def by blast
  have "apart x (ext m x) q l" using clear_ofD [OF assms(1) q x(1)] by blast
  then show "apart y (ext m' y) q l" by (rule apart_sub) (rule x)+
qed

text \<open>Headers unchanged, nothing changed.\<close>

lemma heap_owns_headers:
  assumes h: "heap_ok s ns B" and H: "H = payload (mem s) ` B" and S: "areas_ok S"
    and c: "clear_of (mem s) (set (mmList s # ns) \<union> B) S" and L: "mmList s' = mmList s"
    and f: "\<And>x i. x \<in> set (mmList s # ns) \<union> B \<Longrightarrow> i < 16 \<Longrightarrow> mem s' (x + of_nat i) = mem s (x + of_nat i)"
  shows "heap_owns s' H S"
proof -
  let ?X = "set (mmList s # ns) \<union> B"
  have l: "load32 (mem s') (x + of_nat i) = load32 (mem s) (x + of_nat i)" if "x \<in> ?X" "i \<le> 12" for x i
  proof (rule load32_cong)
    fix k :: nat
    assume "k < 4"
    then show "mem s' (x + of_nat i + of_nat k) = mem s (x + of_nat i + of_nat k)"
      using f [OF that(1), of "i + k"] that(2) by (simp add: add.assoc)
  qed
  have "heap_ok s' ns B" by (rule heap_ok_fields [OF h L]) (rule l, auto)
  moreover have "payload (mem s') ` B = payload (mem s) ` B"
    by (rule image_cong [OF refl]) (use l [of _ 0] in \<open>simp add: payload_def\<close>)
  moreover have "clear_of (mem s') ?X S"
    by (rule clear_of_within [OF c], rule within_same) (use l [of _ 0] in simp)
  ultimately show ?thesis unfolding heap_owns_def L H using S by blast
qed

text \<open>What is apart from a block is apart from its payload.\<close>

lemma payload_apart:
  assumes "apart x e b (ext m b)"
  shows "apart x e (fst (payload m b)) (snd (payload m b))"
proof (cases "unat b + 16 < 2 ^ 32")
  case True
  then have "unat (b + sizeof_mlT) = unat b + 16"
    using unat_add_nat [of b 16] by (simp add: sizeof_mlT_def)
  then show ?thesis using assms by (auto simp: payload_def apart_def ext_def)
next
  case False
  then have e: "unat b + 16 = 2 ^ 32" "unat (load32 m b) = 0"
    using assms by (auto simp: apart_def ext_def)
  have "b + sizeof_mlT = of_nat (unat b + 16)" by (simp add: sizeof_mlT_def)
  then have "b + sizeof_mlT = 0" unfolding e(1) by simp
  then show ?thesis using assms e by (auto simp: payload_def apart_def)
qed

lemma payload_bound:
  assumes "unat b + ext m b \<le> 2 ^ 32"
  shows "unat (fst (payload m b)) + snd (payload m b) \<le> 2 ^ 32"
    and "apart b 16 (fst (payload m b)) (snd (payload m b))"
proof -
  have "unat (b + sizeof_mlT) = unat b + 16 \<or> (unat (b + sizeof_mlT) = 0 \<and> unat (load32 m b) = 0)"
  proof (cases "unat b + 16 < 2 ^ 32")
    case True
    then show ?thesis using unat_add_nat [of b 16] by (simp add: sizeof_mlT_def)
  next
    case False
    then have e: "unat b + 16 = 2 ^ 32" "unat (load32 m b) = 0" using assms by (auto simp: ext_def)
    have "b + sizeof_mlT = of_nat (unat b + 16)" by (simp add: sizeof_mlT_def)
    then have "b + sizeof_mlT = 0" unfolding e(1) by simp
    then show ?thesis using e(2) by simp
  qed
  then show "unat (fst (payload m b)) + snd (payload m b) \<le> 2 ^ 32"
    and "apart b 16 (fst (payload m b)) (snd (payload m b))"
    using assms by (auto simp: payload_def ext_def apart_def)
qed

text \<open>The client's areas do not meet each other, nor any header.\<close>

lemma heap_owns_areas:
  assumes h: "heap_ok s ns B" and S: "areas_ok S" and c: "clear_of (mem s) (set (mmList s # ns) \<union> B) S"
  shows "areas_ok (payload (mem s) ` B \<union> S)"
proof -
  note X = heap_okD(5) [OF h]
  have PP: "apart (fst (payload (mem s) b)) (snd (payload (mem s) b)) (fst (payload (mem s) c)) (snd (payload (mem s) c))"
    if "b \<in> B" "c \<in> B" "b \<noteq> c" for b c
  proof -
    have "apart b (ext (mem s) b) c (ext (mem s) c)" using blocks_okD(3) [OF X] that by blast
    then have "apart (fst (payload (mem s) c)) (snd (payload (mem s) c)) b (ext (mem s) b)"
      by (rule apart_sym [OF payload_apart])
    then show ?thesis by (rule apart_sym [OF payload_apart])
  qed
  have PS: "apart (fst (payload (mem s) b)) (snd (payload (mem s) b)) q l" if "b \<in> B" "(q, l) \<in> S" for b q l
  proof -
    have "apart b (ext (mem s) b) q l" using clear_ofD [OF c that(2), of b] that(1) by blast
    then have "apart q l b (ext (mem s) b)" by (rule apart_sym)
    then show ?thesis by (rule apart_sym [OF payload_apart])
  qed
  have pb: "unat (fst (payload (mem s) b)) + snd (payload (mem s) b) \<le> 2 ^ 32" if "b \<in> B" for b
    by (rule payload_bound(1)) (use blocks_okD(2) [OF X, of b] that in blast)
  have "apart (fst A) (snd A) (fst A') (snd A')"
    if R: "A \<in> payload (mem s) ` B \<union> S" "A' \<in> payload (mem s) ` B \<union> S" "A \<noteq> A'" for A A'
  proof -
    consider (pp) b c where "b \<in> B" "c \<in> B" "A = payload (mem s) b" "A' = payload (mem s) c"
      | (ps) b where "b \<in> B" "A = payload (mem s) b" "A' \<in> S"
      | (sp) c where "c \<in> B" "A \<in> S" "A' = payload (mem s) c" | (ss) "A \<in> S" "A' \<in> S"
      using R(1,2) by blast
    then show ?thesis
    proof cases
      case pp
      with R(3) show ?thesis using PP by metis
    next
      case ps
      then show ?thesis using PS [of b "fst A'" "snd A'"] by simp
    next
      case sp
      then show ?thesis using PS [of c "fst A" "snd A"] by (simp add: apart_sym)
    next
      case ss
      then show ?thesis using S R(3) unfolding areas_ok_def by blast
    qed
  qed
  moreover have "unat p + k \<le> 2 ^ 32" if "(p, k) \<in> payload (mem s) ` B \<union> S" for p k
    using that pb areas_bound [OF S] by (metis UnE fst_conv imageE snd_conv)
  ultimately show ?thesis unfolding areas_ok_def by blast
qed

lemma heap_owns_header:
  assumes h: "heap_ok s ns B" and c: "clear_of (mem s) (set (mmList s # ns) \<union> B) S"
    and p: "(p, k) \<in> payload (mem s) ` B \<union> S" and x: "x \<in> set (mmList s # ns) \<union> B"
  shows "apart x 16 p k"
proof (cases "(p, k) \<in> S")
  case True
  with clear_ofD [OF c True x] show ?thesis by (blast intro: apart_mono [where j' = k] ext_ge)
next
  case False
  then obtain b where "b \<in> B" and e: "payload (mem s) b = (p, k)" using p by (metis UnE imageE)
  then have b: "b \<in> B" "p = fst (payload (mem s) b)" "k = snd (payload (mem s) b)" by simp_all
  note X = heap_okD(5) [OF h]
  show ?thesis
  proof (cases "x = b")
    case True
    then show ?thesis using payload_bound(2) [of b "mem s"] blocks_okD(2) [OF X, of b] b by auto
  next
    case False
    then have "apart x (ext (mem s) x) b (ext (mem s) b)" using blocks_okD(3) [OF X x] b(1) by blast
    then have "apart x (ext (mem s) x) p k" unfolding b(2,3) by (rule payload_apart)
    then show ?thesis by (rule apart_mono) (simp_all add: ext_ge)
  qed
qed

lemma heap_owns_malloc:
  assumes o: "heap_owns s H S" and f: "heap_fits s n"
  shows "\<exists>p k s'. malloc n s = Some (p, s') \<and> p \<noteq> 0 \<and> unat n \<le> k \<and> (p, k) \<notin> H \<union> S
    \<and> s' = s\<lparr>mem := mem s'\<rparr> \<and> heap_owns s' (insert (p, k) H) S \<and> same_areas (H \<union> S) (mem s) (mem s')"
proof -
  from o obtain ns B where h: "heap_ok s ns B" and H: "H = payload (mem s) ` B" and S: "areas_ok S"
    and c: "clear_of (mem s) (set (mmList s # ns) \<union> B) S"
    by (auto simp: heap_owns_def)
  from f obtain ks where "dll (mem s) 0 (mmList s) (mmList s # ks)" "\<exists>k \<in> set ks. round4 n \<le> load32 (mem s) k"
    and n: "0 < n" "n \<le> 0xFFFFFFFC"
    by (auto simp: heap_fits_def simp del: dll.simps)
  then have fit: "\<exists>k \<in> set ns. round4 n \<le> load32 (mem s) k"
    using dll_unique [OF _ heap_okD(1) [OF h]] by (metis list.inject)
  note r = round4_ge [OF n]
  from malloc_fit [OF h r(1) fit] obtain b s' ns' where
    m: "malloc n s = Some (b + sizeof_mlT, s')" "b \<in> set ns" "s' = s\<lparr>mem := mem s'\<rparr>"
      "heap_ok s' ns' (insert b B)" "round4 n \<le> load32 (mem s') b"
      "\<forall>a. (\<forall>x \<in> set (mmList s # ns). apart x 16 a 1) \<and> apart b (ext (mem s) b) a 1 \<longrightarrow> mem s' a = mem s a"
      "within (mem s) (set (mmList s # ns) \<union> B) (mem s') (set (mmList s # ns') \<union> insert b B)"
    by blast
  have L: "mmList s' = mmList s" by (rule mem_only(2) [OF m(3)])
  have bB: "b \<notin> B" using heap_okD(4) [OF h] m(2) by auto
  have busy: "mem s' (c + of_nat k) = mem s (c + of_nat k)" if "c \<in> B" "k < ext (mem s) c" for c k
    using m(2,6) busy_outside [OF h that, of b] by blast
  have sz: "load32 (mem s') c = load32 (mem s) c" if "c \<in> B" for c
    by (rule load32_cong) (use busy [OF that] ext_ge [of "mem s" c] in simp)
  have pay: "payload (mem s') ` B = H" unfolding H
    by (rule image_cong [OF refl]) (simp add: payload_def sz)
  have "heap_owns s' (insert (payload (mem s') b) H) S"
    unfolding heap_owns_def
  proof (intro exI conjI)
    show "heap_ok s' ns' (insert b B)" by (rule m(4))
    show "insert (payload (mem s') b) H = payload (mem s') ` insert b B" using pay by simp
    show "areas_ok S" by (rule S)
    show "clear_of (mem s') (set (mmList s' # ns') \<union> insert b B) S"
      unfolding L by (rule clear_of_within [OF c m(7)])
  qed
  moreover have "payload (mem s') b \<notin> H \<union> S"
  proof
    assume a: "payload (mem s') b \<in> H \<union> S"
    show False
    proof (cases "payload (mem s') b \<in> H")
      case True
      then show False unfolding H using bB payload_inj by blast
    next
      case False
      then have "(b + sizeof_mlT, unat (load32 (mem s') b)) \<in> S" using a by (simp add: payload_def)
      from clear_ofD [OF clear_of_within [OF c m(7)] this, of b]
      have "apart b (ext (mem s') b) (b + sizeof_mlT) (unat (load32 (mem s') b))" and "0 < unat (load32 (mem s') b)"
        by auto
      moreover from this have "unat (b + sizeof_mlT) = unat b + 16"
        using unat_add_nat [of b 16] by (auto simp: apart_def ext_def sizeof_mlT_def)
      ultimately show False by (auto simp: apart_def ext_def)
    qed
  qed
  moreover have "same_areas (H \<union> S) (mem s) (mem s')"
    unfolding same_areas_def
  proof (intro allI impI)
    fix q l a
    assume q: "(q, l) \<in> H \<union> S" and a: "in_range q l a"
    have hd: "apart x 16 a 1" if "x \<in> set (mmList s # ns)" for x
      using heap_owns_header [OF h c, of q l x] q that a unfolding H by (blast intro: apart_range)
    have "apart b (ext (mem s) b) q l"
    proof (cases "(q, l) \<in> S")
      case True
      then show ?thesis using clear_ofD [OF c True, of b] m(2) by auto
    next
      case False
      then obtain c where c: "c \<in> B" "payload (mem s) c = (q, l)" using q H by (metis UnE imageE)
      have "apart b (ext (mem s) b) c (ext (mem s) c)"
        using blocks_okD(3) [OF heap_okD(5) [OF h], of b c] m(2) c(1) bB by auto
      from payload_apart [OF this] show ?thesis using c(2) by simp
    qed
    then have "apart b (ext (mem s) b) a 1" by (rule apart_range) (rule a)
    with hd m(6) show "mem s' a = mem s a" by blast
  qed
  moreover have "b + sizeof_mlT \<noteq> 0" and "unat n \<le> unat (load32 (mem s') b)"
  proof -
    have "load32 (mem s') b \<noteq> 0" using r(1) m(5) by (auto simp: word_le_nat_alt unat_eq_0)
    then show "b + sizeof_mlT \<noteq> 0" by (intro payload_nonzero [OF heap_okD(5) [OF m(4)]]) auto
    show "unat n \<le> unat (load32 (mem s') b)" using r(2) m(5) by (simp add: word_le_nat_alt)
  qed
  ultimately show ?thesis using m(1,3) unfolding payload_def by blast
qed

text \<open>A write into an area reaches no header.\<close>

lemma area_write_headers:
  assumes h: "heap_ok s ns B" and c: "clear_of (mem s) (set (mmList s # ns) \<union> B) S"
    and p: "(p, k) \<in> payload (mem s) ` B \<union> S" and m: "only_area p k (mem s) m"
    and x: "x \<in> set (mmList s # ns) \<union> B" and i: "i < 16"
  shows "m (x + of_nat i) = mem s (x + of_nat i)"
proof -
  have "apart x 16 p k" by (rule heap_owns_header [OF h c p x])
  moreover have "in_range x 16 (x + of_nat i)"
    using calculation i by (intro in_range_offset) (auto simp: apart_def)
  ultimately have "\<not> in_range p k (x + of_nat i)" by (intro apart_not_range [OF apart_sym])
  then show ?thesis using m by (simp add: only_area_def)
qed

lemma heap_owns_write:
  assumes o: "heap_owns s H S" and p: "(p, k) \<in> H \<union> S" and m: "only_area p k (mem s) m"
  shows "heap_owns (s\<lparr>mem := m\<rparr>) H S"
proof -
  from o obtain ns B where h: "heap_ok s ns B" and H: "H = payload (mem s) ` B" and S: "areas_ok S"
    and c: "clear_of (mem s) (set (mmList s # ns) \<union> B) S"
    by (auto simp: heap_owns_def)
  show ?thesis
    by (rule heap_owns_headers [OF h H S c]) (use area_write_headers [OF h c p [unfolded H] m] in auto)
qed

lemma heap_fits_write:
  assumes o: "heap_owns s H S" and p: "(p, k) \<in> H \<union> S" and m: "only_area p k (mem s) m"
    and f: "heap_fits s n"
  shows "heap_fits (s\<lparr>mem := m\<rparr>) n"
proof -
  from o obtain ns B where h: "heap_ok s ns B" and H: "H = payload (mem s) ` B"
    and c: "clear_of (mem s) (set (mmList s # ns) \<union> B) S"
    by (auto simp: heap_owns_def)
  from f obtain ks where ks: "dll (mem s) 0 (mmList s) (mmList s # ks)"
    "\<exists>k \<in> set ks. round4 n \<le> load32 (mem s) k" and n: "0 < n" "n \<le> 0xFFFFFFFC"
    by (auto simp: heap_fits_def simp del: dll.simps)
  have "mmList s # ks = mmList s # ns" by (rule dll_unique [OF ks(1) heap_okD(1) [OF h]])
  then have kn: "ks = ns" by simp
  have l: "load32 m (x + of_nat i) = load32 (mem s) (x + of_nat i)"
    if "x \<in> set (mmList s # ns)" "i \<le> 12" for x i
  proof (rule load32_cong)
    fix j :: nat
    assume "j < 4"
    have "m (x + of_nat (i + j)) = mem s (x + of_nat (i + j))"
      by (rule area_write_headers [OF h c p [unfolded H] m]) (use that \<open>j < 4\<close> in auto)
    then show "m (x + of_nat i + of_nat j) = mem s (x + of_nat i + of_nat j)" by (simp add: add.assoc)
  qed
  have "dll m 0 (mmList s) (mmList s # ns) = dll (mem s) 0 (mmList s) (mmList s # ns)"
    by (rule dll_cong) (use l [of _ 4] l [of _ 8] in simp_all)
  moreover have "\<exists>k \<in> set ns. round4 n \<le> load32 m k" using ks(2) l [of _ 0] kn by auto
  ultimately show ?thesis
    using n ks(1) kn unfolding heap_fits_def by (intro conjI exI [of _ ns]) simp_all
qed

lemma heap_fits_other:
  "heap_fits s n \<Longrightarrow> mem s' = mem s \<Longrightarrow> mmList s' = mmList s \<Longrightarrow> heap_fits s' n"
  unfolding heap_fits_def by simp

lemma heap_owns_other:
  assumes "heap_owns s H S" and "mem s' = mem s" and "mmList s' = mmList s"
  shows "heap_owns s' H S"
proof -
  from assms(1) obtain ns B where "heap_ok s ns B" "H = payload (mem s) ` B" "areas_ok S"
    "clear_of (mem s) (set (mmList s # ns) \<union> B) S"
    by (auto simp: heap_owns_def)
  from heap_owns_headers [OF this assms(3)] assms(2) show ?thesis by simp
qed

text \<open>Releasing: the block may grow by the one behind it.\<close>

lemma heap_release_blocks:
  assumes h: "heap_ok s ns B" and b: "b \<in> B" and fr: "heap_freeable s (b + sizeof_mlT)"
  shows "\<exists>s' ns'. free (b + sizeof_mlT) s = Some s' \<and> s' = s\<lparr>mem := mem s'\<rparr> \<and> heap_ok s' ns' (B - {b})
    \<and> only_headers (b # mmList s # ns) (mem s) (mem s')
    \<and> (\<forall>x \<in> set (mmList s # ns') - {b}. x \<in> set (mmList s # ns) \<and> get32 s' x = get32 s x)
    \<and> (ext (mem s') b = ext (mem s) b
       \<or> (\<exists>x \<in> set ns. unat x = unat b + ext (mem s) b \<and> ext (mem s') b = ext (mem s) b + ext (mem s) x))"
proof -
  let ?nx = "neighbour (mem s) b"
  note D = heap_okD [OF h]
  have z: "get32 s b \<noteq> 0" and n: "same_page ?nx b \<and> get32 s (nd_state ?nx) = FREE
      \<Longrightarrow> \<exists>ks. dll (mem s) 0 (mmList s) (mmList s # ks) \<and> ?nx \<in> set ks"
    using fr by (simp_all add: heap_freeable_def Let_def)
  show ?thesis
  proof (cases "same_page ?nx b \<and> get32 s (nd_state ?nx) = FREE")
    case False
    from free_unmerged [OF h b z False] obtain s' ns' where
      "free (b + sizeof_mlT) s = Some s'" "heap_ok s' ns' (B - {b})" "set ns' = insert b (set ns)"
      "get32 s' b = get32 s b" "\<forall>x \<in> set (mmList s # ns). get32 s' x = get32 s x"
      "s' = s\<lparr>mem := mem s'\<rparr>" "only_headers (b # mmList s # ns) (mem s) (mem s')"
      by blast
    then show ?thesis by (intro exI [of _ s'] exI [of _ ns']) (auto simp: ext_def)
  next
    case True
    then obtain ks where "dll (mem s) 0 (mmList s) (mmList s # ks)" "?nx \<in> set ks" using n by blast
    then have nx: "?nx \<in> set ns" using dll_unique [OF _ D(1)] by (metis list.inject)
    from free_merged [OF h b z conjunct1 [OF True] nx] obtain s' ns' where
      f: "free (b + sizeof_mlT) s = Some s'" "heap_ok s' ns' (B - {b})" "set ns' = insert b (set ns - {?nx})"
      "unat (get32 s' b) = unat (get32 s b) + 16 + unat (get32 s ?nx)"
      "\<forall>x \<in> set (mmList s # ns) - {?nx}. get32 s' x = get32 s x"
      "s' = s\<lparr>mem := mem s'\<rparr>" "only_headers (b # mmList s # ns) (mem s) (mem s')"
      by blast
    have "unat ?nx = unat b + ext (mem s) b"
      using neighbour_next [OF D(5), of b] nx b by simp
    moreover have "ext (mem s') b = ext (mem s) b + ext (mem s) ?nx" using f(4) by (simp add: ext_def)
    moreover have "mmList s \<noteq> ?nx" using D(3) nx by auto
    ultimately show ?thesis using f nx by (intro exI [of _ s'] exI [of _ ns']) auto
  qed
qed

lemma heap_owns_free:
  assumes o: "heap_owns s H S" and p: "(p, k) \<in> H" and fr: "heap_freeable s p"
  shows "\<exists>s'. free p s = Some s' \<and> s' = s\<lparr>mem := mem s'\<rparr> \<and> heap_owns s' (H - {(p, k)}) S
    \<and> same_areas (H \<union> S - {(p, k)}) (mem s) (mem s')"
proof -
  from o obtain ns B where h: "heap_ok s ns B" and H: "H = payload (mem s) ` B" and S: "areas_ok S"
    and c: "clear_of (mem s) (set (mmList s # ns) \<union> B) S"
    by (auto simp: heap_owns_def)
  from p H obtain b where b: "b \<in> B" and pb: "payload (mem s) b = (p, k)" by (metis imageE)
  then have pe: "p = b + sizeof_mlT" by (simp add: payload_def)
  note D = heap_okD [OF h]
  from heap_release_blocks [OF h b fr [unfolded pe]] obtain s' ns' where
    f: "free p s = Some s'" "s' = s\<lparr>mem := mem s'\<rparr>" "heap_ok s' ns' (B - {b})"
      "only_headers (b # mmList s # ns) (mem s) (mem s')"
      "\<forall>x \<in> set (mmList s # ns') - {b}. x \<in> set (mmList s # ns) \<and> get32 s' x = get32 s x"
      "ext (mem s') b = ext (mem s) b
       \<or> (\<exists>x \<in> set ns. unat x = unat b + ext (mem s) b \<and> ext (mem s') b = ext (mem s) b + ext (mem s) x)"
    unfolding pe by blast
  have L: "mmList s' = mmList s" by (rule mem_only(2) [OF f(2)])
  have hd: "apart x 16 y 16" if "x \<in> set (b # mmList s # ns)" "y \<in> B - {b}" for x y
    using blocks_apart16 [OF D(5), of x y] that b D(4) by auto
  have sz: "load32 (mem s') y = load32 (mem s) y" if "y \<in> B - {b}" for y
    using loads_frame(1) [of "set (b # mmList s # ns)" "mem s'" "mem s" y] f(4) hd [OF _ that]
    by (simp add: only_headers_def)
  have "heap_owns s' (H - {(p, k)}) S"
    unfolding heap_owns_def
  proof (intro exI conjI)
    show "heap_ok s' ns' (B - {b})" by (rule f(3))
    have "payload (mem s') ` (B - {b}) = payload (mem s) ` (B - {b})"
      by (rule image_cong [OF refl]) (simp add: payload_def sz)
    also have "\<dots> = H - {(p, k)}" using payload_inj pb unfolding H by fastforce
    finally show "H - {(p, k)} = payload (mem s') ` (B - {b})" by (rule sym)
    show "areas_ok S" by (rule S)
    show "clear_of (mem s') (set (mmList s' # ns') \<union> (B - {b})) S"
      unfolding clear_of_def
    proof (intro allI impI conjI ballI)
      fix q l
      assume q: "(q, l) \<in> S"
      show l0: "0 < l" using clear_ofD [OF c q] b by blast
      fix x
      assume x: "x \<in> set (mmList s' # ns') \<union> (B - {b})"
      show "apart x (ext (mem s') x) q l"
      proof (cases "x = b")
        case True
        have ab: "apart b (ext (mem s) b) q l" using clear_ofD [OF c q, of b] b by blast
        from f(6) show ?thesis
        proof
          assume "\<exists>x \<in> set ns. unat x = unat b + ext (mem s) b \<and> ext (mem s') b = ext (mem s) b + ext (mem s) x"
          then obtain y where y: "y \<in> set ns" "unat y = unat b + ext (mem s) b"
            "ext (mem s') b = ext (mem s) b + ext (mem s) y" by blast
          have "apart y (ext (mem s) y) q l" using clear_ofD [OF c q, of y] y(1) by auto
          from apart_join [OF ab this y(2) l0] show ?thesis using True y(3) by simp
        qed (use ab True in simp)
      next
        case False
        then have "x \<in> set (mmList s # ns) \<union> B \<and> load32 (mem s') x = load32 (mem s) x"
          using x f(5) sz unfolding L by blast
        then show ?thesis using clear_ofD [OF c q, of x] by (simp add: ext_def)
      qed
    qed
  qed
  moreover have "same_areas (H \<union> S - {(p, k)}) (mem s) (mem s')"
    unfolding same_areas_def
  proof (intro allI impI)
    fix q l a
    assume q: "(q, l) \<in> H \<union> S - {(p, k)}" and a: "in_range q l a"
    have "apart x 16 a 1" if "x \<in> set (b # mmList s # ns)" for x
    proof (rule apart_range [OF _ a])
      show "apart x 16 q l"
        by (rule heap_owns_header [OF h c]) (use q that b in \<open>auto simp: H\<close>)
    qed
    then show "mem s' a = mem s a" using f(4) unfolding only_headers_def by blast
  qed
  ultimately show ?thesis using f(1,2) by blast
qed

interpretation heap: allocator heap_owns heap_fits heap_freeable malloc free
proof unfold_locales
  fix s H S
  assume "heap_owns s H S"
  then show "areas_ok (H \<union> S)" by (auto simp: heap_owns_def heap_owns_areas)
qed (fact heap_owns_malloc heap_owns_free heap_owns_write heap_fits_write heap_fits_other heap_owns_other)+

end
