(* ===== verification/Ne2k.thy ===== *)
theory Ne2k
  imports Ne2kReg Console Areas
begin

text \<open>
  \<open>net/ne2k/ne2k.c\<close>: the NE2000 driver. Packets are chains of \<open>msgT\<close> in memory, the queue of
  packets that wait for the transmitter is a list of heap blocks, and the card is reached through
  its ports. A local array whose address the code takes lies at an address that is an argument
  here. A wait for the card that never ends, and a heap operation that does not return, is \<open>None\<close>.
\<close>

unbundle bit_operations_syntax

section \<open>The code\<close>

text \<open>\<open>msgT\<close> of \<open>include/vm/msg.h\<close>: \<open>next\<close>, \<open>len\<close>, and the data from offset 6 on.\<close>

definition sizeof_msgT :: u32 where "sizeof_msgT = 8"

definition msg_next :: "mem \<Rightarrow> u32 \<Rightarrow> u32" where "msg_next m p = load32 m p"
definition msg_len :: "mem \<Rightarrow> u32 \<Rightarrow> u16" where "msg_len m p = load16 m (p + 4)"
definition msg_msg :: "u32 \<Rightarrow> u32" where "msg_msg p = p + 6"

definition set_msg_next :: "u32 \<Rightarrow> u32 \<Rightarrow> machine \<Rightarrow> machine" where
  "set_msg_next p v s = s\<lparr>mem := store32 (mem s) p v\<rparr>"

definition set_msg_len :: "u32 \<Rightarrow> u16 \<Rightarrow> machine \<Rightarrow> machine" where
  "set_msg_len p v s = s\<lparr>mem := store16 (mem s) (p + 4) v\<rparr>"

text \<open>The card's buffer: one page is 256 bytes.\<close>

definition TRANS_PAGE :: u8 where "TRANS_PAGE = 0x40"
definition RECV_PAGE :: u8 where "RECV_PAGE = 0x46"
definition RECV_PAGE_END :: u8 where "RECV_PAGE_END = 0x7f"

definition imr :: u8 where "imr = 0x1b"

definition getNICMac :: "machine \<Rightarrow> u64" where "getNICMac s = MAC s"

text \<open>The bytes of a string literal.\<close>

definition literal :: "string \<Rightarrow> u8 list" where "literal str = map of_char str"

text \<open>\<open>show\<close>: the bytes of a message, sixteen to a line, and of the messages chained to it.\<close>

partial_function (option) show_bytes :: "u32 \<Rightarrow> u32 \<Rightarrow> machine \<Rightarrow> machine option" where
  "show_bytes msg i s =
     (if i < ucast (msg_len (mem s) msg)
      then let s = (if i mod 16 = 0 then snd (printk [10, 27, 32] (\<lambda>_. i) s) else s);
               s = (if i mod 8 = 0 \<and> i mod 16 \<noteq> 0 then snd (printk (literal ''--'') (\<lambda>_. 0) s)
                    else snd (printk (literal '' '') (\<lambda>_. 0) s));
               s = putByte (mem s (msg_msg msg + i)) s
           in show_bytes msg (i + 1) s
      else Some s)"

partial_function (option) show_msg :: "u32 \<Rightarrow> machine \<Rightarrow> machine option" where
  "show_msg msg s =
     (if msg \<noteq> 0
      then do { s \<leftarrow> show_bytes msg 0 s;
                if msg_next (mem s) msg \<noteq> 0
                then let s = snd (printk ([10, 10] @ literal ''---------NEXT---------'') (\<lambda>_. 0) s)
                     in show_msg (msg_next (mem s) msg) s
                else Some s }
      else Some s)"

text \<open>The queue: nodes of eight bytes, the message and the next node.\<close>

definition q_msg :: "mem \<Rightarrow> u32 \<Rightarrow> u32" where "q_msg m q = load32 m q"
definition q_next :: "mem \<Rightarrow> u32 \<Rightarrow> u32" where "q_next m q = load32 m (q + 4)"

partial_function (option) queue_add :: "u32 \<Rightarrow> u32 \<Rightarrow> machine \<Rightarrow> (u32 \<times> machine) option" where
  "queue_add queue buf s =
     (if queue = 0
      then do { (queue, s) \<leftarrow> malloc 8 s;
                let s = put32 queue buf s;
                    s = put32 (queue + 4) 0 s
                in Some (queue, s) }
      else do { (r, s) \<leftarrow> queue_add (q_next (mem s) queue) buf s;
                Some (queue, put32 (queue + 4) r s) })"

definition getLevel :: "u32 \<Rightarrow> u32" where "getLevel queue = queue"

definition queue_del :: "u32 \<Rightarrow> machine \<Rightarrow> (u32 \<times> machine) option" where
  "queue_del queue s =
     (let tmp = (if queue \<noteq> 0 then q_next (mem s) queue else 0)
      in do { s \<leftarrow> free queue s; Some (tmp, s) })"

text \<open>Remote DMA: the word loops, and the wait for the card's completion flag.\<close>

fun in_words :: "device \<Rightarrow> nat \<Rightarrow> u32 \<Rightarrow> machine \<Rightarrow> machine" where
  "in_words dev 0 d s = s"
| "in_words dev (Suc n) d s =
     (let (v, s) = inw dev IOPORT s
      in in_words dev n (d + 2) (s\<lparr>mem := store16 (mem s) d v\<rparr>))"

fun out_words :: "nat \<Rightarrow> u32 \<Rightarrow> machine \<Rightarrow> machine" where
  "out_words 0 p s = s"
| "out_words (Suc n) p s = out_words n (p + 2) (outw (load16 (mem s) p) IOPORT s)"

partial_function (option) wait_rdc :: "device \<Rightarrow> machine \<Rightarrow> machine option" where
  "wait_rdc dev s =
     (let (st, s) = neGetIntState dev s
      in if NE_RDC AND st = 0 then wait_rdc dev s else Some s)"

definition NICtoPC :: "device \<Rightarrow> u32 \<Rightarrow> u16 \<Rightarrow> u32 \<Rightarrow> machine \<Rightarrow> machine option" where
  "NICtoPC dev dest dma count s =
     (let count = count + 1;
          s = neSetRemoteByteCount (count AND - 2) s;
          count = signed_drop_bit 1 count;
          s = neSetRemoteAddr dma s;
          s = neReadDMA s;
          s = in_words dev (loop_count count) dest s
      in do { s \<leftarrow> wait_rdc dev s; Some (neSetIntState NE_RDC s) })"

definition PCtoNIC :: "device \<Rightarrow> u32 \<Rightarrow> u16 \<Rightarrow> u32 \<Rightarrow> machine \<Rightarrow> machine option" where
  "PCtoNIC dev src dma count s =
     (let count = count + 1;
          s = neSetRemoteByteCount (count AND - 2) s;
          count = signed_drop_bit 1 count;
          s = neSetRemoteAddr dma s;
          s = neWriteDMA s;
          s = out_words (loop_count count) src s
      in do { s \<leftarrow> wait_rdc dev s; Some (neSetIntState NE_RDC s) })"

text \<open>Initialisation. \<open>mac\<close> is the address of the local array.\<close>

definition load64 :: "mem \<Rightarrow> u32 \<Rightarrow> u64" where
  "load64 m a = push_bit 32 (ucast (load32 m (a + 4))) OR ucast (load32 m a)"

definition neInit :: "device \<Rightarrow> u32 \<Rightarrow> machine \<Rightarrow> (u64 \<times> machine) option" where
  "neInit dev mac s =
     (let s = s\<lparr>mem := fill_bytes 12 mac 0 (mem s)\<rparr>;
          s = neCmd (NE_DMA_ABORT OR NE_STOP) s;
          s = neSetDataConfig (NE_WTS OR NE_LS OR NE_ARM OR NE_BOS) s;
          s = neSetRemoteByteCount 0 s;
          s = neSetRecvConfig (NE_AM OR NE_SEP OR NE_AB OR NE_AR) s;
          s = neSetTransferPage TRANS_PAGE s;
          s = neSetTransferConfig NE_LB00 s;
          s = neSetRecvPage RECV_PAGE RECV_PAGE_END s;
          s = neSetBoundary RECV_PAGE s;
          s = neSetCurrnet (RECV_PAGE + 1) s;
          s = neSetIntState 0xff s;
          s = neSetIntMask imr s;
          s = neCmd (NE_DMA_ABORT OR NE_START) s
      in do { s \<leftarrow> NICtoPC dev mac 0 12 s;
              let m = mem s;
                  m = m(mac + 1 := m (mac + 2));
                  m = m(mac + 2 := m (mac + 4));
                  m = m(mac + 3 := m (mac + 6));
                  m = m(mac + 4 := m (mac + 8));
                  m = m(mac + 5 := m (mac + 10));
                  s = s\<lparr>mem := m\<rparr>;
                  s = neSetMAC (load32 m mac) (load32 m (mac + 4)) s;
                  s = neSetMap 0xffffffff 0xffffffff s;
                  s = s\<lparr>MAC := load64 m mac\<rparr>
              in Some (load64 m mac, s) })"

text \<open>Sending: every message of the chain goes behind the one before in the transmit pages.\<close>

partial_function (option) send_chain :: "device \<Rightarrow> u32 \<Rightarrow> u16 \<Rightarrow> machine \<Rightarrow> (u16 \<times> machine) option" where
  "send_chain dev buf count s =
     (if buf \<noteq> 0
      then do { s \<leftarrow> PCtoNIC dev (msg_msg buf) (push_bit 8 (ucast TRANS_PAGE) + count)
                       (ucast (msg_len (mem s) buf)) s;
                send_chain dev (msg_next (mem s) buf) (count + msg_len (mem s) buf) s }
      else Some (count, s))"

definition neSend :: "device \<Rightarrow> u32 \<Rightarrow> machine \<Rightarrow> machine option" where
  "neSend dev buf s =
     (let s = cli s
      in do { s \<leftarrow>
                (if buf \<noteq> 0
                 then let (st, s) = inb dev COMMAND s
                      in if 0x26 = st
                         then do { (q, s) \<leftarrow> queue_add (sendQueue s) buf s; Some (s\<lparr>sendQueue := q\<rparr>) }
                         else do { (count, s) \<leftarrow> send_chain dev buf 0 s;
                                   Some (neSendPack TRANS_PAGE count s) }
                 else Some s);
              Some (sti s) })"

text \<open>
  Receiving. \<open>recv\<close> is the address of the local \<open>recvHeadT\<close>, the four bytes the card puts in
  front of a packet: \<open>state\<close>, \<open>next\<close>, \<open>len\<close>. \<open>recv_packet\<close> is what follows once they are read.
\<close>

definition sizeof_recvHeadT :: u32 where "sizeof_recvHeadT = 4"

definition recv_packet :: "device \<Rightarrow> u32 \<Rightarrow> u8 \<Rightarrow> machine \<Rightarrow> (u32 \<times> machine) option" where
  "recv_packet dev recv bound s =
     (let s = s\<lparr>mem := store16 (mem s) (recv + 2) (load16 (mem s) (recv + 2) - 4)\<rparr>;
          nxt = mem s (recv + 1);
          len = load16 (mem s) (recv + 2)
      in if nxt > RECV_PAGE_END \<or> nxt < RECV_PAGE \<or> len > 0x600
         then let s = neSetCurrnet RECV_PAGE s;
                  s = neSetBoundary RECV_PAGE_END s
              in Some (0, s)
         else do { (buf, s) \<leftarrow> malloc (sizeof_msgT + ucast len) s;
                   if buf \<noteq> 0
                   then let s = set_msg_next buf 0 s;
                            s = set_msg_len buf (load16 (mem s) (recv + 2)) s
                        in do { s \<leftarrow> NICtoPC dev (msg_msg buf)
                                       (push_bit 8 (ucast bound) OR ucast sizeof_recvHeadT)
                                       (ucast (msg_len (mem s) buf)) s;
                                Some (buf, neSetBoundary (mem s (recv + 1) - 1) s) }
                   else Some (buf, s) })"

definition neRecv :: "device \<Rightarrow> u32 \<Rightarrow> machine \<Rightarrow> (u32 \<times> machine) option" where
  "neRecv dev recv s =
     (let (bound, s) = neGetBoundary dev s;
          bound = bound + 1;
          (currnet, s) = neGetCurrnet dev s;
          bound = (if bound > RECV_PAGE_END then RECV_PAGE else bound)
      in if bound \<noteq> currnet
         then do { s \<leftarrow> NICtoPC dev recv (push_bit 8 (ucast bound)) sizeof_recvHeadT s;
                   recv_packet dev recv bound s }
         else Some (0, s))"

section \<open>Words from and to the card\<close>

definition word_bytes :: "u16 list \<Rightarrow> u8 list" where
  "word_bytes ws = concat (map (\<lambda>w. [ucast w, ucast (drop_bit 8 w)]) ws)"

lemma length_word_bytes [simp]: "length (word_bytes ws) = 2 * length ws"
  by (induction ws) (auto simp: word_bytes_def)

text \<open>The words a card delivers at the data port, from a history on.\<close>

fun card_words :: "device \<Rightarrow> nat \<Rightarrow> io_event list \<Rightarrow> u16 list" where
  "card_words dev 0 h = []"
| "card_words dev (Suc n) h = (let v = dev h IOPORT in v # card_words dev n (h @ [InW IOPORT v]))"

lemma length_card_words [simp]: "length (card_words dev n h) = n"
  by (induction n arbitrary: h) (simp_all add: Let_def)

lemma in_words_eq:
  "in_words dev n d s = (let ws = card_words dev n (io s) in
     s\<lparr>mem := store_bytes (word_bytes ws) d (mem s), io := io s @ map (InW IOPORT) ws\<rparr>)"
  by (induction n arbitrary: d s)
    (simp_all add: Let_def inw_def word_bytes_def store16_def add.assoc)

lemma out_words_eq:
  "out_words n p s = s\<lparr>io := io s @ map (\<lambda>k. OutW IOPORT (load16 (mem s) (p + 2 * of_nat k))) [0..<n]\<rparr>"
proof (induction n arbitrary: p s)
  case (Suc n)
  have "[0..<Suc n] = 0 # map Suc [0..<n]" by (simp add: map_Suc_upt upt_conv_Cons)
  then show ?case using Suc by (simp add: outw_def o_def algebra_simps)
qed simp

section \<open>Waiting for the card\<close>

text \<open>The history after a number of polls of the status register.\<close>

primrec polled :: "device \<Rightarrow> nat \<Rightarrow> io_event list \<Rightarrow> io_event list" where
  "polled dev 0 h = h"
| "polled dev (Suc n) h = polled dev n (h @ [InB INTERRUPTSTATUS (ucast (dev h INTERRUPTSTATUS))])"

definition rdc_at :: "device \<Rightarrow> io_event list \<Rightarrow> nat \<Rightarrow> bool" where
  "rdc_at dev h n \<longleftrightarrow> NE_RDC AND ucast (dev (polled dev n h) INTERRUPTSTATUS) \<noteq> 0"

lemma wait_rdc_step:
  "wait_rdc dev s = (let s' = s\<lparr>io := polled dev 1 (io s)\<rparr>
     in if rdc_at dev (io s) 0 then Some s' else wait_rdc dev s')"
  by (subst wait_rdc.simps) (simp add: neGetIntState_def inb_def rdc_at_def Let_def)

lemma rdc_at_Suc: "rdc_at dev h (Suc n) = rdc_at dev (polled dev 1 h) n"
  by (simp add: rdc_at_def)

lemma wait_rdc_some:
  "rdc_at dev (io s) n \<Longrightarrow> (\<And>k. k < n \<Longrightarrow> \<not> rdc_at dev (io s) k) \<Longrightarrow>
    wait_rdc dev s = Some (s\<lparr>io := polled dev (Suc n) (io s)\<rparr>)"
proof (induction n arbitrary: s)
  case 0
  then show ?case by (simp add: wait_rdc_step [of dev s] Let_def)
next
  case (Suc n)
  let ?s = "s\<lparr>io := polled dev 1 (io s)\<rparr>"
  have "wait_rdc dev ?s = Some (?s\<lparr>io := polled dev (Suc n) (io ?s)\<rparr>)"
  proof (rule Suc.IH)
    show "rdc_at dev (io ?s) n" using Suc.prems(1) by (simp add: rdc_at_Suc)
    show "\<not> rdc_at dev (io ?s) k" if "k < n" for k
      using Suc.prems(2) [of "Suc k"] that by (simp add: rdc_at_Suc)
  qed
  moreover have "\<not> rdc_at dev (io s) 0" using Suc.prems(2) by blast
  ultimately show ?case by (subst wait_rdc_step) (simp add: Let_def)
qed

lemma wait_rdc_None:
  assumes "wait_rdc dev s = Some s'"
  shows "\<exists>n. rdc_at dev (io s) n"
proof (rule wait_rdc.raw_induct [where P = "\<lambda>dev s s'. \<exists>n. rdc_at dev (io s) n", OF _ assms])
  fix f dev s s'
  assume IH: "\<And>dev s s'. f dev s = Some s' \<Longrightarrow> \<exists>n. rdc_at dev (io s) n"
    and eq: "(let (st, s) = neGetIntState dev s in if NE_RDC AND st = 0 then f dev s else Some s) = Some s'"
  show "\<exists>n. rdc_at dev (io s) n"
  proof (cases "rdc_at dev (io s) 0")
    case False
    then have "f dev (s\<lparr>io := polled dev 1 (io s)\<rparr>) = Some s'"
      using eq by (simp add: neGetIntState_def inb_def rdc_at_def Let_def)
    from IH [OF this] obtain n where "rdc_at dev (polled dev 1 (io s)) n" by auto
    then have "rdc_at dev (io s) (Suc n)" by (simp add: rdc_at_Suc)
    then show ?thesis by blast
  qed blast
qed

lemma wait_rdc_iff:
  "wait_rdc dev s = (if \<exists>n. rdc_at dev (io s) n
     then Some (s\<lparr>io := polled dev (Suc (LEAST n. rdc_at dev (io s) n)) (io s)\<rparr>) else None)"
proof (cases "\<exists>n. rdc_at dev (io s) n")
  case True
  then have "rdc_at dev (io s) (LEAST n. rdc_at dev (io s) n)" by (rule LeastI_ex)
  from wait_rdc_some [OF this not_less_Least [where P = "rdc_at dev (io s)"]] show ?thesis using True by (simp only: if_True)
next
  case False
  have "wait_rdc dev s = None"
  proof (cases "wait_rdc dev s")
    case (Some s')
    from wait_rdc_None [OF this] False show ?thesis by contradiction
  qed
  with False show ?thesis by (simp only: if_False)
qed

section \<open>Remote DMA\<close>

text \<open>The port accesses that set up a transfer of \<open>count\<close> bytes, and the words it takes.\<close>

definition dma_setup :: "u32 \<Rightarrow> u16 \<Rightarrow> u8 \<Rightarrow> io_event list" where
  "dma_setup count dma cmd =
     [OutB REMOTEBYTECOUNT0 (ucast ((count + 1) AND - 2)),
      OutB REMOTEBYTECOUNT1 (ucast (drop_bit 8 ((count + 1) AND - 2))),
      OutB REMOTESTARTADDRESS0 (ucast dma), OutB REMOTESTARTADDRESS1 (ucast (drop_bit 8 dma)),
      OutB COMMAND cmd]"

definition dma_words :: "u32 \<Rightarrow> nat" where "dma_words count = (unat count + 1) div 2"

definition completes :: "device \<Rightarrow> io_event list \<Rightarrow> bool" where
  "completes dev h \<longleftrightarrow> (\<exists>n. rdc_at dev h n)"

definition completion :: "device \<Rightarrow> io_event list \<Rightarrow> io_event list" where
  "completion dev h = polled dev (Suc (LEAST n. rdc_at dev h n)) h @ [OutB INTERRUPTSTATUS NE_RDC]"

lemma low_byte: "(ucast (w AND 0xff) :: u8) = ucast w"
  for w :: "'a :: len word"
proof -
  have "w AND 0xff = w AND mask 8" by (simp add: mask_eq_exp_minus_1)
  then have "ucast (w AND 0xff) = (ucast (w AND mask 8) :: u8)" by (rule arg_cong)
  also have "\<dots> = ucast w"
    by (rule bit_word_eqI) (auto simp: bit_simps dest: bit_imp_le_length)
  finally show ?thesis .
qed

lemma signed_second_byte: "(ucast (signed_drop_bit 8 w) :: u8) = ucast (drop_bit 8 w)"
  for w :: u32
  by (rule bit_word_eqI) (simp add: bit_simps)

lemma dma_setup_eq:
  "neCmd cmd (neSetRemoteAddr dma (neSetRemoteByteCount ((count + 1) AND - 2) s))
    = s\<lparr>io := io s @ dma_setup count dma cmd\<rparr>"
  by (simp add: neCmd_def neSetRemoteAddr_def neSetRemoteByteCount_def outb_def Let_def dma_setup_def
      low_byte signed_second_byte)

lemma loop_words:
  assumes "0 < count" and "count < 0x7FFFFFFF"
  shows "loop_count (signed_drop_bit 1 (count + 1)) = dma_words count"
proof -
  have c: "0 < unat count" "unat count < 0x7FFFFFFF"
    using assms by (simp_all add: word_less_nat_alt)
  then have u: "unat (count + 1) = unat count + 1" using unat_add_nat [of count 1] by simp
  have "\<not> bit (count + 1) 31"
  proof -
    have "(count + 1) div 2 ^ 31 = 0"
      using c u by (simp add: word_less_nat_alt div_word_less)
    then show ?thesis by (simp add: bit_iff_odd)
  qed
  then have "signed_drop_bit 1 (count + 1) = drop_bit 1 (count + 1)"
    by (intro bit_word_eqI) (auto simp: bit_simps less_Suc_eq not_less dest: bit_imp_le_length)
  then have "unat (signed_drop_bit 1 (count + 1)) = dma_words count"
    using u by (simp add: unat_simps dma_words_def)
  moreover have "dma_words count \<noteq> 0" using c by (simp add: dma_words_def)
  ultimately show ?thesis by (auto simp: loop_count_def)
qed

text \<open>The two transfers, as one step from history to history.\<close>

lemma wait_ack:
  "do { s \<leftarrow> wait_rdc dev s; Some (neSetIntState NE_RDC s) }
    = (if completes dev (io s) then Some (s\<lparr>io := completion dev (io s)\<rparr>) else None)"
  by (simp add: wait_rdc_iff completes_def completion_def neSetIntState_def outb_def del: polled.simps)

abbreviation read_setup :: "u32 \<Rightarrow> u16 \<Rightarrow> machine \<Rightarrow> io_event list" where
  "read_setup count dma s \<equiv> io s @ dma_setup count dma (NE_START OR NE_READ_DMA)"

abbreviation write_setup :: "u32 \<Rightarrow> u16 \<Rightarrow> machine \<Rightarrow> io_event list" where
  "write_setup count dma s \<equiv> io s @ dma_setup count dma (NE_START OR NE_WRITE_DMA)"

lemma NICtoPC_eq:
  "NICtoPC dev dest dma count s =
     (let ws = card_words dev (loop_count (signed_drop_bit 1 (count + 1))) (read_setup count dma s);
          h = read_setup count dma s @ map (InW IOPORT) ws
      in if completes dev h
         then Some (s\<lparr>mem := store_bytes (word_bytes ws) dest (mem s), io := completion dev h\<rparr>)
         else None)"
  unfolding NICtoPC_def Let_def neReadDMA_def dma_setup_eq wait_ack in_words_eq by simp

definition words_at :: "mem \<Rightarrow> u32 \<Rightarrow> nat \<Rightarrow> u16 list" where
  "words_at m p n = map (\<lambda>k. load16 m (p + 2 * of_nat k)) [0..<n]"

lemma PCtoNIC_eq:
  "PCtoNIC dev src dma count s =
     (let ws = words_at (mem s) src (loop_count (signed_drop_bit 1 (count + 1)));
          h = write_setup count dma s @ map (OutW IOPORT) ws
      in if completes dev h then Some (s\<lparr>io := completion dev h\<rparr>) else None)"
  unfolding PCtoNIC_def Let_def neWriteDMA_def dma_setup_eq wait_ack out_words_eq words_at_def
  by (simp add: o_def)

end
