(* ===== verification/SendQueue.thy ===== *)
theory SendQueue
  imports Ne2k
begin

text \<open>
  The queue of packets that wait for the transmitter, \<open>add\<close>, \<open>getLevel\<close> and \<open>del\<close> of
  \<open>net/ne2k/ne2k.c\<close>, against its specification: a list of messages with the oldest first, whose
  nodes are areas the driver owns in the heap.
\<close>

unbundle bit_operations_syntax

section \<open>The send queue\<close>

text \<open>The nodes from \<open>q\<close> on, each with the message it holds.\<close>

fun queue_list :: "mem \<Rightarrow> u32 \<Rightarrow> (u32 \<times> u32) list \<Rightarrow> bool" where
  "queue_list m q [] \<longleftrightarrow> q = 0"
| "queue_list m q ((n, b) # xs) \<longleftrightarrow> q = n \<and> n \<noteq> 0 \<and> q_msg m n = b \<and> queue_list m (q_next m n) xs"

text \<open>The queue's nodes are areas of the heap of at least eight bytes.\<close>

definition nodes_owned :: "area set \<Rightarrow> (u32 \<times> u32) list \<Rightarrow> bool" where
  "nodes_owned H xs \<longleftrightarrow> distinct (map fst xs) \<and> (\<forall>n \<in> set (map fst xs). \<exists>k. (n, k) \<in> H \<and> 8 \<le> k)"

definition node_areas :: "area set \<Rightarrow> (u32 \<times> u32) list \<Rightarrow> area set" where
  "node_areas H xs = {A \<in> H. fst A \<in> set (map fst xs)}"

definition queue_inv :: "machine \<Rightarrow> area set \<Rightarrow> area set \<Rightarrow> u32 \<Rightarrow> (u32 \<times> u32) list \<Rightarrow> bool" where
  "queue_inv s H S q xs \<longleftrightarrow> heap_owns s H S \<and> queue_list (mem s) q xs \<and> nodes_owned H xs"

lemma queue_list_cong:
  assumes "\<And>n. n \<in> set (map fst xs) \<Longrightarrow> q_msg m' n = q_msg m n \<and> q_next m' n = q_next m n"
  shows "queue_list m' q xs = queue_list m q xs"
  using assms
proof (induction xs arbitrary: q)
  case (Cons x xs)
  obtain n b where "x = (n, b)" by (cases x)
  with Cons show ?case by auto
qed simp

lemma node_same:
  assumes "same_areas R m m'" and "(n, k) \<in> R" and "8 \<le> k" and "unat n + k \<le> 2 ^ 32"
  shows "q_msg m' n = q_msg m n \<and> q_next m' n = q_next m n"
proof -
  have "\<And>a. in_range n k a \<Longrightarrow> m' a = m a" using assms(1,2) by (rule same_areasD)
  from load32_same [OF this assms(4), where i = 0] load32_same [OF this assms(4), where i = 4] assms(3)
  show ?thesis by (simp add: q_msg_def q_next_def)
qed

lemma nodes_owned_Cons:
  "nodes_owned H ((n, b) # xs) \<Longrightarrow> nodes_owned H xs \<and> n \<notin> set (map fst xs)"
  by (auto simp: nodes_owned_def)

lemma nodes_ownedD: "nodes_owned H xs \<Longrightarrow> n \<in> set (map fst xs) \<Longrightarrow> \<exists>k. (n, k) \<in> H \<and> 8 \<le> k"
  unfolding nodes_owned_def by (erule conjE) (erule bspec)

lemma queue_add_spec:
  assumes "heap_owns s H S" and "queue_list (mem s) q xs" and "nodes_owned H xs" and "heap_fits s 8"
  shows "\<exists>q' n k s'. queue_add q b s = Some (q', s') \<and> s' = s\<lparr>mem := mem s'\<rparr>
    \<and> heap_owns s' (insert (n, k) H) S \<and> queue_list (mem s') q' (xs @ [(n, b)])
    \<and> nodes_owned (insert (n, k) H) (xs @ [(n, b)])
    \<and> (n, k) \<notin> H \<union> S \<and> 8 \<le> k \<and> same_areas (H \<union> S - node_areas H xs) (mem s) (mem s')
    \<and> (xs \<noteq> [] \<longrightarrow> q' = q)"
  using assms(2,3)
proof (induction xs arbitrary: q)
  case Nil
  then have q: "q = 0" by simp
  let ?f = "\<lambda>p m. store32 (store32 m p b) (p + 4) 0"
  have fill: "only_area p k m (?f p m)" if "unat p + k \<le> 2 ^ 32" "unat (8 :: u32) \<le> k" for p k m
    using only_area_store32 [OF that(1), of 0 m b] only_area_store32 [OF that(1), of 4 "store32 m p b" 0] that(2)
    by (auto intro: only_area_trans)
  from heap.alloc_fill [OF assms(1,4), of ?f, OF fill] obtain p k s' where
    a: "malloc 8 s = Some (p, s')" "p \<noteq> 0" "8 \<le> k" "unat p + k \<le> 2 ^ 32" "(p, k) \<notin> H \<union> S"
      "s' = s\<lparr>mem := mem s'\<rparr>" "heap_owns (s'\<lparr>mem := ?f p (mem s')\<rparr>) (insert (p, k) H) S"
      "same_areas (H \<union> S) (mem s) (?f p (mem s'))"
    by auto
  let ?s = "s'\<lparr>mem := ?f p (mem s')\<rparr>"
  have "queue_add q b s = Some (p, ?s)" using a(1) q by (subst queue_add.simps) simp
  moreover have "queue_list (mem ?s) p [(p, b)]"
  proof -
    have "apart (p + 4) 4 p 4" using unat_add_nat [of p 4] a(3,4) by (auto simp: apart_def)
    then show ?thesis using a(2) by (simp add: q_msg_def q_next_def load32_store32_apart)
  qed
  moreover have "nodes_owned (insert (p, k) H) [(p, b)]" using a(3) by (auto simp: nodes_owned_def)
  moreover have "?s = s\<lparr>mem := mem ?s\<rparr>" using mem_only(1) [OF a(6)] by simp
  moreover have "same_areas (H \<union> S - node_areas H []) (mem s) (mem ?s)"
    using a(8) by (simp add: node_areas_def)
  ultimately show ?case using a(3,5,7) unfolding append_Nil by blast
next
  case (Cons x xs)
  obtain n0 b0 where x: "x = (n0, b0)" by (cases x)
  from Cons.prems have q: "q = n0" "n0 \<noteq> 0" "q_msg (mem s) n0 = b0" "queue_list (mem s) (q_next (mem s) n0) xs"
    by (simp_all add: x)
  have own: "nodes_owned H xs" "n0 \<notin> set (map fst xs)" using nodes_owned_Cons Cons.prems(2) unfolding x by blast+
  obtain k0 where k0: "(n0, k0) \<in> H" "8 \<le> k0" using Cons.prems(2) by (auto simp: x nodes_owned_def)
  from Cons.IH [OF q(4) own(1)] obtain r n k s1 where
    i: "queue_add (q_next (mem s) n0) b s = Some (r, s1)" "s1 = s\<lparr>mem := mem s1\<rparr>"
      "heap_owns s1 (insert (n, k) H) S" "queue_list (mem s1) r (xs @ [(n, b)])"
      "nodes_owned (insert (n, k) H) (xs @ [(n, b)])" "(n, k) \<notin> H \<union> S" "8 \<le> k"
      "same_areas (H \<union> S - node_areas H xs) (mem s) (mem s1)"
    by blast
  let ?m = "store32 (mem s1) (n0 + 4) r"
  let ?H = "insert (n, k) H"
  have ok: "areas_ok (?H \<union> S)" by (rule heap.areas [OF i(3)])
  have bd: "unat n0 + k0 \<le> 2 ^ 32" by (rule areas_bound [OF ok]) (use k0 in simp)
  have w: "only_area n0 k0 (mem s1) ?m"
    using only_area_store32 [OF bd, of 4 "mem s1" r] k0(2) by simp
  have "(n0, k0) \<in> ?H \<union> S" using k0(1) by simp
  from heap.write_frame [OF i(3) this w]
  have o2: "heap_owns (s1\<lparr>mem := ?m\<rparr>) ?H S" and f2: "same_areas (?H \<union> S - {(n0, k0)}) (mem s1) ?m"
    by blast+
  have nn0: "n \<noteq> n0"
  proof
    assume "n = n0"
    moreover have "apart n k n0 k0" by (rule areas_apart [OF ok]) (use i(6) k0 in auto)
    ultimately show False using i(7) k0(2) by (simp add: apart_def)
  qed
  have fld: "q_msg ?m c = q_msg (mem s1) c \<and> q_next ?m c = q_next (mem s1) c"
    if c: "c \<in> set (map fst (xs @ [(n, b)]))" for c
  proof -
    obtain kc where kc: "(c, kc) \<in> ?H" "8 \<le> kc" using nodes_ownedD [OF i(5) c] by blast
    show ?thesis
    proof (rule node_same [OF f2])
      show "(c, kc) \<in> ?H \<union> S - {(n0, k0)}" using kc(1) own(2) nn0 c by auto
      show "8 \<le> kc" by (rule kc)
      show "unat c + kc \<le> 2 ^ 32" by (rule areas_bound [OF ok]) (use kc in blast)
    qed
  qed
  have "queue_list ?m r (xs @ [(n, b)])" using queue_list_cong [OF fld] i(4) by blast
  moreover have "q_next ?m n0 = r" by (simp add: q_next_def)
  moreover have "q_msg ?m n0 = b0"
  proof -
    have "q_msg (mem s1) n0 = q_msg (mem s) n0"
      by (rule conjunct1 [OF node_same [OF i(8) _ k0(2) bd]]) (use k0(1) own(2) in \<open>auto simp: node_areas_def\<close>)
    moreover have "apart (n0 + 4) 4 n0 4" using unat_add_nat [of n0 4] bd k0(2) by (auto simp: apart_def)
    ultimately show ?thesis using q(3) by (simp add: q_msg_def load32_store32_apart)
  qed
  ultimately have ql: "queue_list ?m n0 ((x # xs) @ [(n, b)])" using q(2) by (simp add: x)
  have no: "nodes_owned ?H ((x # xs) @ [(n, b)])"
    using i(5) own(2) nn0 k0 by (auto simp: nodes_owned_def x)
  have sa: "same_areas (H \<union> S - node_areas H (x # xs)) (mem s) ?m"
  proof (rule same_areas_trans)
    show "same_areas (H \<union> S - node_areas H (x # xs)) (mem s) (mem s1)"
      by (rule same_areas_mono [OF i(8)]) (auto simp: node_areas_def)
    show "same_areas (H \<union> S - node_areas H (x # xs)) (mem s1) ?m"
      by (rule same_areas_mono [OF f2]) (use k0(1) x in \<open>auto simp: node_areas_def\<close>)
  qed
  have "queue_add q b s = Some (n0, s1\<lparr>mem := ?m\<rparr>)"
    using i(1) q(1,2) by (subst queue_add.simps) simp
  moreover have "s1\<lparr>mem := ?m\<rparr> = s\<lparr>mem := mem (s1\<lparr>mem := ?m\<rparr>)\<rparr>" using mem_only(1) [OF i(2)] by simp
  ultimately show ?case
    using o2 ql no i(6,7) sa q(1) by (intro exI [of _ n0] exI [of _ n] exI [of _ k] exI [of _ "s1\<lparr>mem := ?m\<rparr>"]) simp
qed

lemma queue_del_spec:
  assumes o: "heap_owns s H S" and l: "queue_list (mem s) q ((n, b) # xs)"
    and w: "nodes_owned H ((n, b) # xs)" and "heap_freeable s n"
  shows "\<exists>q' k s'. queue_del q s = Some (q', s') \<and> s' = s\<lparr>mem := mem s'\<rparr> \<and> (n, k) \<in> H
    \<and> heap_owns s' (H - {(n, k)}) S \<and> queue_list (mem s') q' xs \<and> nodes_owned (H - {(n, k)}) xs
    \<and> same_areas (H \<union> S - {(n, k)}) (mem s) (mem s')"
proof -
  obtain k where k: "(n, k) \<in> H" "8 \<le> k" using w by (auto simp: nodes_owned_def)
  from heap.releases [OF o k(1) assms(4)] obtain s' where
    f: "free n s = Some s'" "s' = s\<lparr>mem := mem s'\<rparr>" "heap_owns s' (H - {(n, k)}) S"
      "same_areas (H \<union> S - {(n, k)}) (mem s) (mem s')" by blast
  have ok: "areas_ok (H \<union> S)" by (rule heap.areas [OF o])
  from l have q: "q = n" "n \<noteq> 0" "queue_list (mem s) (q_next (mem s) n) xs" by simp_all
  have own: "nodes_owned H xs" "n \<notin> set (map fst xs)" using nodes_owned_Cons [OF w] by blast+
  have no: "nodes_owned (H - {(n, k)}) xs" using own by (auto simp: nodes_owned_def)
  have "queue_list (mem s') (q_next (mem s) n) xs = queue_list (mem s) (q_next (mem s) n) xs"
  proof (rule queue_list_cong)
    fix c
    assume c: "c \<in> set (map fst xs)"
    then obtain kc where kc: "(c, kc) \<in> H - {(n, k)}" "8 \<le> kc" using nodes_ownedD [OF no c] by blast
    show "q_msg (mem s') c = q_msg (mem s) c \<and> q_next (mem s') c = q_next (mem s) c"
      by (rule node_same [OF f(4) _ kc(2)]) (use kc(1) areas_bound [OF ok] in auto)
  qed
  moreover have "queue_del q s = Some (q_next (mem s) n, s')"
    using f(1) q(1,2) by (simp add: queue_del_def Let_def)
  ultimately show ?thesis using f(2,3,4) k(1) no q(3) by blast
qed

section \<open>Property\<close>

lemma queue_inv_other:
  "queue_inv s H S q xs \<Longrightarrow> mem s' = mem s \<Longrightarrow> mmList s' = mmList s \<Longrightarrow> queue_inv s' H S q xs"
  by (auto simp: queue_inv_def intro: heap.others)

lemma neSend_busy:
  assumes "queue_inv s H S (sendQueue s) xs" and "heap_fits s 8" and "buf \<noteq> 0"
    and "ucast (dev (io s @ [Cli]) COMMAND) = (0x26 :: u8)"
  shows "\<exists>n k s'. neSend dev buf s = Some s'
    \<and> queue_inv s' (insert (n, k) H) S (sendQueue s') (xs @ [(n, buf)]) \<and> (n, k) \<notin> H \<union> S
    \<and> same_areas (H \<union> S - node_areas H xs) (mem s) (mem s')
    \<and> io s' = io s @ [Cli, InB COMMAND 0x26, Sti]"
proof -
  let ?s = "s\<lparr>io := io s @ [Cli, InB COMMAND 0x26]\<rparr>"
  have "queue_inv ?s H S (sendQueue s) xs" by (rule queue_inv_other [OF assms(1)]) simp_all
  moreover have "heap_fits ?s 8" using assms(2) by (simp add: heap_fits_def)
  ultimately obtain q n k s' where
    q: "queue_add (sendQueue s) buf ?s = Some (q, s')" "s' = ?s\<lparr>mem := mem s'\<rparr>"
      "heap_owns s' (insert (n, k) H) S" "queue_list (mem s') q (xs @ [(n, buf)])"
      "nodes_owned (insert (n, k) H) (xs @ [(n, buf)])" "(n, k) \<notin> H \<union> S"
      "same_areas (H \<union> S - node_areas H xs) (mem ?s) (mem s')"
    using queue_add_spec [of ?s H S "sendQueue s" xs buf] by (auto simp: queue_inv_def)
  let ?t = "s'\<lparr>sendQueue := q, io := io s @ [Cli, InB COMMAND 0x26, Sti]\<rparr>"
  have "neSend dev buf s = Some ?t"
    using q(1) assms(3,4) mem_only(3) [OF q(2)]
    by (simp add: neSend_def cli_def sti_def inb_def Let_def)
  moreover have "queue_inv ?t (insert (n, k) H) S (sendQueue ?t) (xs @ [(n, buf)])"
    using q(3,4,5) by (auto simp: queue_inv_def intro: heap.others [OF q(3)])
  ultimately show ?thesis using q(6,7) by (intro exI [of _ n] exI [of _ k] exI [of _ ?t]) simp
qed

lemma queue_del_front:
  assumes "queue_inv s H S q ((n, b) # xs)" and "heap_freeable s n"
  shows "q_msg (mem s) (getLevel q) = b \<and> (\<exists>q' k s'. queue_del q s = Some (q', s') \<and> (n, k) \<in> H
    \<and> queue_inv s' (H - {(n, k)}) S q' xs \<and> same_areas (H \<union> S - {(n, k)}) (mem s) (mem s'))"
proof -
  have "queue_list (mem s) q ((n, b) # xs)" using assms(1) by (simp only: queue_inv_def)
  then have "q_msg (mem s) (getLevel q) = b" by (simp add: getLevel_def)
  with queue_del_spec [of s H S q n b xs] assms show ?thesis unfolding queue_inv_def by blast
qed

lemma queue_del_front_io:
  assumes "queue_inv s H S q ((n, b) # xs)" and "heap_freeable s n"
  shows "\<exists>q' k s'. queue_del q s = Some (q', s') \<and> (n, k) \<in> H \<and> queue_inv s' (H - {(n, k)}) S q' xs
    \<and> same_areas (H \<union> S - {(n, k)}) (mem s) (mem s') \<and> io s' = io s"
  using queue_del_spec [of s H S q n b xs] assms mem_only(3) unfolding queue_inv_def by blast

text \<open>
  C14: the send queue implements a list of messages. While the transmitter is busy, \<open>neSend\<close>
  returns with the message at the end of the queue, in a node from the heap, and touches no
  memory the driver does not own but the queue's; \<open>getLevel\<close> and \<open>del\<close> yield the oldest message
  and drop it, giving its node back to the heap. Between them the card sees one read of its
  command register, with interrupts off.
\<close>

theorem send_queue_fifo:
  assumes "queue_inv s H S (sendQueue s) xs"
  shows "(heap_fits s 8 \<and> buf \<noteq> 0 \<and> ucast (dev (io s @ [Cli]) COMMAND) = (0x26 :: u8)
      \<longrightarrow> (\<exists>n k s'. neSend dev buf s = Some s'
        \<and> queue_inv s' (insert (n, k) H) S (sendQueue s') (xs @ [(n, buf)]) \<and> (n, k) \<notin> H \<union> S
        \<and> same_areas (H \<union> S - node_areas H xs) (mem s) (mem s')
        \<and> io s' = io s @ [Cli, InB COMMAND 0x26, Sti]))
    \<and> (\<forall>n b ys. xs = (n, b) # ys \<and> heap_freeable s n
      \<longrightarrow> q_msg (mem s) (getLevel (sendQueue s)) = b
        \<and> (\<exists>q k s'. queue_del (sendQueue s) s = Some (q, s') \<and> (n, k) \<in> H
          \<and> queue_inv s' (H - {(n, k)}) S q ys \<and> same_areas (H \<union> S - {(n, k)}) (mem s) (mem s')))"
proof (intro conjI impI allI)
  assume "heap_fits s 8 \<and> buf \<noteq> 0 \<and> ucast (dev (io s @ [Cli]) COMMAND) = (0x26 :: u8)"
  with neSend_busy [OF assms] show "\<exists>n k s'. neSend dev buf s = Some s'
        \<and> queue_inv s' (insert (n, k) H) S (sendQueue s') (xs @ [(n, buf)]) \<and> (n, k) \<notin> H \<union> S
        \<and> same_areas (H \<union> S - node_areas H xs) (mem s) (mem s')
        \<and> io s' = io s @ [Cli, InB COMMAND 0x26, Sti]"
    by blast
next
  fix n b ys
  assume x: "xs = (n, b) # ys \<and> heap_freeable s n"
  from queue_del_front [OF assms [unfolded conjunct1 [OF x]] conjunct2 [OF x]]
  show "q_msg (mem s) (getLevel (sendQueue s)) = b"
    and "\<exists>q k s'. queue_del (sendQueue s) s = Some (q, s') \<and> (n, k) \<in> H
      \<and> queue_inv s' (H - {(n, k)}) S q ys \<and> same_areas (H \<union> S - {(n, k)}) (mem s) (mem s')"
    by simp_all
qed

section \<open>Witness\<close>

text \<open>A queue of one node, in the busy block of \<open>block_machine\<close>.\<close>

definition queue_machine :: machine where
  "queue_machine = block_machine\<lparr>sendQueue := 0x400010\<rparr>"

lemma queue_machine_mem [simp]: "mem queue_machine = mem block_machine"
  "mmList queue_machine = 0x310000" "sendQueue queue_machine = 0x400010" "io queue_machine = []"
  by (simp_all add: queue_machine_def block_machine_fields)
    (simp add: block_machine_def free_machine_def boot_machine_def)

lemma queue_machine_owns: "heap_owns queue_machine {(0x400010, 100)} {}"
proof -
  have "heap_owns block_machine {(0x400010, 100)} {}"
    unfolding heap_owns_def
    by (intro exI [of _ "[0x400074]"] exI [of _ "{0x400000}"])
      (simp add: block_machine_ok payload_def block_machine_fields sizeof_mlT_def areas_ok_def clear_of_def)
  then show ?thesis by (rule heap.others) (simp_all add: block_machine_fields)
qed

lemma queue_machine_inv: "queue_inv queue_machine {(0x400010, 100)} {} 0x400010 [(0x400010, 0)]"
proof -
  have "load32 (mem block_machine) 0x400010 = 0" "load32 (mem block_machine) 0x400014 = 0"
    by (simp_all add: block_machine_def load32_store32_apart apart_def load32_zero free_machine_def boot_machine_def)
  then show ?thesis
    using queue_machine_owns by (simp add: queue_inv_def nodes_owned_def q_msg_def q_next_def)
qed

lemma queue_machine_fits:
  assumes "0 < n" and "unat n \<le> 2000"
  shows "heap_fits queue_machine n"
proof -
  have "unat (round4 n) \<le> 2003" by (rule le_trans [OF round4_le]) (use assms(2) in simp_all)
  then have "round4 n \<le> load32 (mem queue_machine) 0x400074"
    by (simp add: block_machine_fields word_le_nat_alt)
  moreover have "dll (mem queue_machine) 0 (mmList queue_machine) (mmList queue_machine # [0x400074])"
    by (simp add: block_machine_fields)
  ultimately show ?thesis
    using assms unfolding heap_fits_def
    by (intro conjI exI [of _ "[0x400074]"]) (simp_all add: word_le_nat_alt)
qed

lemma queue_machine_freeable: "heap_freeable queue_machine 0x400010"
proof -
  have "0x400074 = neighbour (mem block_machine) 0x400000"
    by (simp add: neighbour_def block_machine_fields sizeof_mlT_def)
  moreover have "dll (mem block_machine) 0 0x310000 (0x310000 # [0x400074])"
    by (simp add: block_machine_fields)
  ultimately show ?thesis
    unfolding heap_freeable_def Let_def
    by (auto simp: sizeof_mlT_def block_machine_fields simp del: dll.simps intro!: exI [of _ "[0x400074]"])
qed

theorem send_queue_fifo_witness:
  "(\<exists>n k s'. neSend (\<lambda>_ _. 0x26) 0x5000 queue_machine = Some s'
      \<and> queue_inv s' {(n, k), (0x400010, 100)} {} (sendQueue s') [(0x400010, 0), (n, 0x5000)])
   \<and> (\<exists>q s'. queue_del 0x400010 queue_machine = Some (q, s') \<and> queue_inv s' {} {} q [])"
proof -
  have q: "queue_inv queue_machine {(0x400010, 100)} {} (sendQueue queue_machine) [(0x400010, 0)]"
    using queue_machine_inv by simp
  have f: "heap_fits queue_machine 8" by (rule queue_machine_fits) simp_all
  note t = send_queue_fifo [OF q, of "0x5000" "\<lambda>_ _. 0x26"]
  from conjunct1 [OF t] f have "\<exists>n k s'. neSend (\<lambda>_ _. 0x26) 0x5000 queue_machine = Some s'
      \<and> queue_inv s' {(n, k), (0x400010, 100)} {} (sendQueue s') [(0x400010, 0), (n, 0x5000)]"
    by auto
  moreover from conjunct2 [OF t, rule_format, of "0x400010" 0 "[]"] queue_machine_freeable
  obtain q k s' where "queue_del 0x400010 queue_machine = Some (q, s')" "(0x400010, k) \<in> {(0x400010, 100)}"
    "queue_inv s' ({(0x400010, 100)} - {(0x400010, k)}) {} q []"
    by auto
  then have "\<exists>q s'. queue_del 0x400010 queue_machine = Some (q, s') \<and> queue_inv s' {} {} q []" by auto
  ultimately show ?thesis by blast
qed

end
