(* ===== verification/ByteOrder.thy ===== *)
theory ByteOrder
  imports Prelude
begin

text \<open>
  \<open>include/net/in.h\<close>: the byte order macros, one \<open>let\<close> per instruction of the inline assembly,
  and what they mean for a value stored in memory.
\<close>

unbundle bit_operations_syntax

section \<open>The macros\<close>

text \<open>\<open>xchg %ah,%al\<close> exchanges the two low bytes of \<open>eax\<close>.\<close>

definition xchg_ah_al :: "u32 \<Rightarrow> u32" where
  "xchg_ah_al eax = (eax AND 0xFFFF0000) OR push_bit 8 (eax AND 0xFF) OR (drop_bit 8 eax AND 0xFF)"

definition shortSwap :: "u32 \<Rightarrow> u16" where
  "shortSwap num = ucast (xchg_ah_al num)"

definition longSwap :: "u32 \<Rightarrow> u32" where
  "longSwap num =
     (let eax = xchg_ah_al num;
          v = eax;
          v = push_bit 16 v;
          eax = drop_bit 16 eax;
          eax = xchg_ah_al eax
      in v OR eax)"

abbreviation htonl :: "u32 \<Rightarrow> u32" where "htonl \<equiv> longSwap"
abbreviation ntohl :: "u32 \<Rightarrow> u32" where "ntohl \<equiv> longSwap"
abbreviation htons :: "u16 \<Rightarrow> u16" where "htons v \<equiv> shortSwap (ucast v)"
abbreviation ntohs :: "u16 \<Rightarrow> u16" where "ntohs v \<equiv> shortSwap (ucast v)"

section \<open>Bits of the swapped values\<close>

lemma bit_xchg_ah_al:
  "bit (xchg_ah_al v) n \<longleftrightarrow>
     (if n < 8 then bit v (n + 8) else if n < 16 then bit v (n - 8) else bit v n)"
proof -
  have masks: "(0xFF :: u32) = mask 8" "(0xFFFF0000 :: u32) = push_bit 16 (mask 16)"
    by (simp_all add: mask_eq_exp_minus_1)
  show ?thesis
    unfolding xchg_ah_al_def masks
    by (auto simp: bit_simps add.commute dest: bit_imp_le_length)
qed

text \<open>Bit \<open>n\<close> of byte \<open>k\<close> comes from bit \<open>n\<close> of byte \<open>3 - k\<close>.\<close>

lemma bit_longSwap:
  "bit (longSwap v) n \<longleftrightarrow>
     (if n < 8 then bit v (n + 24) else if n < 16 then bit v (n + 8)
      else if n < 24 then bit v (n - 8) else if n < 32 then bit v (n - 24) else False)"
  unfolding longSwap_def Let_def
  by (auto simp: bit_simps bit_xchg_ah_al ac_simps dest: bit_imp_le_length)

lemma bit_shortSwap:
  "bit (shortSwap v) n \<longleftrightarrow> (if n < 8 then bit v (n + 8) else n < 16 \<and> bit v (n - 8))"
  unfolding shortSwap_def by (auto simp: bit_simps bit_xchg_ah_al add.commute)

lemma longSwap_longSwap: "longSwap (longSwap v) = v"
  by (rule bit_word_eqI) (auto simp: bit_longSwap)

lemma htons_htons: "ntohs (htons v) = v"
  by (rule bit_word_eqI) (auto simp: bit_shortSwap bit_simps)

lemma htons_bytes:
  "(ucast (drop_bit 8 (htons w)) :: u8) = ucast w" "(ucast (htons w) :: u8) = ucast (drop_bit 8 w)"
  by (rule bit_word_eqI; auto simp: bit_simps bit_shortSwap ac_simps)+

section \<open>Properties\<close>

text \<open>
  C40: the byte order macros do what their names promise: a value converted with \<open>htonl\<close>
  (\<open>htons\<close>) and stored by the little-endian CPU lies in memory most significant byte first,
  and converting back with \<open>ntohl\<close> (\<open>ntohs\<close>) gives the value.
\<close>

theorem network_byte_order:
  "(let m' = store32 m a (htonl v) in
      [m' a, m' (a + 1), m' (a + 2), m' (a + 3)]
        = [ucast (drop_bit 24 v), ucast (drop_bit 16 v), ucast (drop_bit 8 v), ucast v]
      \<and> ntohl (load32 m' a) = v)
   \<and> (let m' = store16 m a (htons w) in
      [m' a, m' (a + 1)] = [ucast (drop_bit 8 w), ucast w] \<and> ntohs (load16 m' a) = w)"
proof -
  have l: "(ucast (drop_bit 24 (htonl v)) :: u8) = ucast v"
    "(ucast (drop_bit 16 (htonl v)) :: u8) = ucast (drop_bit 8 v)"
    "(ucast (drop_bit 8 (htonl v)) :: u8) = ucast (drop_bit 16 v)"
    "(ucast (htonl v) :: u8) = ucast (drop_bit 24 v)"
    by (rule bit_word_eqI; simp add: bit_simps bit_longSwap ac_simps)+
  show ?thesis
    by (simp add: longSwap_longSwap htons_htons) (simp add: store32_def store16_def l htons_bytes)
qed

end
