(* ===== verification/Ethernet.thy ===== *)
theory Ethernet
  imports SendQueue ByteOrder
begin

text \<open>
  What the network files share, and \<open>ethSend\<close> of \<open>net/ethernet.c\<close>. \<open>net_env\<close> collects what the
  C code leaves to others: the card, the addresses the compiler and linker give to local arrays
  and static data, the list library \<open>glib/list.c\<close>, which is not part of the repository, and what
  interrupts do while a delay loop counts.
\<close>

unbundle bit_operations_syntax

section \<open>Surroundings\<close>

record net_env =
  dev :: device
  localMac :: u32    \<comment> \<open>\<open>localMac\<close>, six bytes\<close>
  mac_at :: u32      \<comment> \<open>\<open>mac\<close> of \<open>neInit\<close>\<close>
  recv_at :: u32     \<comment> \<open>\<open>recv\<close> of \<open>neRecv\<close>\<close>
  dHost_at :: u32    \<comment> \<open>\<open>dHost\<close> of \<open>arpRequest\<close> and \<open>arpReply\<close>\<close>
  key_at :: u32      \<comment> \<open>the compound literals that \<open>arpRecv\<close> and \<open>ipToMac\<close> search for\<close>
  hello_at :: u32    \<comment> \<open>the string literal of \<open>cmain\<close>\<close>
  newList :: "(u32 \<Rightarrow> machine \<Rightarrow> machine option) \<Rightarrow> (mem \<Rightarrow> u32 \<Rightarrow> u32 \<Rightarrow> u32) \<Rightarrow> machine
    \<Rightarrow> (u32 \<times> machine) option"
  list_find :: "u32 \<Rightarrow> u32 \<Rightarrow> machine \<Rightarrow> (u32 \<times> machine) option"
  list_add :: "u32 \<Rightarrow> u32 \<Rightarrow> machine \<Rightarrow> machine option"
  interrupts :: "machine \<Rightarrow> machine option"

text \<open>\<open>exit\<close> of \<open>include/vm/malloc.h\<close>: it prints and then loops for ever.\<close>

definition exit :: "u32 \<Rightarrow> machine \<Rightarrow> 'a option" where "exit num s = None"

section \<open>Sending a frame\<close>

definition ETH_ALEN :: u32 where "ETH_ALEN = 6"
definition ETHERTYPE_IP :: u16 where "ETHERTYPE_IP = 0x0800"
definition ETHERTYPE_ARP :: u16 where "ETHERTYPE_ARP = 0x0806"
definition ETHERTYPE_REVARP :: u16 where "ETHERTYPE_REVARP = 0x8035"

text \<open>\<open>EthernetHeader\<close>, packed: destination, source at 6, type at 12.\<close>

definition sizeof_EthernetHeader :: u32 where "sizeof_EthernetHeader = 14"

definition ethSend :: "net_env \<Rightarrow> u32 \<Rightarrow> u32 \<Rightarrow> u32 \<Rightarrow> u16 \<Rightarrow> machine \<Rightarrow> (u32 \<times> machine) option" where
  "ethSend e data dHost sHost type s =
     do { (msg, s) \<leftarrow> malloc (sizeof_msgT + sizeof_EthernetHeader) s;
          let s = set_msg_len msg (ucast sizeof_EthernetHeader) s;
              s = set_msg_next msg data s;
              eth = msg_msg msg;
              s = s\<lparr>mem := snd (memcpy (mem s) eth dHost ETH_ALEN)\<rparr>;
              s = s\<lparr>mem := snd (memcpy (mem s) (eth + 6) sHost ETH_ALEN)\<rparr>;
              s = s\<lparr>mem := store16 (mem s) (eth + 12) (htons type)\<rparr>
          in do { s \<leftarrow> neSend (dev e) msg s; Some (0, s) } }"

section \<open>The frame\<close>

text \<open>The message \<open>ethSend\<close> fills in.\<close>

definition eth_fill :: "u32 \<Rightarrow> u32 \<Rightarrow> u32 \<Rightarrow> u16 \<Rightarrow> u32 \<Rightarrow> mem \<Rightarrow> mem" where
  "eth_fill data dHost sHost type p m =
     (let m = store32 (store16 m (p + 4) 14) p data;
          m = copy_bytes 6 (p + 6) dHost m;
          m = copy_bytes 6 (p + 12) sHost m
      in store16 m (p + 18) (htons type))"

lemma ethSend_fill:
  "ethSend e data dHost sHost type s =
    do { (msg, s) \<leftarrow> malloc (sizeof_msgT + sizeof_EthernetHeader) s;
         s \<leftarrow> neSend (dev e) msg (s\<lparr>mem := eth_fill data dHost sHost type msg (mem s)\<rparr>);
         Some (0, s) }"
  by (simp add: ethSend_def eth_fill_def set_msg_len_def set_msg_next_def memcpy_def msg_msg_def
      ETH_ALEN_def sizeof_EthernetHeader_def Let_def add.assoc del: copy_bytes.simps)

lemma copy_area: "unat d + n \<le> 2 ^ 32 \<Longrightarrow> only_area d n m (copy_bytes n d s m)"
  by (simp add: only_area_def copy_bytes_frame)

lemma only_area_sub:
  "only_area q l m m' \<Longrightarrow> unat p \<le> unat q \<Longrightarrow> unat q + l \<le> unat p + k \<Longrightarrow> only_area p k m m'"
  by (auto simp: only_area_def in_range_def)

lemma frame_offsets:
  assumes "unat p + k \<le> 2 ^ 32" and "22 \<le> k" and "i < k"
  shows "unat (p + of_nat i :: u32) = unat p + i"
  by (rule unat_add_nat) (use assms in simp)

lemma eth_fill_area:
  assumes "unat p + k \<le> 2 ^ 32" and "22 \<le> k"
  shows "only_area p k m (eth_fill data dHost sHost type p m)"
proof -
  note u = frame_offsets [OF assms, of 6] frame_offsets [OF assms, of 12]
  have c: "only_area p k m (copy_bytes 6 (p + 6) x m)" "only_area p k m (copy_bytes 6 (p + 12) x m)" for x m
    using copy_area [of "p + 6" 6 m x] copy_area [of "p + 12" 6 m x] u assms
    by (auto intro: only_area_sub simp del: copy_bytes.simps)
  have st: "only_area p k m (store16 m (p + 4) v)" "only_area p k m (store16 m (p + 18) v)"
    "only_area p k m (store32 m p w)" for m v w
    using only_area_store16 [OF assms(1), of 4 m v] only_area_store16 [OF assms(1), of 18 m v]
      only_area_store32 [OF assms(1), of 0 m w] assms(2) by simp_all
  show ?thesis
    unfolding eth_fill_def Let_def
    by (rule only_area_trans [OF _ st(2)], rule only_area_trans [OF _ c(2)], rule only_area_trans [OF _ c(1)],
        rule only_area_trans [OF st(1) st(3)])
qed

text \<open>The fourteen bytes of the header and the head of the message.\<close>

lemma eth_fill_bytes:
  assumes b: "unat p + k \<le> 2 ^ 32" "22 \<le> k"
    and d: "apart p k dHost 6" and s: "apart p k sHost 6"
  shows "i < 6 \<Longrightarrow> eth_fill data dHost sHost type p m (p + of_nat (6 + i)) = m (dHost + of_nat i)"
    and "i < 6 \<Longrightarrow> eth_fill data dHost sHost type p m (p + of_nat (12 + i)) = m (sHost + of_nat i)"
    and "eth_fill data dHost sHost type p m (p + 18) = ucast (htons type)"
    and "eth_fill data dHost sHost type p m (p + 19) = ucast (drop_bit 8 (htons type))"
    and "msg_next (eth_fill data dHost sHost type p m) p = data"
    and "msg_len (eth_fill data dHost sHost type p m) p = 14"
proof -
  define m1 where "m1 = store32 (store16 m (p + 4) 14) p data"
  define m2 where "m2 = copy_bytes 6 (p + 6) dHost m1"
  define m3 where "m3 = copy_bytes 6 (p + 12) sHost m2"
  have f: "eth_fill data dHost sHost type p m = store16 m3 (p + 18) (htons type)"
    by (simp add: eth_fill_def Let_def m1_def m2_def m3_def del: copy_bytes.simps)
  have u: "unat (p + 4) = unat p + 4" "unat (p + 6) = unat p + 6" "unat (p + 12) = unat p + 12"
    "unat (p + 18) = unat p + 18"
    using frame_offsets [OF b, of 4] frame_offsets [OF b, of 6] frame_offsets [OF b, of 12]
      frame_offsets [OF b, of 18] b(2) by simp_all
  have uo: "unat (p + of_nat j) = unat p + j" if "j < 22" for j by (rule frame_offsets [OF b]) (use that b in simp)
  have far: "\<not> in_range p k (x + of_nat j)" if "apart p k x 6" "j < 6" for x j
  proof (rule apart_not_range [OF that(1)])
    show "in_range x 6 (x + of_nat j)" by (rule in_range_offset) (use that in \<open>auto simp: apart_def\<close>)
  qed
  have a1: "only_area p k m m1"
    using only_area_store16 [OF b(1), of 4 m 14] only_area_store32 [OF b(1), of 0 "store16 m (p + 4) 14" data] b(2)
    by (auto simp: m1_def intro: only_area_trans)
  have a2: "only_area (p + 6) 6 m1 m2" unfolding m2_def by (rule copy_area) (use u b in simp)
  have a3: "only_area (p + 12) 6 m2 m3" unfolding m3_def by (rule copy_area) (use u b in simp)
  have a4: "only_area (p + 18) 2 m3 (store16 m3 (p + 18) v)" for v
    using only_area_store16 [of "p + 18" 2 0 m3 v] u b by simp
  have o2: "m2 a = m1 a" if "\<not> in_range p k a" for a
    using a2 that u b by (auto simp: only_area_def in_range_def)
  have src1: "m1 (dHost + of_nat j) = m (dHost + of_nat j)" if "j < 6" for j
    using a1 far [OF d that] by (simp add: only_area_def)
  have src2: "m2 (sHost + of_nat j) = m (sHost + of_nat j)" if "j < 6" for j
    using o2 [OF far [OF s that]] a1 far [OF s that] by (simp add: only_area_def)
  have c2: "m2 (p + 6 + of_nat j) = m1 (dHost + of_nat j)" if "j < 6" for j
    unfolding m2_def by (rule copy_bytes_offset [OF _ _ _ that]) (use d u b in \<open>auto simp: apart_def\<close>)
  have c3: "m3 (p + 12 + of_nat j) = m2 (sHost + of_nat j)" if "j < 6" for j
    unfolding m3_def by (rule copy_bytes_offset [OF _ _ _ that]) (use s u b in \<open>auto simp: apart_def\<close>)
  show "eth_fill data dHost sHost type p m (p + of_nat (6 + i)) = m (dHost + of_nat i)" if i: "i < 6"
  proof -
    have "unat (p + of_nat (6 + i)) = unat p + (6 + i)" by (rule uo) (use i in simp)
    then have o: "\<not> in_range (p + 18) 2 (p + of_nat (6 + i))" "\<not> in_range (p + 12) 6 (p + of_nat (6 + i))"
      using u i by (simp_all add: in_range_def)
    have "eth_fill data dHost sHost type p m (p + of_nat (6 + i)) = m2 (p + of_nat (6 + i))"
      unfolding f only_areaD [OF a4 o(1)] by (rule only_areaD [OF a3 o(2)])
    also have "\<dots> = m2 (p + 6 + of_nat i)" by (simp add: add.assoc)
    finally show ?thesis using c2 [OF i] src1 [OF i] by simp
  qed
  show "eth_fill data dHost sHost type p m (p + of_nat (12 + i)) = m (sHost + of_nat i)" if i: "i < 6"
  proof -
    have "unat (p + of_nat (12 + i)) = unat p + (12 + i)" by (rule uo) (use i in simp)
    then have o: "\<not> in_range (p + 18) 2 (p + of_nat (12 + i))" using u i by (simp add: in_range_def)
    have "eth_fill data dHost sHost type p m (p + of_nat (12 + i)) = m3 (p + of_nat (12 + i))"
      unfolding f by (rule only_areaD [OF a4 o])
    also have "\<dots> = m3 (p + 12 + of_nat i)" by (simp add: add.assoc)
    finally show ?thesis using c3 [OF i] src2 [OF i] by simp
  qed
  show "eth_fill data dHost sHost type p m (p + 18) = ucast (htons type)"
    "eth_fill data dHost sHost type p m (p + 19) = ucast (drop_bit 8 (htons type))"
    by (simp_all add: f store16_def)
  have hd: "eth_fill data dHost sHost type p m (p + of_nat j) = m1 (p + of_nat j)" if "j < 6" for j
  proof -
    have "unat (p + of_nat j) = unat p + j" by (rule uo) (use that in simp)
    then have o: "\<not> in_range (p + 18) 2 (p + of_nat j)" "\<not> in_range (p + 12) 6 (p + of_nat j)"
      "\<not> in_range (p + 6) 6 (p + of_nat j)"
      using u that by (simp_all add: in_range_def)
    show ?thesis unfolding f only_areaD [OF a4 o(1)] only_areaD [OF a3 o(2)] by (rule only_areaD [OF a2 o(3)])
  qed
  have "load32 (eth_fill data dHost sHost type p m) p = load32 m1 p" by (rule load32_cong) (use hd in simp)
  then show "msg_next (eth_fill data dHost sHost type p m) p = data" by (simp add: msg_next_def m1_def)
  have "load16 (eth_fill data dHost sHost type p m) (p + 4) = load16 m1 (p + 4)"
    by (rule load16_cong) (use hd [of "4 + _"] in \<open>simp add: add.assoc\<close>)
  moreover have "apart p 4 (p + 4) 2" using u b by (auto simp: apart_def)
  ultimately show "msg_len (eth_fill data dHost sHost type p m) p = 14"
    by (simp add: msg_len_def m1_def load16_store32_apart)
qed
lemma upt_14: "[0..<14] = [0..<6] @ map ((+) 6) [0..<6] @ [12, 13]"
  by code_simp

section \<open>Property\<close>

text \<open>
  C20: \<open>ethSend\<close> hands the driver one new message: its 14 bytes are the destination address, the
  source address and the type with its high byte first, it is followed by the message given, it
  lies in a block of its own from the heap, and no other memory the sender owns has changed.
\<close>

theorem ethSend_frame:
  assumes "heap_owns s H S" and "(dHost, 6) \<in> S" and "(sHost, 6) \<in> S"
    and "heap_fits s (sizeof_msgT + sizeof_EthernetHeader)"
  shows "\<exists>msg k t. ethSend e data dHost sHost type s = do { s \<leftarrow> neSend (dev e) msg t; Some (0, s) }
    \<and> heap_owns t (insert (msg, k) H) S \<and> (msg, k) \<notin> H \<union> S \<and> 22 \<le> k
    \<and> same_areas (H \<union> S) (mem s) (mem t)
    \<and> msg_next (mem t) msg = data \<and> msg_len (mem t) msg = 14
    \<and> map (\<lambda>i. mem t (msg_msg msg + of_nat i)) [0..<14]
      = map (\<lambda>i. mem s (dHost + of_nat i)) [0..<6] @ map (\<lambda>i. mem s (sHost + of_nat i)) [0..<6]
        @ [ucast (drop_bit 8 type), ucast type]"
proof -
  let ?n = "sizeof_msgT + sizeof_EthernetHeader" and ?f = "eth_fill data dHost sHost type"
  have n: "unat ?n = 22" by (simp add: sizeof_msgT_def sizeof_EthernetHeader_def)
  from heap.alloc_fill [OF assms(1,4), of ?f] eth_fill_area n obtain p k s' where
    a: "malloc ?n s = Some (p, s')" "22 \<le> k" "unat p + k \<le> 2 ^ 32" "(p, k) \<notin> H \<union> S" "s' = s\<lparr>mem := mem s'\<rparr>"
      "heap_owns (s'\<lparr>mem := ?f p (mem s')\<rparr>) (insert (p, k) H) S" "same_areas (H \<union> S) (mem s) (?f p (mem s'))"
    by auto
  let ?t = "s\<lparr>mem := ?f p (mem s')\<rparr>" and ?g = "?f p (mem s')"
  have t: "s'\<lparr>mem := ?g\<rparr> = ?t" by (rule mem_only(1) [OF a(5)])
  have ok: "areas_ok (insert (p, k) H \<union> S)" by (rule heap.areas [OF a(6)])
  have ap: "apart p k dHost 6" "apart p k sHost 6"
    by (rule areas_apart [OF ok]; use assms(2,3) a(4) in auto)+
  note B = eth_fill_bytes [OF a(3,2) ap, where data = data and type = type and m = "mem s'"]
  have src: "mem s' (x + of_nat i) = mem s (x + of_nat i)" if "(x, 6) \<in> S" "i < 6" for x i
  proof -
    have r: "in_range x 6 (x + of_nat i)"
      by (rule in_range_offset [OF areas_bound [OF ok]]) (use that in auto)
    have "apart p k x 6" by (rule areas_apart [OF ok]) (use that(1) a(4) in auto)
    then have "\<not> in_range p k (x + of_nat i)" by (rule apart_not_range) (rule r)
    then have "?g (x + of_nat i) = mem s' (x + of_nat i)"
      by (rule only_areaD [OF eth_fill_area [OF a(3,2)]])
    then show ?thesis using same_areasD [OF a(7) _ r] that(1) by simp
  qed
  have "map (\<lambda>i. ?g (msg_msg p + of_nat i)) [0..<14]
      = map (\<lambda>i. ?g (p + of_nat (6 + i))) [0..<6] @ map (\<lambda>i. ?g (p + of_nat (12 + i))) [0..<6] @ [?g (p + 18), ?g (p + 19)]"
    unfolding upt_14 by (simp add: msg_msg_def add.assoc)
  moreover have "map (\<lambda>i. ?g (p + of_nat (6 + i))) [0..<6] = map (\<lambda>i. mem s (dHost + of_nat i)) [0..<6]"
    by (rule map_cong [OF refl]) (use B(1) src [OF assms(2)] in simp)
  moreover have "map (\<lambda>i. ?g (p + of_nat (12 + i))) [0..<6] = map (\<lambda>i. mem s (sHost + of_nat i)) [0..<6]"
    by (rule map_cong [OF refl]) (use B(2) src [OF assms(3)] in simp)
  ultimately have "map (\<lambda>i. ?g (msg_msg p + of_nat i)) [0..<14]
      = map (\<lambda>i. mem s (dHost + of_nat i)) [0..<6] @ map (\<lambda>i. mem s (sHost + of_nat i)) [0..<6]
        @ [ucast (drop_bit 8 type), ucast type]"
    using B(3,4) by (simp only: htons_bytes)
  moreover have "ethSend e data dHost sHost type s = do { s \<leftarrow> neSend (dev e) p ?t; Some (0, s) }"
    using a(1) t by (simp add: ethSend_fill)
  ultimately show ?thesis
    using a(2,4,6,7) B(5,6) t by (intro exI [of _ p] exI [of _ k] exI [of _ ?t] conjI) simp_all
qed

section \<open>Witness\<close>

text \<open>Surroundings whose functions do nothing, for the witnesses.\<close>

definition sample_env :: net_env where
  "sample_env = \<lparr>dev = \<lambda>_ _. 0x40, localMac = 0x7000, mac_at = 0x7010, recv_at = 0x6000, dHost_at = 0x7020,
     key_at = 0x7030, hello_at = 0x7040, newList = \<lambda>_ _ _. None, list_find = \<lambda>_ _ _. None,
     list_add = \<lambda>_ _ _. None, interrupts = Some\<rparr>"

lemma queue_machine_addresses: "heap_owns queue_machine {(0x400010, 100)} {(0x7000, 6), (0x7020, 6)}"
proof -
  have "heap_owns block_machine {(0x400010, 100)} {(0x7000, 6), (0x7020, 6)}"
    unfolding heap_owns_def
    by (intro exI [of _ "[0x400074]"] exI [of _ "{0x400000}"])
      (simp add: block_machine_ok payload_def block_machine_fields sizeof_mlT_def areas_ok_def clear_of_def
        apart_def ext_def)
  then show ?thesis by (rule heap.others) (simp_all add: block_machine_fields)
qed

theorem ethSend_frame_witness:
  "\<exists>msg t. ethSend sample_env 0x5000 0x7020 0x7000 0x0806 queue_machine
      = do { s \<leftarrow> neSend (\<lambda>_ _. 0x40) msg t; Some (0, s) }
    \<and> msg_next (mem t) msg = 0x5000 \<and> mem t (msg_msg msg + 12) = 0x08 \<and> mem t (msg_msg msg + 13) = 0x06"
proof -
  have f: "heap_fits queue_machine (sizeof_msgT + sizeof_EthernetHeader)"
    by (rule queue_machine_fits) (simp_all add: sizeof_msgT_def sizeof_EthernetHeader_def)
  from ethSend_frame [OF queue_machine_addresses _ _ f, of "0x7020" "0x7000" sample_env "0x5000" "0x0806"]
  obtain msg t where "ethSend sample_env 0x5000 0x7020 0x7000 0x0806 queue_machine
      = do { s \<leftarrow> neSend (dev sample_env) msg t; Some (0, s) }" "msg_next (mem t) msg = 0x5000"
    and l: "map (\<lambda>i. mem t (msg_msg msg + of_nat i)) [0..<14]
      = map (\<lambda>i. mem queue_machine (0x7020 + of_nat i)) [0..<6]
        @ map (\<lambda>i. mem queue_machine (0x7000 + of_nat i)) [0..<6] @ [ucast (drop_bit 8 (0x0806 :: u16)), ucast (0x0806 :: u16)]"
    by auto
  moreover have "mem t (msg_msg msg + 12) = 0x08" "mem t (msg_msg msg + 13) = 0x06"
    using arg_cong [OF l, of "\<lambda>l. l ! 12"] arg_cong [OF l, of "\<lambda>l. l ! 13"]
    by (simp_all add: nth_append drop_bit_eq_div)
  ultimately show ?thesis by (auto simp: sample_env_def)
qed

end
