(* ===== verification/Arp.thy ===== *)
theory Arp
  imports Ethernet
begin

text \<open>
  \<open>net/arp.c\<close>: address resolution. The table of known hosts is a list object of \<open>glib\<close>, whose
  elements are heap blocks of an IP address and six bytes of hardware address.
\<close>

unbundle bit_operations_syntax

section \<open>The code\<close>

definition hostIp :: u32 where "hostIp = 0xc0a801c7"

definition ARPHRD_ETHER :: u16 where "ARPHRD_ETHER = 1"
definition ARPOP_REQUEST :: u16 where "ARPOP_REQUEST = 1"
definition ARPOP_REPLY :: u16 where "ARPOP_REPLY = 2"

text \<open>\<open>ARPTableT\<close>: \<open>ip\<close>, then \<open>mac\<close>; padded to twelve bytes.\<close>

definition sizeof_ARPTableT :: u32 where "sizeof_ARPTableT = 12"
definition item_ip :: "mem \<Rightarrow> u32 \<Rightarrow> u32" where "item_ip m p = load32 m p"
definition item_mac :: "u32 \<Rightarrow> u32" where "item_mac p = p + 4"

text \<open>\<open>ARPHeader\<close>, packed: addresses at 8 and 14, 18 and 24.\<close>

definition arp_protocolType :: "mem \<Rightarrow> u32 \<Rightarrow> u16" where "arp_protocolType m p = load16 m (p + 2)"
definition arp_sHost :: "u32 \<Rightarrow> u32" where "arp_sHost p = p + 8"
definition arp_sIP :: "mem \<Rightarrow> u32 \<Rightarrow> u32" where "arp_sIP m p = load32 m (p + 14)"
definition arp_dHost :: "u32 \<Rightarrow> u32" where "arp_dHost p = p + 18"
definition arp_dIP :: "mem \<Rightarrow> u32 \<Rightarrow> u32" where "arp_dIP m p = load32 m (p + 24)"

text \<open>The assignment of a compound literal: the fields named, the others zero.\<close>

definition arp_header :: "u32 \<Rightarrow> u16 \<Rightarrow> u32 \<Rightarrow> mem \<Rightarrow> mem" where
  "arp_header p op dip m =
     (let m = fill_bytes 28 p 0 m;
          m = store16 m p (htons ARPHRD_ETHER);
          m = store16 m (p + 2) (htons ETHERTYPE_IP);
          m = m(p + 4 := ucast ETH_ALEN);
          m = m(p + 5 := 4);
          m = store16 m (p + 6) (htons op)
      in store32 m (p + 24) dip)"

definition arpRequest :: "net_env \<Rightarrow> u32 \<Rightarrow> machine \<Rightarrow> machine option" where
  "arpRequest e ip s =
     (let s = s\<lparr>mem := fill_bytes 6 (dHost_at e) 0xff (mem s)\<rparr>
      in do { (msg, s) \<leftarrow> malloc (sizeof_msgT + 60) s;
              let s = set_msg_len msg 60 s;
                  s = set_msg_next msg 0 s;
                  arpHeader = msg_msg msg;
                  s = s\<lparr>mem := arp_header arpHeader ARPOP_REQUEST ip (mem s)\<rparr>;
                  s = s\<lparr>mem := snd (memcpy (mem s) (arp_sHost arpHeader) (localMac e) ETH_ALEN)\<rparr>;
                  s = put32 (arpHeader + 14) (htonl hostIp) s
              in do { (r, s) \<leftarrow> ethSend e msg (dHost_at e) (localMac e) ETHERTYPE_ARP s; Some s } })"

definition arpReply :: "net_env \<Rightarrow> u32 \<Rightarrow> machine \<Rightarrow> machine option" where
  "arpReply e arp s =
     (let s = s\<lparr>mem := fill_bytes 6 (dHost_at e) 0xff (mem s)\<rparr>
      in do { (msg, s) \<leftarrow> malloc (sizeof_msgT + 60) s;
              let s = set_msg_len msg 60 s;
                  s = set_msg_next msg 0 s;
                  arpHeader = msg_msg msg;
                  s = s\<lparr>mem := arp_header arpHeader ARPOP_REPLY (arp_sIP (mem s) arp) (mem s)\<rparr>;
                  s = s\<lparr>mem := snd (memcpy (mem s) (arp_dHost arpHeader) (arp_dHost arp) ETH_ALEN)\<rparr>;
                  s = s\<lparr>mem := snd (memcpy (mem s) (arp_sHost arpHeader) (localMac e) ETH_ALEN)\<rparr>;
                  s = put32 (arpHeader + 14) (ucast (shortSwap hostIp)) s
              in do { (r, s) \<leftarrow> ethSend e msg (dHost_at e) (localMac e) ETHERTYPE_ARP s; Some s } })"

text \<open>The two callbacks the table is created with.\<close>

definition freeArpTable :: "u32 \<Rightarrow> machine \<Rightarrow> machine option" where
  "freeArpTable item s = (if item \<noteq> 0 then free (get32 s item) s else Some s)"

definition ipCompare :: "mem \<Rightarrow> u32 \<Rightarrow> u32 \<Rightarrow> u32" where
  "ipCompare m d s = (if s \<noteq> 0 \<and> d \<noteq> 0 then item_ip m d - item_ip m s else 1)"

text \<open>\<open>&(ARPTableT){ip,{0}}\<close>, built where the compiler keeps it.\<close>

definition key_literal :: "net_env \<Rightarrow> u32 \<Rightarrow> machine \<Rightarrow> machine" where
  "key_literal e ip s =
     s\<lparr>mem := fill_bytes 6 (item_mac (key_at e)) 0 (store32 (mem s) (key_at e) ip)\<rparr>"

definition ipToMac :: "net_env \<Rightarrow> u32 \<Rightarrow> machine \<Rightarrow> (u32 \<times> machine) option" where
  "ipToMac e ip s =
     do { s \<leftarrow> (if arpTable s = 0
               then do { (t, s) \<leftarrow> newList e freeArpTable ipCompare s;
                         let s = s\<lparr>arpTable := t\<rparr>
                         in if arpTable s = 0 then exit 1 s else Some s }
               else Some s);
          (node, s) \<leftarrow> (let s = key_literal e ip s in list_find e (arpTable s) (key_at e) s);
          (node, s) \<leftarrow> (if node = 0
               then do { s \<leftarrow> arpRequest e ip s;
                         s \<leftarrow> interrupts e s;
                         let s = key_literal e ip s in list_find e (arpTable s) (key_at e) s }
               else Some (node, s));
          Some (item_mac (get32 s node), s) }"

definition arpRecv :: "net_env \<Rightarrow> u32 \<Rightarrow> machine \<Rightarrow> machine option" where
  "arpRecv e arpHeader s =
     (if arpHeader = 0 then Some s
      else do { s \<leftarrow> (if arpTable s = 0
                     then do { (r, s) \<leftarrow> ipToMac e (arp_sIP (mem s) arpHeader) s; Some s }
                     else Some s);
                (node, s) \<leftarrow> (let s = key_literal e (arp_sIP (mem s) arpHeader) s
                              in list_find e (arpTable s) (key_at e) s);
                (item, s) \<leftarrow> (if node = 0
                     then do { (item, s) \<leftarrow> malloc sizeof_ARPTableT s;
                               if item = 0 then exit 1 s
                               else Some (item, put32 item (arp_sIP (mem s) arpHeader) s) }
                     else Some (0, s));
                let s = s\<lparr>mem := snd (memcpy (mem s) (item_mac item) (arp_sHost arpHeader) ETH_ALEN)\<rparr>;
                    s = snd (printk (literal ''ip: '' @ [27, 10] @ literal ''mac:'' @ [27])
                              ((!) [item_ip (mem s) item, scast (load16 (mem s) (item_mac item))]) s)
                in do { s \<leftarrow> list_add e (arpTable s) item s;
                        if hostIp = arp_dIP (mem s) arpHeader
                           \<and> ARPOP_REPLY = arp_protocolType (mem s) arpHeader
                        then arpReply e arpHeader s
                        else Some s } })"

section \<open>Printing beside the heap\<close>

lemma write_ch_globals:
  "mmList (write_ch ch s) = mmList s \<and> arpTable (write_ch ch s) = arpTable s"
  by (simp add: write_ch_def Let_def)

lemma printk_globals:
  "mmList (snd (printk str va s)) = mmList s \<and> arpTable (snd (printk str va s)) = arpTable s"
proof -
  have "mmList (fold write_ch cs s) = mmList s \<and> arpTable (fold write_ch cs s) = arpTable s" for cs
    by (induction cs arbitrary: s) (simp_all add: write_ch_globals)
  then show ?thesis by (simp add: printk_def printk_loop_fold)
qed

lemma printk_area:
  "con_ok s \<Longrightarrow> only_area 0xb8000 4002 (mem s) (mem (snd (printk str va s)))"
  using fold_write_ch_safe [of s] by (simp add: only_area_def printk_def printk_loop_fold)

lemma printk_owns:
  assumes "heap_owns s H S" and "(0xb8000, 4002) \<in> S" and "con_ok s"
  shows "heap_owns (snd (printk str va s)) H S
    \<and> same_areas (H \<union> S - {(0xb8000, 4002)}) (mem s) (mem (snd (printk str va s)))"
proof -
  have w: "heap_owns (s\<lparr>mem := mem (snd (printk str va s))\<rparr>) H S
    \<and> same_areas (H \<union> S - {(0xb8000, 4002)}) (mem s) (mem (snd (printk str va s)))"
    by (rule heap.write_frame [OF assms(1) _ printk_area [OF assms(3)]]) (use assms(2) in simp)
  then have "heap_owns (snd (printk str va s)) H S"
    by (intro heap.others [OF conjunct1 [OF w]]) (simp_all add: printk_globals)
  with w show ?thesis by blast
qed

section \<open>A table entry\<close>

definition fill_entry :: "u32 \<Rightarrow> u32 \<Rightarrow> u32 \<Rightarrow> mem \<Rightarrow> mem" where
  "fill_entry ip host item m = copy_bytes 6 (item_mac item) host (store32 m item ip)"

lemma fill_entry_area:
  assumes "unat p + k \<le> 2 ^ 32" and "unat sizeof_ARPTableT \<le> k"
  shows "only_area p k m (fill_entry ip host p m)"
proof -
  have k: "12 \<le> k" using assms(2) by (simp add: sizeof_ARPTableT_def)
  have u: "unat (p + 4) = unat p + 4" using unat_add_nat [of p 4] assms(1) k by simp
  have "only_area (p + 4) 6 m' (copy_bytes 6 (p + 4) host m')" for m' by (rule copy_area) (use u assms(1) k in simp)
  then have "only_area p k m' (copy_bytes 6 (p + 4) host m')" for m'
    by (rule only_area_sub) (use u k in simp_all)
  moreover have "only_area p k m (store32 m p ip)"
    using only_area_store32 [OF assms(1), of 0 m ip] k by simp
  ultimately show ?thesis unfolding fill_entry_def item_mac_def by (blast intro: only_area_trans)
qed

lemma fill_entry_fields:
  assumes "unat p + k \<le> 2 ^ 32" and "12 \<le> k" and "apart p k host 6"
  shows "item_ip (fill_entry ip host p m) p = ip"
    and "i < 6 \<Longrightarrow> fill_entry ip host p m (item_mac p + of_nat i) = m (host + of_nat i)"
proof -
  have u: "unat (p + 4) = unat p + 4" using unat_add_nat [of p 4] assms(1,2) by simp
  have "load32 (fill_entry ip host p m) p = load32 (store32 m p ip) p"
  proof (rule load32_cong)
    fix j :: nat
    assume j: "j < 4"
    have "unat (p + of_nat j) = unat p + j" by (rule unat_add_nat) (use assms j in simp)
    then have o: "\<not> in_range (p + 4) 6 (p + of_nat j)" using u j by (simp add: in_range_def)
    show "fill_entry ip host p m (p + of_nat j) = store32 m p ip (p + of_nat j)"
      unfolding fill_entry_def item_mac_def
      by (rule copy_bytes_frame [OF _ o]) (use u assms in simp)
  qed
  then show "item_ip (fill_entry ip host p m) p = ip" by (simp add: item_ip_def)
  assume i: "i < 6"
  have "fill_entry ip host p m (p + 4 + of_nat i) = store32 m p ip (host + of_nat i)"
    unfolding fill_entry_def item_mac_def
    by (rule copy_bytes_offset [OF _ _ _ i]) (use assms(3) u assms(1,2) in \<open>auto simp: apart_def\<close>)
  also have "\<dots> = m (host + of_nat i)"
  proof (rule store32_byte)
    show "apart p 4 (host + of_nat i) 1" by (rule apart_byte [OF apart_mono [OF assms(3)] i]) (use assms(2) in simp_all)
  qed
  finally show "fill_entry ip host p m (item_mac p + of_nat i) = m (host + of_nat i)" by (simp add: item_mac_def)
qed


section \<open>Learning an address\<close>

text \<open>The end of \<open>arpRecv\<close>, once the item is found or made.\<close>

definition arp_finish :: "net_env \<Rightarrow> u32 \<Rightarrow> u32 \<Rightarrow> machine \<Rightarrow> machine option" where
  "arp_finish e p item s =
     do { s \<leftarrow> list_add e (arpTable s) item s;
          if hostIp = arp_dIP (mem s) p \<and> ARPOP_REPLY = arp_protocolType (mem s) p
          then arpReply e p s else Some s }"

definition arp_print :: "u32 \<Rightarrow> machine \<Rightarrow> machine" where
  "arp_print item s = snd (printk (literal ''ip: '' @ [27, 10] @ literal ''mac:'' @ [27])
     ((!) [item_ip (mem s) item, scast (load16 (mem s) (item_mac item))]) s)"

lemma arpRecv_unknown:
  assumes "p \<noteq> 0" and "arpTable s \<noteq> 0"
    and "list_find e (arpTable s) (key_at e) (key_literal e (arp_sIP (mem s) p) s) = Some (0, t)"
    and "malloc sizeof_ARPTableT t = Some (item, u)" and "item \<noteq> 0"
  shows "arpRecv e p s = arp_finish e p item
    (arp_print item (u\<lparr>mem := fill_entry (arp_sIP (mem u) p) (arp_sHost p) item (mem u)\<rparr>))"
  using assms
  by (simp add: arpRecv_def key_literal_def arp_finish_def arp_print_def fill_entry_def memcpy_def ETH_ALEN_def Let_def
      del: copy_bytes.simps)

lemma arpRecv_known:
  assumes "p \<noteq> 0" and "arpTable s \<noteq> 0"
    and "list_find e (arpTable s) (key_at e) (key_literal e (arp_sIP (mem s) p) s) = Some (node, t)" and "node \<noteq> 0"
  shows "arpRecv e p s = arp_finish e p 0
    (arp_print 0 (t\<lparr>mem := copy_bytes 6 4 (arp_sHost p) (mem t)\<rparr>))"
  using assms
  by (simp add: arpRecv_def key_literal_def arp_finish_def arp_print_def memcpy_def ETH_ALEN_def item_mac_def Let_def
      del: copy_bytes.simps)

lemma key_literal_area:
  assumes "unat (key_at e) + 12 \<le> 2 ^ 32"
  shows "only_area (key_at e) 12 (mem s) (mem (key_literal e ip s))"
proof -
  have u: "unat (key_at e + 4) = unat (key_at e) + 4" using unat_add_nat [of "key_at e" 4] assms by simp
  have "only_area (key_at e + 4) 6 m (fill_bytes 6 (key_at e + 4) 0 m)" for m
    using in_range_iff [of "key_at e + 4" 6] u assms by (simp add: only_area_def fill_bytes_eq)
  then have "only_area (key_at e) 12 m (fill_bytes 6 (key_at e + 4) 0 m)" for m
    by (rule only_area_sub) (use u in simp_all)
  moreover have "only_area (key_at e) 12 (mem s) (store32 (mem s) (key_at e) ip)"
    using only_area_store32 [OF assms, of 0] by simp
  ultimately show ?thesis unfolding key_literal_def item_mac_def by (auto intro: only_area_trans)
qed

lemma arp_header_same:
  assumes "same_areas R m m'" and "(p, 28) \<in> R" and "areas_ok R"
  shows "arp_sIP m' p = arp_sIP m p"
    and "i < 6 \<Longrightarrow> m' (arp_sHost p + of_nat i) = m (arp_sHost p + of_nat i)"
proof -
  have s: "\<And>a. in_range p 28 a \<Longrightarrow> m' a = m a" by (rule same_areasD [OF assms(1,2)])
  have b: "unat p + 28 \<le> 2 ^ 32" by (rule areas_bound [OF assms(3,2)])
  show "arp_sIP m' p = arp_sIP m p" using load32_same [OF s b, where i = 14] by (simp add: arp_sIP_def)
  assume i: "i < 6"
  have "in_range p 28 (p + of_nat (8 + i))" by (rule in_range_offset [OF b]) (use i in simp)
  from s [OF this] show "m' (arp_sHost p + of_nat i) = m (arp_sHost p + of_nat i)"
    by (simp add: arp_sHost_def add.assoc)
qed


section \<open>Properties\<close>

text \<open>
  C19: \<open>arpRecv\<close> learns an address. For a packet from a host the table does not know, the item
  handed to the table is a new heap block with the sender's IP and hardware address from the
  packet; besides it, only the search key and the screen have changed of what anybody owns. The
  list library is assumed to answer the search with a null node and no other effect.
\<close>

theorem arpRecv_learns:
  assumes "heap_owns s H S" and "heap_fits s sizeof_ARPTableT" and "con_ok s"
    and "(p, 28) \<in> H \<union> S" and "(key_at e, 12) \<in> S" and "(0xb8000, 4002) \<in> S"
    and "p \<noteq> 0" and "p \<noteq> key_at e" and "p \<noteq> 0xb8000" and "arpTable s \<noteq> 0"
    and "list_find e (arpTable s) (key_at e) (key_literal e (arp_sIP (mem s) p) s)
      = Some (0, key_literal e (arp_sIP (mem s) p) s)"
  shows "\<exists>item k t. arpRecv e p s = arp_finish e p item t \<and> arpTable t = arpTable s
    \<and> heap_owns t (insert (item, k) H) S \<and> (item, k) \<notin> H \<union> S \<and> unat sizeof_ARPTableT \<le> k
    \<and> item_ip (mem t) item = arp_sIP (mem s) p
    \<and> (\<forall>i < 6. mem t (item_mac item + of_nat i) = mem s (arp_sHost p + of_nat i))
    \<and> same_areas (H \<union> S - {(key_at e, 12), (0xb8000, 4002)}) (mem s) (mem t)"
proof -
  let ?ip = "arp_sIP (mem s) p" and ?R = "H \<union> S - {(key_at e, 12), (0xb8000, 4002)}"
  define s1 where "s1 = key_literal e ?ip s"
  have s1: "s1 = s\<lparr>mem := mem s1\<rparr>" by (simp add: s1_def key_literal_def)
  have ok: "areas_ok (H \<union> S)" by (rule heap.areas [OF assms(1)])
  have kb: "unat (key_at e) + 12 \<le> 2 ^ 32" by (rule areas_bound [OF ok]) (use assms(5) in simp)
  have ka: "only_area (key_at e) 12 (mem s) (mem s1)" unfolding s1_def by (rule key_literal_area [OF kb])
  have kin: "(key_at e, 12) \<in> H \<union> S" using assms(5) by simp
  have o1: "heap_owns s1 H S" "same_areas (H \<union> S - {(key_at e, 12)}) (mem s) (mem s1)"
    using heap.write_frame [OF assms(1) kin ka] s1 by metis+
  have f1: "heap_fits s1 sizeof_ARPTableT"
    using heap.fits_write [OF assms(1) kin ka assms(2)] s1 by metis
  from heap.alloc_fill [OF o1(1) f1, of "fill_entry ?ip (arp_sHost p)"] fill_entry_area obtain item k s2 where
    a: "malloc sizeof_ARPTableT s1 = Some (item, s2)" "item \<noteq> 0" "unat sizeof_ARPTableT \<le> k"
      "unat item + k \<le> 2 ^ 32" "(item, k) \<notin> H \<union> S" "s2 = s1\<lparr>mem := mem s2\<rparr>"
      "heap_owns (s2\<lparr>mem := fill_entry ?ip (arp_sHost p) item (mem s2)\<rparr>) (insert (item, k) H) S"
      "same_areas (H \<union> S) (mem s1) (fill_entry ?ip (arp_sHost p) item (mem s2))"
    by metis
  let ?f = "fill_entry ?ip (arp_sHost p) item (mem s2)" and ?c = "(0xb8000, 4002) :: area"
  have k: "12 \<le> k" using a(3) by (simp add: sizeof_ARPTableT_def)
  define s3 where "s3 = s\<lparr>mem := ?f\<rparr>"
  have s3: "s2\<lparr>mem := ?f\<rparr> = s3" "mem s3 = ?f" "arpTable s3 = arpTable s"
    using mem_only(1) [OF a(6)] mem_only(1) [OF s1] by (simp_all add: s3_def)
  have o3: "heap_owns s3 (insert (item, k) H) S" using a(7) by (simp only: s3(1))
  have ok3: "areas_ok (insert (item, k) H \<union> S)" by (rule heap.areas [OF o3])
  have "only_area item k (mem s2) ?f" by (rule fill_entry_area [OF a(4,3)])
  then have "same_areas (insert (item, k) H \<union> S - {(item, k)}) (mem s2) ?f"
    by (rule only_area_others [OF ok3, rotated]) simp
  then have m0: "same_areas (insert (item, k) H \<union> S - {(item, k)}) (mem s2) ?f" .
  have "same_areas (H \<union> S) ?f (mem s2)"
    by (rule same_areas_mono [OF same_areas_sym [OF m0]]) (use a(5) in auto)
  with a(8) have m2: "same_areas (H \<union> S) (mem s1) (mem s2)" by (rule same_areas_trans)
  then have m: "same_areas (H \<union> S - {(key_at e, 12)}) (mem s) (mem s2)"
    by (rule same_areas_trans [OF o1(2) same_areas_mono]) auto
  have pin: "(p, 28) \<in> H \<union> S - {(key_at e, 12)}" using assms(4,8) by simp
  have okp: "areas_ok (H \<union> S - {(key_at e, 12)})" by (rule areas_ok_mono [OF ok]) auto
  note hd = arp_header_same [OF m pin okp]
  have "apart item k p 28" by (rule areas_apart [OF ok3]) (use assms(4) a(5) in auto)
  then have ap: "apart item k (arp_sHost p) 6"
    using areas_bound [OF ok assms(4)] unat_add_nat [of p 8] by (auto simp: apart_def arp_sHost_def)
  define t where "t = arp_print item s3"
  have cs: "con_ok s3" using assms(3) by (simp add: con_ok_def s3_def)
  have T: "heap_owns t (insert (item, k) H) S" "same_areas (insert (item, k) H \<union> S - {?c}) ?f (mem t)"
    using printk_owns [OF o3 assms(6) cs] unfolding t_def arp_print_def s3(2) by blast+
  have "arpRecv e p s = arp_finish e p item t"
    using arpRecv_unknown [OF assms(7,10,11) a(1) [unfolded s1_def] a(2)] hd(1) s3(1) by (simp add: t_def)
  moreover have tab: "arpTable t = arpTable s" by (simp add: t_def arp_print_def printk_globals s3(3))
  moreover have iin: "(item, k) \<in> insert (item, k) H \<union> S - {?c}" using a(5) assms(6) by auto
  have it: "\<And>x. in_range item k x \<Longrightarrow> mem t x = ?f x" by (rule same_areasD [OF T(2) iin])
  note F = fill_entry_fields [OF a(4) k ap, where ip = ?ip and m = "mem s2"]
  have "item_ip (mem t) item = ?ip"
    using load32_same [OF it a(4), where i = 0] k F(1) by (simp add: item_ip_def)
  moreover have "mem t (item_mac item + of_nat i) = mem s (arp_sHost p + of_nat i)" if i: "i < 6" for i
  proof -
    have "in_range item k (item + of_nat (4 + i))" by (rule in_range_offset [OF a(4)]) (use i k in simp)
    from it [OF this] have "mem t (item_mac item + of_nat i) = ?f (item_mac item + of_nat i)"
      by (simp add: item_mac_def add.assoc)
    then show ?thesis using F(2) [OF i] hd(2) [OF i] by simp
  qed
  moreover have "same_areas ?R (mem s) (mem t)"
  proof (rule same_areas_trans [OF same_areas_trans])
    show "same_areas ?R (mem s) (mem s1)" by (rule same_areas_mono [OF o1(2)]) auto
    show "same_areas ?R (mem s1) ?f" by (rule same_areas_mono [OF a(8)]) auto
    show "same_areas ?R ?f (mem t)" by (rule same_areas_mono [OF T(2)]) auto
  qed
  ultimately show ?thesis using T(1) a(3,5) by blast
qed

text \<open>
  C28: \<open>arpRecv\<close> and a host the table knows. When the search finds a node, the item stays null: the
  sender's hardware address is written to the addresses 4 to 9, and the null item is added to the
  table.
\<close>

theorem arpRecv_known_overwrites:
  assumes "con_ok s" and "p \<noteq> 0" and "arpTable s \<noteq> 0"
    and "list_find e (arpTable s) (key_at e) (key_literal e (arp_sIP (mem s) p) s)
      = Some (node, key_literal e (arp_sIP (mem s) p) s)" and "node \<noteq> 0"
    and "apart (key_at e) 12 (arp_sHost p) 6" and "apart 4 6 (arp_sHost p) 6"
  shows "\<exists>t. arpRecv e p s = arp_finish e p 0 t \<and> arpTable t = arpTable s
    \<and> (\<forall>i < 6. mem t (4 + of_nat i) = mem s (arp_sHost p + of_nat i))"
proof -
  let ?s1 = "key_literal e (arp_sIP (mem s) p) s"
  let ?m = "copy_bytes 6 4 (arp_sHost p) (mem ?s1)"
  let ?t = "arp_print 0 (?s1\<lparr>mem := ?m\<rparr>)"
  have kb: "unat (key_at e) + 12 \<le> 2 ^ 32" using assms(6) by (simp add: apart_def)
  have cs: "con_ok (?s1\<lparr>mem := ?m\<rparr>)" using assms(1) by (simp add: con_ok_def key_literal_def)
  have "mem ?t (4 + of_nat i) = mem s (arp_sHost p + of_nat i)" if i: "i < 6" for i
  proof -
    have u: "unat (4 + of_nat i :: u32) = 4 + i" using unat_add_nat [of 4 i] i by simp
    have "\<not> in_range 0xb8000 4002 (4 + of_nat i)" using u i by (simp add: in_range_def)
    then have "mem ?t (4 + of_nat i) = ?m (4 + of_nat i)"
      using only_areaD [OF printk_area [OF cs]] unfolding arp_print_def by simp
    also have "\<dots> = mem ?s1 (arp_sHost p + of_nat i)"
      by (rule copy_bytes_offset [OF _ _ _ i]) (use assms(7) in \<open>auto simp: apart_def\<close>)
    also have "\<dots> = mem s (arp_sHost p + of_nat i)"
    proof (rule only_areaD [OF key_literal_area [OF kb]])
      have "in_range (arp_sHost p) 6 (arp_sHost p + of_nat i)"
        by (rule in_range_offset) (use assms(6) i in \<open>simp_all add: apart_def\<close>)
      then show "\<not> in_range (key_at e) 12 (arp_sHost p + of_nat i)" by (rule apart_not_range [OF assms(6)])
    qed
    finally show ?thesis .
  qed
  moreover have "arpTable ?t = arpTable s" by (simp add: arp_print_def printk_globals key_literal_def)
  ultimately show ?thesis using arpRecv_known [OF assms(2-5)] by blast
qed

text \<open>
  An ARP request is never answered. The answer depends on the protocol type field, which in
  any ARP packet for IPv4 holds the bytes 8 and 0, so that whatever the packet asks for,
  \<open>arpRecv\<close> ends with the addition to the table; nothing is sent.
\<close>

theorem arp_request_unanswered:
  assumes "\<And>t' i. list_add e (arpTable t) item t = Some t' \<Longrightarrow> i < 28
      \<Longrightarrow> mem t' (p + of_nat i) = mem t (p + of_nat i)"
    and "mem t (p + 2) = 8" and "mem t (p + 3) = 0"
  shows "arp_finish e p item t = list_add e (arpTable t) item t"
proof (cases "list_add e (arpTable t) item t")
  case (Some t')
  have "mem t' (p + 2) = 8" "mem t' (p + 2 + 1) = 0"
    using assms(1) [OF Some, of 2] assms(1) [OF Some, of 3] assms(2,3) by (simp_all add: add.assoc)
  then have "arp_protocolType (mem t') p = 8" by (simp add: arp_protocolType_def load16_def)
  then show ?thesis using Some by (simp add: arp_finish_def ARPOP_REPLY_def)
qed (simp add: arp_finish_def)

text \<open>
  \<open>ipToMac\<close> of a host that does not answer. If the table finds no node before the request, nor
  after the delay, the result is four more than the word at address 0: \<open>ipToMac\<close> reads the element
  of a null node. It never reports the failure.
\<close>

theorem ipToMac_unanswered:
  assumes "arpTable s \<noteq> 0" and "\<And>t k m. list_find e t k m = Some (0, m)"
  shows "ipToMac e ip s =
    do { t \<leftarrow> arpRequest e ip (key_literal e ip s);
         t \<leftarrow> interrupts e t;
         Some (get32 (key_literal e ip t) 0 + 4, key_literal e ip t) }"
  using assms by (simp add: ipToMac_def Let_def item_mac_def)


section \<open>Witnesses\<close>

text \<open>
  Surroundings whose list library answers every search with the node it is given here, and adds
  nothing.
\<close>

definition list_env :: "u32 \<Rightarrow> net_env" where
  "list_env node = sample_env\<lparr>list_find := \<lambda>_ _ s. Some (node, s), list_add := \<lambda>_ _ s. Some s\<rparr>"

definition arp_machine :: machine where
  "arp_machine = queue_machine\<lparr>arpTable := 0x7100\<rparr>"

lemma arp_machine_owns: "heap_owns arp_machine {(0x400010, 100)} {(0x6000, 28), (0x7030, 12), (0xb8000, 4002)}"
proof -
  have "heap_owns block_machine {(0x400010, 100)} {(0x6000, 28), (0x7030, 12), (0xb8000, 4002)}"
    unfolding heap_owns_def
    by (intro exI [of _ "[0x400074]"] exI [of _ "{0x400000}"])
      (simp add: block_machine_ok payload_def block_machine_fields sizeof_mlT_def areas_ok_def clear_of_def
        apart_def ext_def)
  then show ?thesis by (rule heap.others) (simp_all add: block_machine_fields arp_machine_def)
qed

lemma arp_machine_simps [simp]: "arpTable arp_machine = 0x7100" "con_ok arp_machine"
  by (simp_all add: arp_machine_def con_ok_def queue_machine_def block_machine_def free_machine_def boot_machine_def)

theorem arpRecv_learns_witness:
  "\<exists>item t. arpRecv (list_env 0) 0x6000 arp_machine = Some t
    \<and> item_ip (mem t) item = arp_sIP (mem arp_machine) 0x6000"
proof -
  have f: "heap_fits arp_machine sizeof_ARPTableT"
    using heap.fits_other [OF queue_machine_fits [of sizeof_ARPTableT], of arp_machine]
    by (simp add: sizeof_ARPTableT_def arp_machine_def)
  from arpRecv_learns [OF arp_machine_owns f, of "0x6000" "list_env 0"] obtain item k t where
    r: "arpRecv (list_env 0) 0x6000 arp_machine = arp_finish (list_env 0) 0x6000 item t"
      "item_ip (mem t) item = arp_sIP (mem arp_machine) 0x6000"
      "same_areas ({(0x400010, 100)} \<union> {(0x6000, 28), (0x7030, 12), (0xb8000, 4002)} - {(0x7030, 12), (0xb8000, 4002)})
        (mem arp_machine) (mem t)"
    by (auto simp: list_env_def sample_env_def)
  have "mem t a = 0" if "in_range 0x6000 28 a" for a
  proof -
    have "mem t a = mem arp_machine a" by (rule same_areasD [OF r(3) _ that]) auto
    also have "\<dots> = 0"
      using that by (simp add: arp_machine_def block_machine_def store32_byte apart_def in_range_def
          free_machine_def boot_machine_def)
    finally show ?thesis .
  qed
  then have "arp_dIP (mem t) 0x6000 = 0"
    by (simp add: arp_dIP_def load32_def in_range_def)
  then have "arp_finish (list_env 0) 0x6000 item t = Some t"
    by (simp add: arp_finish_def list_env_def hostIp_def)
  with r(1,2) show ?thesis by auto
qed

theorem arpRecv_known_overwrites_witness:
  "\<exists>t. arpRecv (list_env 0x8000) 0x6000 (arp_machine\<lparr>mem := (\<lambda>_. 0)(0x6008 := 0x77)\<rparr>)
      = arp_finish (list_env 0x8000) 0x6000 0 t \<and> mem t 4 = 0x77"
proof -
  let ?s = "arp_machine\<lparr>mem := (\<lambda>_. 0)(0x6008 := 0x77)\<rparr>"
  have "con_ok ?s" using arp_machine_simps(2) by (simp add: con_ok_def)
  from arpRecv_known_overwrites [OF this, of "0x6000" "list_env 0x8000" "0x8000"] obtain t where
    r: "arpRecv (list_env 0x8000) 0x6000 ?s = arp_finish (list_env 0x8000) 0x6000 0 t"
    "\<forall>i < 6. mem t (4 + of_nat i) = mem ?s (arp_sHost 0x6000 + of_nat i)"
    by (auto simp: list_env_def sample_env_def arp_sHost_def apart_def)
  from r(2) [rule_format, of 0] have "mem t 4 = 0x77" by (simp add: arp_sHost_def)
  with r(1) show ?thesis by blast
qed

theorem arp_request_unanswered_witness:
  "arp_finish (list_env 0) 0x6000 0x7200 (arp_machine\<lparr>mem := (\<lambda>_. 0)(0x6002 := 8)\<rparr>)
    = Some (arp_machine\<lparr>mem := (\<lambda>_. 0)(0x6002 := 8)\<rparr>)"
  using arp_request_unanswered [of "list_env 0" "arp_machine\<lparr>mem := (\<lambda>_. 0)(0x6002 := 8)\<rparr>" "0x7200" "0x6000"]
  by (simp add: list_env_def)

theorem ipToMac_unanswered_witness:
  "ipToMac (list_env 0) 0x6501a8c0 arp_machine =
    do { t \<leftarrow> arpRequest (list_env 0) 0x6501a8c0 (key_literal (list_env 0) 0x6501a8c0 arp_machine);
         Some (get32 (key_literal (list_env 0) 0x6501a8c0 t) 0 + 4, key_literal (list_env 0) 0x6501a8c0 t) }"
  using ipToMac_unanswered [of arp_machine "list_env 0" "0x6501a8c0"]
  by (simp add: list_env_def sample_env_def)

end
