(* ===== verification/Ip.thy ===== *)
theory Ip
  imports Arp
begin

text \<open>\<open>net/ip.c\<close> and \<open>net/udp.c\<close>: the header checksum and the two send functions.\<close>

unbundle bit_operations_syntax

section \<open>The code\<close>

definition IPPOTO_UDP :: u16 where "IPPOTO_UDP = 17"

text \<open>The loop over \<open>lenght\<close> 16 bit words.\<close>

fun sum_words :: "mem \<Rightarrow> nat \<Rightarrow> u32 \<Rightarrow> u32 \<Rightarrow> u32" where
  "sum_words m 0 src tot = tot"
| "sum_words m (Suc n) src tot = sum_words m n (src + 2) (tot + ucast (load16 m src))"

definition checkSum :: "mem \<Rightarrow> u32 \<Rightarrow> int \<Rightarrow> u16" where
  "checkSum m src lenght =
     (let tot = sum_words m (nat lenght) src 0;
          tot = (tot AND 0xffff) + drop_bit 16 tot;
          tot = tot + drop_bit 16 tot
      in ucast (NOT tot))"

text \<open>The length of a chain of messages, added up in 16 bits.\<close>

partial_function (option) chain_len :: "mem \<Rightarrow> u32 \<Rightarrow> u16 \<Rightarrow> u16 option" where
  "chain_len m tmp len =
     (if tmp \<noteq> 0 then chain_len m (msg_next m tmp) (len + msg_len m tmp) else Some len)"

definition sizeof_IPDatagram :: u32 where "sizeof_IPDatagram = 20"

text \<open>
  The header at \<open>p\<close>. The bit fields of the first byte and of the flags word are allocated from
  the low bits up.
\<close>

definition ip_header :: "u32 \<Rightarrow> u16 \<Rightarrow> u16 \<Rightarrow> u32 \<Rightarrow> u32 \<Rightarrow> mem \<Rightarrow> mem" where
  "ip_header p len type sip dip m =
     (let m = snd (memset m p 20 0);
          m = m(p := (m p AND 0xF0) OR 5);
          m = m(p := (m p AND 0x0F) OR push_bit 4 4);
          m = store16 m (p + 2) (htons len);
          m = store16 m (p + 4) (htons 1);
          m = store16 m (p + 6) (load16 m (p + 6) AND 7);
          m = m(p + 8 := 60);
          m = m(p + 9 := ucast type);
          m = store32 m (p + 12) sip;
          m = store32 m (p + 16) dip
      in store16 m (p + 10) (checkSum m p 10))"

definition ipSend :: "net_env \<Rightarrow> u32 \<Rightarrow> u32 \<Rightarrow> u32 \<Rightarrow> u16 \<Rightarrow> machine \<Rightarrow> machine option" where
  "ipSend e dip sip data type s =
     do { (msg, s) \<leftarrow> malloc (sizeof_msgT + sizeof_IPDatagram) s;
          if msg = 0 then exit 1 s
          else let s = set_msg_len msg (ucast sizeof_IPDatagram) s;
                   s = set_msg_next msg data s
               in do { len \<leftarrow> chain_len (mem s) msg 0;
                       let s = s\<lparr>mem := ip_header (msg_msg msg) len type sip dip (mem s)\<rparr>
                       in do { (dHost, s) \<leftarrow> ipToMac e dip s;
                               (r, s) \<leftarrow> ethSend e msg dHost (localMac e) ETHERTYPE_IP s;
                               Some s } } }"

definition ipRecv :: "u32 \<Rightarrow> machine \<Rightarrow> machine" where "ipRecv ipDatagram s = s"

text \<open>\<open>UDPHeader\<close>: ports, length at 4, checksum at 6.\<close>

definition sizeof_UDPHeader :: u32 where "sizeof_UDPHeader = 8"

definition udpSend :: "net_env \<Rightarrow> u32 \<Rightarrow> u32 \<Rightarrow> u16 \<Rightarrow> u16 \<Rightarrow> machine \<Rightarrow> machine option" where
  "udpSend e data dIP dPort sPort s =
     do { (msg, s) \<leftarrow> malloc (sizeof_msgT + sizeof_UDPHeader) s;
          let s = set_msg_next msg data s;
              s = set_msg_len msg (ucast sizeof_UDPHeader) s;
              udpHeader = msg_msg msg;
              s = s\<lparr>mem := store16 (mem s) udpHeader sPort\<rparr>;
              s = s\<lparr>mem := store16 (mem s) (udpHeader + 2) dPort\<rparr>;
              s = s\<lparr>mem := store16 (mem s) (udpHeader + 4)
                     (shortSwap (sizeof_UDPHeader + ucast (msg_len (mem s) data)))\<rparr>;
              s = s\<lparr>mem := store16 (mem s) (udpHeader + 6) 0\<rparr>
          in ipSend e dIP (htonl hostIp) msg IPPOTO_UDP s }"

section \<open>The checksum\<close>

text \<open>The arithmetic sum of the words, and its fold to 16 bits in ones' complement.\<close>

definition word_sum :: "mem \<Rightarrow> u32 \<Rightarrow> nat \<Rightarrow> nat" where
  "word_sum m p n = (\<Sum>k<n. unat (load16 m (p + 2 * of_nat k)))"

definition fold16 :: "nat \<Rightarrow> nat" where
  "fold16 S = (if S = 0 then 0 else (S - 1) mod 65535 + 1)"

lemma unat_u16_bound: "unat w \<le> 65535" for w :: u16
proof -
  have "unat w < 2 ^ LENGTH(16)" by (rule unsigned_less)
  then show ?thesis by simp
qed

lemma word_sum_bound: "word_sum m p n \<le> n * 65535"
  using sum_bounded_above [of "{..<n}" "\<lambda>k. unat (load16 m (p + 2 * of_nat k))" 65535] unat_u16_bound
  by (simp add: word_sum_def)

lemma word_sum_Suc: "word_sum m p (Suc n) = unat (load16 m p) + word_sum m (p + 2) n"
  unfolding word_sum_def by (subst sum.lessThan_Suc_shift) (simp add: algebra_simps)

lemma sum_words_unat:
  "unat tot + n * 65535 < 2 ^ 32 \<Longrightarrow> unat (sum_words m n p tot) = unat tot + word_sum m p n"
proof (induction n arbitrary: p tot)
  case (Suc n)
  have "unat (tot + ucast (load16 m p)) = unat tot + unat (load16 m p)"
    using unat_add_nat [of tot "unat (load16 m p)"] Suc.prems unat_u16_bound [of "load16 m p"] by simp
  then show ?case
    using Suc.IH [of "tot + ucast (load16 m p)" "p + 2"] Suc.prems unat_u16_bound [of "load16 m p"]
    by (simp add: word_sum_Suc)
qed (simp add: word_sum_def)

lemma fold16_step:
  assumes "S < 2 ^ 32"
  defines "x \<equiv> S mod 65536 + S div 65536"
  shows "(x + x div 65536) mod 65536 = fold16 S"
proof -
  define q where "q = S div 65536"
  define r where "r = S mod 65536"
  have S: "S = 65536 * q + r" by (simp add: q_def r_def)
  have q: "q < 65536" using assms(1) by (simp add: q_def div_less_iff_less_mult)
  have r: "r < 65536" by (simp add: r_def)
  have x: "x = q + r" by (simp add: x_def q_def r_def)
  show ?thesis
  proof (cases "x = 0")
    case True
    then show ?thesis using S x by (simp add: fold16_def)
  next
    case False
    have "S - 1 = 65535 * q + (x - 1)" using S x False by simp
    then have "(S - 1) mod 65535 = (x - 1) mod 65535" by simp
    moreover have "S \<noteq> 0" using S x False by simp
    ultimately have f: "fold16 S = (x - 1) mod 65535 + 1" by (simp add: fold16_def)
    show ?thesis
    proof (cases "x < 65536")
      case True
      then have "fold16 S = x" using f False by simp
      then show ?thesis using True by simp
    next
      case big: False
      then have d: "x div 65536 = 1" using x q r by (simp add: div_nat_eqI)
      have "(x - 1) mod 65535 = x - 1 - 65535" using big x q r by (simp add: le_mod_geq)
      then have "fold16 S = x + 1 - 65536" using f big by simp
      moreover have "(x + 1) mod 65536 = x + 1 - 65536" using big x q r by (simp add: le_mod_geq)
      ultimately show ?thesis using d by simp
    qed
  qed
qed

lemma unat_not_u16: "unat (NOT w) = 65535 - unat w" for w :: u16
proof -
  have "NOT w = - 1 - w" by (simp add: not_eq_complement)
  moreover have "unat (- 1 - w) = unat (- 1 :: u16) - unat w"
    by (rule unat_sub) (simp add: word_le_nat_alt unsigned_minus_1_eq_mask mask_eq_exp_minus_1 unat_u16_bound)
  ultimately show ?thesis by (simp add: unsigned_minus_1_eq_mask mask_eq_exp_minus_1)
qed

lemma checkSum_fold:
  assumes "n \<le> 65536"
  shows "unat (checkSum m p (int n)) = 65535 - fold16 (word_sum m p n)"
proof -
  define S where "S = word_sum m p n"
  define t where "t = sum_words m n p 0"
  have b: "n * 65535 < 2 ^ 32" using assms by simp
  then have t: "unat t = S" using sum_words_unat [of 0 n m p] by (simp add: t_def S_def)
  have S: "S < 2 ^ 32" using word_sum_bound [of m p n] b by (simp add: S_def)
  have m16: "t AND 0xffff = t AND mask 16" by (simp add: mask_eq_exp_minus_1)
  define x where "x = S mod 65536 + S div 65536"
  have dq: "S div 65536 < 65536" using S by (simp add: div_less_iff_less_mult)
  have x2: "x < 2 * 65536" using dq by (simp add: x_def)
  define a where "a = (t AND 0xffff) + drop_bit 16 t"
  have "unat a = x"
  proof -
    have "unat (t AND 0xffff) = S mod 65536" "unat (drop_bit 16 t) = S div 65536"
      unfolding m16 using t by (simp_all add: unat_simps)
    then show ?thesis
      using unat_add_u32 [of "t AND 0xffff" "drop_bit 16 t"] x2 by (simp add: a_def x_def)
  qed
  moreover from this have "unat (drop_bit 16 a) = x div 65536" by (simp add: unat_simps)
  ultimately have u: "unat (a + drop_bit 16 a) = x + x div 65536"
    using unat_add_u32 [of a "drop_bit 16 a"] x2 div_le_dividend [of x 65536] by simp
  have "checkSum m p (int n) = ucast (NOT (a + drop_bit 16 a))"
    by (simp add: checkSum_def Let_def a_def t_def)
  also have "\<dots> = NOT (ucast (a + drop_bit 16 a))"
    by (rule bit_word_eqI) (simp add: bit_simps)
  finally have "unat (checkSum m p (int n)) = 65535 - unat (ucast (a + drop_bit 16 a) :: u16)"
    by (simp only: unat_not_u16)
  also have "unat (ucast (a + drop_bit 16 a) :: u16) = (x + x div 65536) mod 65536"
    using u by (simp add: unat_simps)
  also have "\<dots> = fold16 S" using fold16_step [OF S] by (simp add: x_def)
  finally show ?thesis by (simp only: S_def)
qed
text \<open>Filling in the checksum makes the sum fold to all ones.\<close>

lemma word_sum_store:
  assumes "i < n" and "unat p + 2 * n \<le> 2 ^ 32" and "load16 m (p + 2 * of_nat i) = 0"
  shows "word_sum (store16 m (p + 2 * of_nat i) c) p n = word_sum m p n + unat c"
proof -
  let ?m = "store16 m (p + 2 * of_nat i) c"
  have l: "load16 ?m (p + 2 * of_nat k) = load16 m (p + 2 * of_nat k)" if "k < n" "k \<noteq> i" for k
  proof (rule load16_store16_apart)
    have "unat (p + 2 * of_nat i) = unat p + 2 * i" "unat (p + 2 * of_nat k) = unat p + 2 * k"
      using unat_add_nat [of p "2 * i"] unat_add_nat [of p "2 * k"] assms(1,2) that by simp_all
    then show "apart (p + 2 * of_nat i) 2 (p + 2 * of_nat k) 2"
      using assms(1,2) that by (auto simp: apart_def)
  qed
  have "word_sum ?m p n = unat (load16 ?m (p + 2 * of_nat i))
      + (\<Sum>k \<in> {..<n} - {i}. unat (load16 ?m (p + 2 * of_nat k)))"
    unfolding word_sum_def by (rule sum.remove) (use assms(1) in simp_all)
  also have "(\<Sum>k \<in> {..<n} - {i}. unat (load16 ?m (p + 2 * of_nat k)))
      = (\<Sum>k \<in> {..<n} - {i}. unat (load16 m (p + 2 * of_nat k)))"
    by (rule sum.cong [OF refl]) (use l in simp)
  also have "\<dots> = word_sum m p n"
    unfolding word_sum_def using sum.remove [of "{..<n}" i "\<lambda>k. unat (load16 m (p + 2 * of_nat k))"] assms(1,3)
    by simp
  finally show ?thesis by simp
qed

lemma fold16_complement:
  assumes "0 < S"
  shows "fold16 (S + (65535 - fold16 S)) = 65535"
proof -
  define k where "k = (S - 1) div 65535"
  have f: "fold16 S = (S - 1) mod 65535 + 1" using assms by (simp add: fold16_def)
  then have le: "fold16 S \<le> 65535" using mod_less_divisor [of 65535 "S - 1"] by linarith
  have "S - 1 = 65535 * k + (S - 1) mod 65535" by (simp add: k_def)
  then have "S = 65535 * k + fold16 S" using f assms by linarith
  then have e: "S + (65535 - fold16 S) = 65535 * k + 65534 + 1" using le by linarith
  have "fold16 (65535 * k + 65534 + 1) = 65535" by (simp add: fold16_def)
  then show ?thesis by (simp only: e)
qed

lemma checkSum_verifies:
  assumes "i < n" and "n \<le> 65536" and "unat p + 2 * n \<le> 2 ^ 32"
    and "load16 m (p + 2 * of_nat i) = 0" and "0 < word_sum m p n"
  shows "checkSum (store16 m (p + 2 * of_nat i) (checkSum m p (int n))) p (int n) = 0"
proof -
  let ?m = "store16 m (p + 2 * of_nat i) (checkSum m p (int n))"
  have "word_sum ?m p n = word_sum m p n + (65535 - fold16 (word_sum m p n))"
    unfolding word_sum_store [OF assms(1,3,4)] checkSum_fold [OF assms(2)] ..
  then have "unat (checkSum ?m p (int n)) = 0"
    unfolding checkSum_fold [OF assms(2)] using fold16_complement [OF assms(5)] by simp
  then show ?thesis by (simp add: unat_eq_0)
qed

section \<open>The header \<open>ipSend\<close> builds\<close>




section \<open>Properties\<close>

text \<open>
  C21: \<open>checkSum\<close> of up to 65536 words is the Internet checksum: the complement of the words' sum
  folded with end-around carry. A header whose check field held zero when the sum was taken and
  then received the result is accepted: its own checksum is zero.
\<close>

theorem checkSum_internet:
  assumes "n \<le> 65536"
  shows "unat (checkSum m p (int n)) = 65535 - fold16 (word_sum m p n)
    \<and> (\<forall>i < n. unat p + 2 * n \<le> 2 ^ 32 \<and> load16 m (p + 2 * of_nat i) = 0 \<and> 0 < word_sum m p n
        \<longrightarrow> checkSum (store16 m (p + 2 * of_nat i) (checkSum m p (int n))) p (int n) = 0)"
  using checkSum_fold [OF assms] checkSum_verifies assms by blast


section \<open>Witnesses\<close>

theorem checkSum_internet_witness:
  "unat (checkSum ((\<lambda>_. 0)(0x5000 := 1, 0x5001 := 2)) 0x5000 (int 2)) = 0xfdfe
   \<and> checkSum (store16 ((\<lambda>_. 0)(0x5000 := 1, 0x5001 := 2)) (0x5000 + 2 * of_nat 1)
       (checkSum ((\<lambda>_. 0)(0x5000 := 1, 0x5001 := 2)) 0x5000 (int 2))) 0x5000 (int 2) = 0"
proof -
  let ?m = "(\<lambda>_. 0)(0x5000 := 1, 0x5001 := 2) :: mem"
  have two: "{..<2 :: nat} = {0, 1}" by auto
  have l: "load16 ?m 0x5000 = 0x201" "load16 ?m (0x5000 + 2 * of_nat 1) = 0"
    by (simp_all add: load16_def push_bit_eq_mult)
  have s: "word_sum ?m 0x5000 2 = 0x201"
    unfolding word_sum_def two using l by simp
  have f: "fold16 0x201 = 0x201" by (simp add: fold16_def)
  have n: "(2 :: nat) \<le> 65536" by simp
  note t = checkSum_internet [OF n, of ?m "0x5000"]
  show ?thesis
  proof
    show "unat (checkSum ?m 0x5000 (int 2)) = 0xfdfe" using conjunct1 [OF t] unfolding s f by simp
    show "checkSum (store16 ?m (0x5000 + 2 * of_nat 1) (checkSum ?m 0x5000 (int 2))) 0x5000 (int 2) = 0"
      by (rule conjunct2 [OF t, rule_format]) (simp_all only: s l, simp_all)
  qed
qed

end
