(* ===== verification/Paging.thy ===== *)
theory Paging
  imports PageAlloc
begin

text \<open>
  The page table code of \<open>kernel/mm.c\<close>: \<open>open_pagination\<close> builds the identity mapping of the
  kernel's memory, \<open>put_page\<close> and \<open>do_no_page\<close> serve page faults, \<open>create_mm\<close>,
  \<open>un_wpte_page\<close>, \<open>un_wp_page\<close> and \<open>do_wp_page\<close> share pages copy-on-write. \<open>walk\<close> is the
  two-level translation the i386 performs, the specification these are measured against.
  The frame counts and the tables lie in the kernel's memory, which is identity mapped, and are
  accessed physically; the copies of \<open>un_wp_page\<close> and \<open>un_wpte_page\<close>, whose pages can lie
  anywhere, go through the translation.
\<close>

unbundle bit_operations_syntax

section \<open>The code\<close>

text \<open>The inner loop of \<open>open_pagination\<close>: the entries of table \<open>i\<close> from \<open>j\<close> on.\<close>

function fill_pte :: "u32 \<Rightarrow> nat \<Rightarrow> nat \<Rightarrow> machine \<Rightarrow> machine" where
  "fill_pte pte i j s =
     (if push_bit 10 (of_nat i) + of_nat j < drop_bit 12 (KMEM s) \<and> j < 1024
      then fill_pte pte i (j + 1)
        (put32 (pte + 4 * of_nat j) (push_bit 22 (of_nat i) OR push_bit 12 (of_nat j) OR 3) s)
      else s)"
  by pat_completeness auto
termination
  by (relation "measure (\<lambda>(pte, i, j, s). 1024 - j)") auto

declare fill_pte.simps [simp del]

definition pde_body :: "u32 \<Rightarrow> nat \<Rightarrow> machine \<Rightarrow> machine option" where
  "pde_body pde i s =
     (if of_nat i \<le> drop_bit 22 (KMEM s)
      then do { (pte, s) \<leftarrow> get_free_page s;
                let s = put32 (pde + 4 * of_nat i) (pte OR 3) s;
                Some (fill_pte pte i 0 s) }
      else Some (put32 (pde + 4 * of_nat i) 0 s))"

definition open_pagination :: "machine \<Rightarrow> (u32 \<times> machine) option" where
  "open_pagination s =
     do { (pde, s) \<leftarrow> get_free_page s;
          s \<leftarrow> for_each (pde_body pde) [0..<1024] s;
          Some (pde, s\<lparr>CR3 := pde, CR0 := CR0 s OR 0x80010000\<rparr>) }"

definition put_page :: "u32 \<Rightarrow> u32 \<Rightarrow> machine \<Rightarrow> (int \<times> machine) option" where
  "put_page vd pd s =
     (if mmap s (drop_bit 12 pd) = 0 then Some (-1, s)
      else let pde = CR3 s
      in do { s \<leftarrow> (if get32 s (pde + 4 * drop_bit 22 vd) AND 1 = 0
                  then do { (pg, s) \<leftarrow> get_free_page s;
                            Some (put32 (pde + 4 * drop_bit 22 vd) (pg OR 7) s) }
                  else Some s);
              let pte = get32 s (pde + 4 * drop_bit 22 vd) AND NOT 0xfff;
              Some (0, put32 (pte + 4 * (drop_bit 12 vd AND 0x3ff)) (pd OR 7) s) })"

definition do_no_page :: "u32 \<Rightarrow> u32 \<Rightarrow> machine \<Rightarrow> machine option" where
  "do_no_page error addr s =
     do { (pd, s) \<leftarrow> uget_free_page s;
          (r, s) \<leftarrow> put_page addr pd s;
          Some s }"

text \<open>Reloading \<open>cr3\<close> with itself, which flushes the translation cache.\<close>

definition refpage :: "machine \<Rightarrow> machine" where
  "refpage s = s\<lparr>CR3 := CR3 s\<rparr>"

definition share_pte :: "u32 \<Rightarrow> nat \<Rightarrow> machine \<Rightarrow> machine" where
  "share_pte pte j s =
     (let a = pte + 4 * of_nat j
      in if get32 s a AND 1 \<noteq> 0
         then let s = put32 a (get32 s a AND 0xfffffffd) s;
                  f = drop_bit 12 (get32 s a)
              in set_mmap f (mmap s f + 1) s
         else s)"

definition share_pde :: "u32 \<Rightarrow> nat \<Rightarrow> machine \<Rightarrow> machine" where
  "share_pde old_mm i s =
     (let a = old_mm + 4 * of_nat i
      in if get32 s a AND 1 \<noteq> 0
         then let pte = get32 s a AND NOT 0x3ff;
                  s = fold (share_pte pte) [0..<1024] s;
                  s = put32 a (get32 s a AND 0xfffffffd) s;
                  f = drop_bit 12 (get32 s a)
              in set_mmap f (mmap s f + 1) s
         else s)"

definition create_mm :: "machine \<Rightarrow> (u32 \<times> machine) option" where
  "create_mm s =
     do { (new_mm, s) \<leftarrow> get_free_page s;
          let old_mm = CR3 s;
          let s = fold (share_pde old_mm) [unat (drop_bit 22 (KMEM s))..<1024] s;
          let s = s\<lparr>mem := snd (memcpy (mem s) new_mm old_mm 1024)\<rparr>;
          Some (new_mm, refpage s) }"

text \<open>
  The translation of a virtual address: the physical address with the write and user
  permission, or \<open>None\<close> for a page fault.
\<close>

definition walk :: "mem \<Rightarrow> u32 \<Rightarrow> u32 \<Rightarrow> (u32 \<times> bool \<times> bool) option" where
  "walk m cr3 va =
     (let e = load32 m ((cr3 AND NOT 0xfff) + 4 * drop_bit 22 va)
      in if e AND 1 = 0 then None
         else let t = load32 m ((e AND NOT 0xfff) + 4 * (drop_bit 12 va AND 0x3ff))
         in if t AND 1 = 0 then None
            else Some ((t AND NOT 0xfff) OR (va AND 0xfff),
                       e AND t AND 2 \<noteq> 0, e AND t AND 4 \<noteq> 0))"

text \<open>
  \<open>memcpy\<close> on addresses of any page: paging is on, so each byte is read and written where the tables
  say. An address that is not mapped faults, \<open>do_no_page\<close> serves it and the instruction runs again. A
  write to a page that is mapped read-only would fault into \<open>do_wp_page\<close> inside \<open>do_wp_page\<close>; the copy
  is not followed there and has no result.
\<close>

partial_function (option) copy_linear :: "nat \<Rightarrow> u32 \<Rightarrow> u32 \<Rightarrow> machine \<Rightarrow> machine option" where
  "copy_linear n d src s =
     (if n = 0 then Some s
      else case walk (mem s) (CR3 s) src of
        None \<Rightarrow> do { s \<leftarrow> do_no_page 0 src s; copy_linear n d src s }
      | Some (a, _, _) \<Rightarrow>
          (case walk (mem s) (CR3 s) d of
             None \<Rightarrow> do { s \<leftarrow> do_no_page 2 d s; copy_linear n d src s }
           | Some (b, w, _) \<Rightarrow>
               if w then copy_linear (n - 1) (d + 1) (src + 1) (s\<lparr>mem := (mem s)(b := mem s a)\<rparr>) else None))"

text \<open>
  \<open>new_page\<close> is not initialised: where the count is at most one the functions return whatever
  the variable holds, which is the argument \<open>junk\<close>.
\<close>

definition un_wpte_page :: "u32 \<Rightarrow> u32 \<Rightarrow> machine \<Rightarrow> (u32 \<times> machine) option" where
  "un_wpte_page junk pg s =
     (let f = drop_bit 12 pg
      in if mmap s f > 1
         then do { let s = set_mmap f (mmap s f - 1) s;
                   (new_page, s) \<leftarrow> get_free_page s;
                   s \<leftarrow> copy_linear 1024 new_page pg s;
                   Some (new_page, s) }
         else Some (junk, s))"

definition un_wp_page :: "u32 \<Rightarrow> u32 \<Rightarrow> machine \<Rightarrow> (u32 \<times> machine) option" where
  "un_wp_page junk pg s =
     (let f = drop_bit 12 pg
      in if mmap s f > 1
         then do { let s = set_mmap f (mmap s f - 1) s;
                   (new_page, s) \<leftarrow> uget_free_page s;
                   s \<leftarrow> copy_linear 1024 new_page pg s;
                   Some (new_page, s) }
         else Some (junk, s))"

definition do_wp_page :: "u32 \<Rightarrow> u32 \<Rightarrow> u32 \<Rightarrow> u32 \<Rightarrow> machine \<Rightarrow> machine option" where
  "do_wp_page junk junk' error addr s =
     (let pde = CR3 s; d = pde + 4 * drop_bit 22 addr
      in do { s \<leftarrow> (if get32 s d AND 2 = 0
                  then do { (pg, s) \<leftarrow> un_wpte_page junk (get32 s d) s; Some (put32 d (pg OR 7) s) }
                  else Some s);
              let pte = get32 s d AND NOT 0x3ff;
              let t = pte + 4 * (drop_bit 12 addr AND 0x3ff);
              (pg, s) \<leftarrow> un_wp_page junk' (get32 s t) s;
              Some (refpage (put32 t (pg OR 7) s)) })"

section \<open>Table slots\<close>

text \<open>The address of entry \<open>j\<close> of the table or directory in page \<open>p\<close>.\<close>

abbreviation slot :: "u32 \<Rightarrow> nat \<Rightarrow> u32" where
  "slot p j \<equiv> p + 4 * of_nat j"

lemma unat_slot: "page p \<Longrightarrow> j < 1024 \<Longrightarrow> unat (slot p j) = unat p + 4 * j"
  using unat_add_nat [of p "4 * j"] page_end [of p] by simp

lemma slot_apart:
  assumes "page p" and "page q" and "j < 1024" and "k < 1024" and "p \<noteq> q \<or> j \<noteq> k"
  shows "apart (slot p j) 4 (slot q k) 4"
proof (cases "p = q")
  case True
  then show ?thesis using assms page_end [OF assms(2)] by (auto simp: apart_def unat_slot)
next
  case False
  from page_gap [OF assms(1,2) False] show ?thesis
    using assms(3,4) page_end [OF assms(1)] page_end [OF assms(2)]
    by (auto simp: apart_def unat_slot [OF assms(1,3)] unat_slot [OF assms(2,4)])
qed

named_theorems slot_simps \<open>slots and reference counts over a table write\<close>

lemma get32_slot [slot_simps]:
  assumes "page p" and "page q" and "j < 1024" and "k < 1024"
  shows "get32 (put32 (slot p j) v s) (slot q k) = (if p = q \<and> j = k then v else get32 s (slot q k))"
  using slot_apart [OF assms] by (auto simp: load32_store32_apart)

lemma mmap_slot [slot_simps]:
  assumes "kpage p" and "j < 1024"
  shows "mmap (put32 (slot p j) v s) (drop_bit 12 q) = mmap s (drop_bit 12 q)"
proof -
  have "unat q div 4096 < 2 ^ 20" using u32_bound [of q] by (simp add: div_less_iff_less_mult)
  then have "apart (slot p j) 4 (MMAP_ADDR + drop_bit 12 q) 1"
    using assms page_end [of p] by (auto simp: apart_def kpage_def unat_slot unat_mmap)
  then show ?thesis by (simp add: store32_byte)
qed

lemma taken_slot [slot_simps]:
  "kpage p \<Longrightarrow> j < 1024 \<Longrightarrow> taken (put32 (slot p j) v s) q = taken s q"
  by (simp only: taken_def mmap_slot)

text \<open>Tables and counts lie above the first 2 MB.\<close>

lemma low_slot [slot_simps]:
  assumes "kpage p" and "j < 1024" and "unat a < 0x200000"
  shows "mem (put32 (slot p j) v s) a = mem s a"
proof -
  have "apart (slot p j) 4 a 1"
    using assms page_end [of p] by (auto simp: apart_def kpage_def unat_slot)
  then show ?thesis by (simp add: store32_byte)
qed

text \<open>Taking a page changes no table entry.\<close>

lemma slot_outside_mmap:
  assumes "kpage q" and "k < 1024" and "i < 4"
  shows "\<not> in_range MMAP_ADDR 0x100000 (slot q k + of_nat i)"
proof -
  have "unat (slot q k + of_nat i) = unat (slot q k) + i"
    by (rule unat_add_nat) (use assms page_end [of q] in \<open>simp add: kpage_def unat_slot\<close>)
  then show ?thesis
    using assms by (auto simp: in_range_def MMAP_ADDR_def kpage_def unat_slot)
qed

context frame_source
begin

lemma get32_after:
  assumes "get s = Some (p, s')" and "kpage q" and "k < 1024"
  shows "get32 s' (slot q k) = get32 s (slot q k)"
  by (rule load32_cong) (rule mem_after [OF assms(1) slot_outside_mmap [OF assms(2,3)]])

end

text \<open>Entries: a page and flag bits below it.\<close>

lemma low_mask: "(0xfff :: u32) = mask 12" "(0x3ff :: u32) = mask 10"
  by (simp_all add: mask_eq_exp_minus_1)

lemma page_low: "page p \<Longrightarrow> p AND mask 12 = 0"
  by (simp add: page_def word_unat_eq_iff unat_and_mask)

lemma page_bit: "page p \<Longrightarrow> n < 12 \<Longrightarrow> \<not> bit p n"
proof -
  assume "page p" and "n < 12"
  then have "\<not> bit (p AND mask 12) n" by (simp add: page_low)
  with \<open>n < 12\<close> show ?thesis by (simp add: bit_simps)
qed

lemma page_high:
  assumes "page p"
  shows "p AND NOT (mask 12) = p"
proof (rule bit_word_eqI)
  fix n
  assume "n < LENGTH(32)"
  then show "bit (p AND NOT (mask 12)) n = bit p n"
    using page_bit [OF assms, of n] by (auto simp: bit_simps)
qed

lemma entry_page:
  assumes "page p" and "f = 3 \<or> f = 7 \<or> f = 0 \<or> f = 5"
  shows "(p OR f) AND NOT 0xfff = p"
proof -
  have "f AND NOT (mask 12) = 0" using assms(2) by (auto simp: mask_eq_exp_minus_1)
  then show ?thesis
    unfolding low_mask by (simp add: bit.conj_disj_distrib2 page_high [OF assms(1)])
qed

lemma entry_flags:
  assumes "page p" and "k = 1 \<or> k = 2 \<or> k = 4"
  shows "(p OR f) AND k = f AND k"
proof -
  have "k = mask 12 AND k" using assms(2) by (auto simp: mask_eq_exp_minus_1)
  then have "p AND k = (p AND mask 12) AND k" by (simp only: and.assoc)
  then have "p AND k = 0" using page_low [OF assms(1)] by simp
  then show ?thesis by (simp add: bit.conj_disj_distrib2)
qed

section \<open>The identity mapping\<close>

text \<open>The entry \<open>open_pagination\<close> stores in slot \<open>j\<close> of table \<open>i\<close>.\<close>

abbreviation id_entry :: "nat \<Rightarrow> nat \<Rightarrow> u32" where
  "id_entry i j \<equiv> push_bit 22 (of_nat i) OR push_bit 12 (of_nat j) OR 3"

lemma fill_guard:
  assumes "i < 1024" and "j \<le> 1024"
  shows "push_bit 10 (of_nat i) + of_nat j < drop_bit 12 (K :: u32) \<longleftrightarrow> i * 1024 + j < unat K div 4096"
proof -
  have "(push_bit 10 (of_nat i) + of_nat j :: u32) = of_nat (i * 1024 + j)"
    by (simp add: push_bit_eq_mult)
  moreover have "unat (of_nat (i * 1024 + j) :: u32) = i * 1024 + j"
    using unat_add_nat [of 0 "i * 1024 + j"] assms by simp
  ultimately show ?thesis by (simp only: word_less_nat_alt unat_frame)
qed

lemma fill_pte_spec:
  assumes "kpage pte" and "i < 1024" and "j \<le> 1024"
  shows "only_mem s (fill_pte pte i j s)
    \<and> (\<forall>a. unat a < 0x200000 \<longrightarrow> mem (fill_pte pte i j s) a = mem s a)
    \<and> (\<forall>q. taken (fill_pte pte i j s) q = taken s q)
    \<and> (\<forall>q k. page q \<longrightarrow> k < 1024 \<longrightarrow> get32 (fill_pte pte i j s) (slot q k) =
        (if q = pte \<and> j \<le> k \<and> i * 1024 + k < unat (KMEM s) div 4096 then id_entry i k
         else get32 s (slot q k)))"
  using assms
proof (induction pte i j s rule: fill_pte.induct)
  case (1 pte i j s)
  show ?case
  proof (cases "i * 1024 + j < unat (KMEM s) div 4096 \<and> j < 1024")
    case True
    let ?s = "put32 (slot pte j) (id_entry i j) s"
    have step: "fill_pte pte i j s = fill_pte pte i (j + 1) ?s"
      using True 1 by (subst fill_pte.simps) (simp add: fill_guard)
    have p: "page pte" using "1.prems" by (simp add: kpage_def)
    from True 1 have IH: "only_mem ?s (fill_pte pte i (j + 1) ?s)
      \<and> (\<forall>a. unat a < 0x200000 \<longrightarrow> mem (fill_pte pte i (j + 1) ?s) a = mem ?s a)
      \<and> (\<forall>q. taken (fill_pte pte i (j + 1) ?s) q = taken ?s q)
      \<and> (\<forall>q k. page q \<longrightarrow> k < 1024 \<longrightarrow> get32 (fill_pte pte i (j + 1) ?s) (slot q k) =
          (if q = pte \<and> j + 1 \<le> k \<and> i * 1024 + k < unat (KMEM ?s) div 4096 then id_entry i k
           else get32 ?s (slot q k)))"
      by (simp add: fill_guard)
    have "(if q = pte \<and> j + 1 \<le> k \<and> i * 1024 + k < unat (KMEM s) div 4096 then id_entry i k
           else get32 ?s (slot q k))
        = (if q = pte \<and> j \<le> k \<and> i * 1024 + k < unat (KMEM s) div 4096 then id_entry i k
           else get32 s (slot q k))" if "page q" "k < 1024" for q k
      using that True get32_slot [OF p that(1), of j k] by auto
    moreover have "only_mem s (fill_pte pte i (j + 1) ?s)"
      using IH only_mem_trans [of s ?s] by simp
    ultimately show ?thesis
      using IH "1.prems" True low_slot [OF "1.prems"(1), of j] by (simp add: step taken_slot)
  next
    case False
    then have step: "fill_pte pte i j s = s"
      using 1 by (subst fill_pte.simps) (auto simp: fill_guard)
    show ?thesis unfolding step using False by auto
  qed
qed

text \<open>The tables after the first \<open>i\<close> iterations of the outer loop.\<close>

definition table_ok :: "u32 \<Rightarrow> machine \<Rightarrow> nat \<Rightarrow> bool" where
  "table_ok pde s i \<longleftrightarrow>
     (\<exists>P. kpage P \<and> taken s P \<and> P \<noteq> pde \<and> get32 s (slot pde i) = P OR 3
       \<and> (\<forall>k < 1024. i * 1024 + k < unat (KMEM s) div 4096 \<longrightarrow> get32 s (slot P k) = id_entry i k))"

definition tables_inv :: "u32 \<Rightarrow> machine \<Rightarrow> nat \<Rightarrow> machine \<Rightarrow> bool" where
  "tables_inv pde s0 i s \<longleftrightarrow> only_mem s0 s \<and> kpage pde \<and> taken s pde
     \<and> (\<forall>a. unat a < 0x200000 \<longrightarrow> mem s a = mem s0 a)
     \<and> (\<forall>l < i. if l \<le> unat (KMEM s0) div 4194304 then table_ok pde s l
              else get32 s (slot pde l) = 0)
     \<and> inj_on (\<lambda>l. get32 s (slot pde l)) {..<min i (unat (KMEM s0) div 4194304 + 1)}
     \<and> (\<exists>F. finite F \<and> card F \<le> min i (unat (KMEM s0) div 4194304 + 1)
          \<and> free_pages s0 \<subseteq> free_pages s \<union> F)"

lemma pde_guard:
  "i < 1024 \<Longrightarrow> of_nat i \<le> drop_bit 22 (K :: u32) \<longleftrightarrow> i \<le> unat K div 4194304"
  using unat_add_nat [of 0 i] by (simp add: word_le_nat_alt unat_simps)

lemma free_pages_mem: "(\<And>q. taken s' q = taken s q) \<Longrightarrow> KMEM s' = KMEM s \<Longrightarrow> free_pages s' = free_pages s"
  by (simp add: free_pages_def)

text \<open>One iteration that builds a table: what it leaves and what it adds.\<close>

lemma table_step:
  assumes inv: "tables_inv pde s0 i s" and i: "i < 1024"
    and get: "get_free_page s = Some (P, s1)"
    and t: "t = fill_pte P i 0 (put32 (slot pde i) (P OR 3) s1)"
  shows "kpage P" and "\<not> taken s P" and "P \<noteq> pde" and "only_mem s0 t"
    and "unat a < 0x200000 \<Longrightarrow> mem t a = mem s0 a"
    and "page q \<Longrightarrow> taken t q \<longleftrightarrow> taken s q \<or> q = P"
    and "kpage q \<Longrightarrow> q \<noteq> P \<Longrightarrow> k < 1024
      \<Longrightarrow> get32 t (slot q k) = (if q = pde \<and> k = i then P OR 3 else get32 s (slot q k))"
    and "k < 1024 \<Longrightarrow> i * 1024 + k < unat (KMEM s0) div 4096 \<Longrightarrow> get32 t (slot P k) = id_entry i k"
proof -
  define s2 where "s2 = put32 (slot pde i) (P OR 3) s1"
  show P: "kpage P" "\<not> taken s P"
    using kernel_kpage [OF get] kernel_pages.get_fresh [OF get] by auto
  then have "page P" by (simp add: kpage_def)
  have pde: "kpage pde" "page pde" "taken s pde" and s: "only_mem s0 s"
    using inv by (auto simp: tables_inv_def kpage_def)
  then show ne: "P \<noteq> pde" using P by auto
  note fill = fill_pte_spec [OF P(1) i, of 0 s2, simplified, folded t [folded s2_def]]
  have om: "only_mem s s2" using kernel_pages.only_mem_after [OF get] by (simp add: s2_def)
  show "only_mem s0 t" using s om fill by (blast intro: only_mem_trans)
  show "mem t a = mem s0 a" if "unat a < 0x200000"
  proof -
    have "mem t a = mem s2 a" using fill that by blast
    also have "\<dots> = mem s1 a" unfolding s2_def by (rule low_slot [OF pde(1) i that])
    also have "\<dots> = mem s a"
      by (rule kernel_pages.mem_after [OF get]) (use that in \<open>simp add: in_range_def MMAP_ADDR_def\<close>)
    finally show ?thesis using inv that by (simp add: tables_inv_def)
  qed
  show "taken t q \<longleftrightarrow> taken s q \<or> q = P" if "page q"
    using fill pde i kernel_pages.taken_after [OF get that] by (simp add: s2_def taken_slot)
  show "get32 t (slot q k) = (if q = pde \<and> k = i then P OR 3 else get32 s (slot q k))"
    if "kpage q" "q \<noteq> P" "k < 1024"
    using fill that pde i kernel_pages.get32_after [OF get that(1,3)] get32_slot [OF pde(2) _ i that(3), of q]
    by (auto simp: s2_def kpage_def)
  show "get32 t (slot P k) = id_entry i k" if "k < 1024" "i * 1024 + k < unat (KMEM s0) div 4096"
    using fill that \<open>page P\<close> by (simp add: only_mem_fields(1) [OF only_mem_trans [OF s om]])
qed

lemma table_step_distinct:
  assumes inv: "tables_inv pde s0 i s" and i: "i < 1024" "i \<le> unat (KMEM s0) div 4194304"
    and get: "get_free_page s = Some (P, s1)"
    and t: "t = fill_pte P i 0 (put32 (slot pde i) (P OR 3) s1)"
  shows "inj_on (\<lambda>l. get32 t (slot pde l)) {..<min (Suc i) (unat (KMEM s0) div 4194304 + 1)}"
proof -
  note st = table_step [OF inv i(1) get t]
  have pde: "kpage pde" using inv by (simp add: tables_inv_def)
  have pdt: "get32 t (slot pde l) = (if l = i then P OR 3 else get32 s (slot pde l))" if "l \<le> i" for l
    using st(7) [OF pde not_sym [OF st(3)]] that i(1) by simp
  have differs: "P OR 3 \<noteq> get32 t (slot pde l)" if l: "l < i" for l
  proof -
    have "table_ok pde s l" using inv l i(2) by (auto simp: tables_inv_def)
    then obtain Q where Q: "page Q" "taken s Q" "get32 s (slot pde l) = Q OR 3"
      by (auto simp: table_ok_def kpage_def)
    have "page P" using st(1) by (simp add: kpage_def)
    with Q st(2) have "Q OR 3 \<noteq> P OR 3" using entry_page [of Q 3] entry_page [of P 3] by metis
    then show ?thesis using pdt [of l] Q(3) l by simp
  qed
  have "inj_on (\<lambda>l. get32 s (slot pde l)) {..<i}"
    using inv i(2) by (simp add: tables_inv_def min_absorb1)
  then have "inj_on (\<lambda>l. get32 t (slot pde l)) {..<i}"
    using pdt by (simp add: inj_on_def)
  moreover have "get32 t (slot pde i) \<notin> (\<lambda>l. get32 t (slot pde l)) ` {..<i}"
    unfolding image_iff pdt [OF le_refl] using differs by simp
  moreover have "{..<min (Suc i) (unat (KMEM s0) div 4194304 + 1)} = insert i {..<i}"
    using i(2) by auto
  ultimately show ?thesis by (simp add: inj_on_insert)
qed

lemma pde_body_table:
  assumes inv: "tables_inv pde s0 i s" and i: "i < 1024" "i \<le> unat (KMEM s0) div 4194304"
    and get: "get_free_page s = Some (P, s1)"
  shows "tables_inv pde s0 (Suc i) (fill_pte P i 0 (put32 (slot pde i) (P OR 3) s1))"
proof -
  define t where t: "t = fill_pte P i 0 (put32 (slot pde i) (P OR 3) s1)"
  note st = table_step [OF inv i(1) get t]
  have pde: "kpage pde" "page pde" "taken s pde" and s: "only_mem s0 s"
    using inv by (auto simp: tables_inv_def kpage_def)
  have P: "page P" using st(1) by (simp add: kpage_def)
  have old: "table_ok pde t l" if "l < i" "table_ok pde s l" for l
  proof -
    from that(2) obtain Q where Q: "kpage Q" "taken s Q" "Q \<noteq> pde" "get32 s (slot pde l) = Q OR 3"
      "\<forall>k < 1024. l * 1024 + k < unat (KMEM s) div 4096 \<longrightarrow> get32 s (slot Q k) = id_entry l k"
      by (auto simp: table_ok_def)
    then have "Q \<noteq> P" using st(2) by auto
    with Q that(1) i st pde show ?thesis
      unfolding table_ok_def only_mem_fields(1) [OF st(4)]
      by (intro exI [of _ Q]) (auto simp: kpage_def only_mem_fields(1) [OF s])
  qed
  have new: "table_ok pde t i"
    unfolding table_ok_def only_mem_fields(1) [OF st(4)]
    using st pde i P by (intro exI [of _ P]) simp
  have "free_pages s \<subseteq> insert P (free_pages t)"
    using st(6) by (auto simp: free_pages_def kpage_def only_mem_fields(1) [OF st(4)]
        only_mem_fields(1) [OF s])
  moreover obtain F where "finite F" "card F \<le> min i (unat (KMEM s0) div 4194304 + 1)"
      "free_pages s0 \<subseteq> free_pages s \<union> F"
    using inv by (auto simp: tables_inv_def)
  ultimately have "\<exists>F. finite F \<and> card F \<le> min (Suc i) (unat (KMEM s0) div 4194304 + 1)
      \<and> free_pages s0 \<subseteq> free_pages t \<union> F"
    using i by (intro exI [of _ "insert P F"]) (auto simp: card_insert_if)
  moreover have "if l \<le> unat (KMEM s0) div 4194304 then table_ok pde t l else get32 t (slot pde l) = 0"
    if "l < Suc i" for l
    using that i(2) inv old new by (auto simp: tables_inv_def less_Suc_eq)
  ultimately show ?thesis
    unfolding t [symmetric] using st(4,5) pde st(6) [OF pde(2)] table_step_distinct [OF inv i get t]
    by (simp add: tables_inv_def)
qed

text \<open>One iteration beyond the kernel's memory.\<close>

lemma pde_body_empty:
  assumes inv: "tables_inv pde s0 i s" and i: "i < 1024" "\<not> i \<le> unat (KMEM s0) div 4194304"
  shows "tables_inv pde s0 (Suc i) (put32 (slot pde i) 0 s)"
proof -
  define t where "t = put32 (slot pde i) 0 s"
  have pde: "kpage pde" "page pde" "taken s pde" and s: "only_mem s0 s"
    using inv by (auto simp: tables_inv_def kpage_def)
  have only: "only_mem s0 t" using s by (simp add: t_def)
  have load: "get32 t (slot q k) = (if q = pde \<and> k = i then 0 else get32 s (slot q k))"
    if "page q" "k < 1024" for q k
    using get32_slot [OF pde(2) that(1) i(1) that(2)] by (auto simp: t_def)
  have taken: "taken t q = taken s q" for q
    using pde(1) i(1) by (simp only: t_def taken_slot)
  have K: "KMEM t = KMEM s" by (simp add: t_def)
  have low: "mem t a = mem s0 a" if "unat a < 0x200000" for a
    using low_slot [OF pde(1) i(1) that, of s 0] inv that by (simp add: t_def tables_inv_def)
  have old: "table_ok pde t l" if "l < i" "table_ok pde s l" for l
  proof -
    from that(2) obtain Q where "kpage Q" "taken s Q" "Q \<noteq> pde" "get32 s (slot pde l) = Q OR 3"
      "\<forall>k < 1024. l * 1024 + k < unat (KMEM s) div 4096 \<longrightarrow> get32 s (slot Q k) = id_entry l k"
      by (auto simp: table_ok_def)
    with that(1) i pde show ?thesis
      unfolding table_ok_def by (intro exI [of _ Q]) (auto simp: load taken K kpage_def)
  qed
  have "free_pages t = free_pages s"
    by (rule free_pages_mem) (simp_all add: taken K)
  then have "\<exists>F. finite F \<and> card F \<le> min (Suc i) (unat (KMEM s0) div 4194304 + 1)
      \<and> free_pages s0 \<subseteq> free_pages t \<union> F"
  proof -
    obtain F where "finite F" "card F \<le> min i (unat (KMEM s0) div 4194304 + 1)"
      "free_pages s0 \<subseteq> free_pages s \<union> F"
      using inv by (auto simp: tables_inv_def)
    moreover from this(2) have "card F \<le> min (Suc i) (unat (KMEM s0) div 4194304 + 1)"
      by linarith
    ultimately show ?thesis using \<open>free_pages t = free_pages s\<close>
      by (intro exI [of _ F]) simp
  qed
  moreover have "if l \<le> unat (KMEM s0) div 4194304 then table_ok pde t l else get32 t (slot pde l) = 0"
    if "l < Suc i" for l
    using that i inv old load [OF pde(2), of l] by (auto simp: tables_inv_def less_Suc_eq)
  moreover have "inj_on (\<lambda>l. get32 t (slot pde l)) {..<min (Suc i) (unat (KMEM s0) div 4194304 + 1)}"
  proof -
    have m: "min (Suc i) (unat (KMEM s0) div 4194304 + 1) = min i (unat (KMEM s0) div 4194304 + 1)"
      "min i (unat (KMEM s0) div 4194304 + 1) \<le> i"
      using i(2) by auto
    have "get32 t (slot pde l) = get32 s (slot pde l)" if "l < i" for l
      using load [OF pde(2), of l] that i(1) by simp
    with m inv show ?thesis by (auto simp: tables_inv_def inj_on_def)
  qed
  ultimately show ?thesis
    unfolding t_def [symmetric] using only pde taken low by (simp add: tables_inv_def)
qed

text \<open>The loop body keeps the invariant.\<close>

lemma pde_body_inv:
  assumes "i < 1024" and "tables_inv pde s0 i s" and "pde_body pde i s = Some s'"
  shows "tables_inv pde s0 (Suc i) s'"
proof -
  have K: "KMEM s = KMEM s0" using assms(2) by (auto simp: tables_inv_def only_mem_fields)
  show ?thesis
    using assms pde_body_table [OF assms(2,1)] pde_body_empty [OF assms(2,1)]
    by (auto simp: pde_body_def K pde_guard bind_eq_Some_conv Let_def split: if_splits)
qed

lemma pde_body_returns:
  assumes "i < 1024" and "tables_inv pde s0 i s"
    and "finite (free_pages s0)" and "unat (KMEM s0) div 4194304 + 1 \<le> card (free_pages s0)"
  shows "\<exists>s'. pde_body pde i s = Some s'"
proof (cases "i \<le> unat (KMEM s0) div 4194304")
  case True
  have K: "KMEM s = KMEM s0" using assms(2) by (auto simp: tables_inv_def only_mem_fields)
  obtain F where F: "finite F" "card F \<le> i" "free_pages s0 \<subseteq> free_pages s \<union> F"
    using assms(2) by (auto simp: tables_inv_def)
  have "free_pages s \<noteq> {}"
  proof
    assume "free_pages s = {}"
    with F have "card (free_pages s0) \<le> card F" by (intro card_mono) auto
    with F(2) True assms(4) show False by linarith
  qed
  then obtain q s1 where "get_free_page s = Some (q, s1)"
    using get_free_page_progress by blast
  with True assms(1) show ?thesis by (simp add: pde_body_def K pde_guard Let_def)
next
  case False
  have K: "KMEM s = KMEM s0" using assms(2) by (auto simp: tables_inv_def only_mem_fields)
  with False assms(1) show ?thesis by (simp add: pde_body_def pde_guard)
qed

lemma tables_inv_start:
  assumes "get_free_page s = Some (pde, s1)"
  shows "tables_inv pde s1 0 s1"
proof -
  have "taken s1 pde"
    using kernel_pages.taken_after [OF assms] kernel_pages.get_page [OF assms] by blast
  then show ?thesis
    using kernel_kpage(1) [OF assms]
    by (auto simp: tables_inv_def intro!: exI [of _ "{}"])
qed

text \<open>The two indices of an address, and what an identity entry translates it to.\<close>

lemma slot_word: "p + 4 * i = slot p (unat i)"
  by simp

lemma dir_index: "unat (drop_bit 22 (va :: u32)) < 1024"
  using u32_bound [of va] by (simp add: unat_simps div_less_iff_less_mult)

lemma table_index: "unat (drop_bit 12 (va :: u32) AND 0x3ff) < 1024"
  unfolding low_mask by (simp add: unat_simps)

lemma indices_frame:
  "unat (drop_bit 22 (va :: u32)) * 1024 + unat (drop_bit 12 va AND 0x3ff) = unat va div 4096"
proof -
  have "unat va div 4194304 = unat va div 4096 div 1024" by (simp add: div_mult2_eq [symmetric])
  then show ?thesis unfolding low_mask by (simp add: unat_simps)
qed

lemma id_entry_page:
  "(id_entry (unat (drop_bit 22 va)) (unat (drop_bit 12 va AND 0x3ff)) AND NOT 0xfff) OR (va AND 0xfff)
    = va"
proof -
  have "(3 :: u32) AND NOT (mask 12) = 0" by (simp add: mask_eq_exp_minus_1)
  then have three: "(x OR y OR 3) AND NOT (mask 12) = (x OR y) AND NOT (mask 12)" for x y :: u32
    by (simp add: bit.conj_disj_distrib2)
  have "((push_bit 22 (drop_bit 22 va) OR push_bit 12 (drop_bit 12 va AND mask 10)) AND NOT (mask 12))
      OR (va AND mask 12) = va"
    (is "?l = va")
  proof (rule bit_word_eqI)
    fix n
    assume "n < LENGTH(32)"
    then show "bit ?l n = bit va n" by (cases "n < 22") (auto simp: bit_simps)
  qed
  then show ?thesis unfolding low_mask by (simp add: three)
qed

lemma id_entry_flags:
  "k = 1 \<or> k = 2 \<or> k = 4 \<Longrightarrow> id_entry i j AND k = 3 AND k"
proof -
  have "page (push_bit 22 (of_nat i) OR push_bit 12 (of_nat j))"
  proof -
    have "(push_bit 22 (of_nat i) OR push_bit 12 (of_nat j)) AND mask 12 = (0 :: u32)"
      by (rule bit_word_eqI) (auto simp: bit_simps)
    then have "unat (push_bit 22 (of_nat i) OR push_bit 12 (of_nat j) :: u32) mod 2 ^ 12 = 0"
      by (metis unat_and_mask unat_0)
    then show ?thesis by (simp add: page_def)
  qed
  from entry_flags [OF this, of k 3] show "k = 1 \<or> k = 2 \<or> k = 4 \<Longrightarrow> ?thesis"
    by (simp only: or.assoc)
qed

section \<open>Address spaces\<close>

text \<open>
  The directory in \<open>CR3\<close> and the tables it points to are pages in use, all of them distinct.
\<close>

abbreviation dir_entry :: "machine \<Rightarrow> nat \<Rightarrow> u32" where
  "dir_entry s i \<equiv> get32 s (slot (CR3 s) i)"

abbreviation table_at :: "machine \<Rightarrow> nat \<Rightarrow> u32" where
  "table_at s i \<equiv> dir_entry s i AND NOT 0xfff"

definition present :: "machine \<Rightarrow> nat \<Rightarrow> bool" where
  "present s i \<longleftrightarrow> i < 1024 \<and> dir_entry s i AND 1 \<noteq> 0"

definition space_ok :: "machine \<Rightarrow> bool" where
  "space_ok s \<longleftrightarrow> kpage (CR3 s) \<and> taken s (CR3 s)
     \<and> (\<forall>i. present s i \<longrightarrow> kpage (table_at s i) \<and> taken s (table_at s i) \<and> table_at s i \<noteq> CR3 s)
     \<and> (\<forall>i j. present s i \<longrightarrow> present s j \<longrightarrow> table_at s i = table_at s j \<longrightarrow> i = j)"

lemma space_okD:
  assumes "space_ok s"
  shows "kpage (CR3 s)" "page (CR3 s)" "taken s (CR3 s)"
    "present s i \<Longrightarrow> kpage (table_at s i)" "present s i \<Longrightarrow> page (table_at s i)"
    "present s i \<Longrightarrow> taken s (table_at s i)" "present s i \<Longrightarrow> table_at s i \<noteq> CR3 s"
    "present s i \<Longrightarrow> present s j \<Longrightarrow> table_at s i = table_at s j \<Longrightarrow> i = j"
  using assms unfolding space_ok_def kpage_def by blast+

abbreviation dir_of :: "u32 \<Rightarrow> nat" where "dir_of va \<equiv> unat (drop_bit 22 va)"
abbreviation ent_of :: "u32 \<Rightarrow> nat" where "ent_of va \<equiv> unat (drop_bit 12 va AND 0x3ff)"

text \<open>What a table entry translates an address of its page to.\<close>

definition entry_walk :: "u32 \<Rightarrow> u32 \<Rightarrow> u32 \<Rightarrow> (u32 \<times> bool \<times> bool) option" where
  "entry_walk e t va =
     (if t AND 1 = 0 then None
      else Some ((t AND NOT 0xfff) OR (va AND 0xfff), e AND t AND 2 \<noteq> 0, e AND t AND 4 \<noteq> 0))"

lemma walk_space:
  assumes "page (CR3 s)"
  shows "walk (mem s) (CR3 s) va =
    (if present s (dir_of va)
     then entry_walk (dir_entry s (dir_of va)) (get32 s (slot (table_at s (dir_of va)) (ent_of va))) va
     else None)"
  using entry_page [OF assms, of 0] dir_index [of va]
  by (simp add: walk_def present_def entry_walk_def Let_def)

lemma walk_transfer:
  assumes "page (CR3 s)" and C: "CR3 s' = CR3 s" and e: "dir_entry s' (dir_of va) = dir_entry s (dir_of va)"
  shows "walk (mem s') (CR3 s') va =
    (if present s (dir_of va)
     then entry_walk (dir_entry s (dir_of va)) (get32 s' (slot (table_at s (dir_of va)) (ent_of va))) va
     else None)"
proof -
  have "present s' (dir_of va) = present s (dir_of va)" unfolding present_def e ..
  with walk_space [of s' va] assms(1) show ?thesis unfolding C e [unfolded C] by simp
qed

lemma same_frame:
  "drop_bit 12 va = drop_bit 12 (wa :: u32) \<longleftrightarrow> dir_of va = dir_of wa \<and> ent_of va = ent_of wa"
proof
  assume "dir_of va = dir_of wa \<and> ent_of va = ent_of wa"
  then have "unat va div 4096 = unat wa div 4096" by (simp only: indices_frame [symmetric])
  then show "drop_bit 12 va = drop_bit 12 wa" by (simp add: word_unat_eq_iff unat_frame)
next
  assume eq: "drop_bit 12 va = drop_bit 12 wa"
  have "drop_bit 22 x = drop_bit 10 (drop_bit 12 x)" for x :: u32 by simp
  then show "dir_of va = dir_of wa \<and> ent_of va = ent_of wa" by (simp only: eq)
qed

text \<open>What leaves the tables alone, and keeps the pages in use, leaves the address space as it is.\<close>

lemma space_cong:
  assumes ok: "space_ok s" and C: "CR3 s' = CR3 s"
    and m: "\<And>q k. kpage q \<Longrightarrow> taken s q \<Longrightarrow> k < 1024 \<Longrightarrow> get32 s' (slot q k) = get32 s (slot q k)"
    and t: "\<And>q. page q \<Longrightarrow> taken s q \<Longrightarrow> taken s' q"
  shows "space_ok s'" and "present s' i = present s i"
    and "i < 1024 \<Longrightarrow> dir_entry s' i = dir_entry s i"
    and "walk (mem s') (CR3 s') va = walk (mem s) (CR3 s) va"
proof -
  note s = space_okD [OF ok]
  have e: "dir_entry s' i = dir_entry s i" if "i < 1024" for i
    unfolding C by (rule m [OF s(1,3) that])
  have p: "present s' i = present s i" for i using e by (auto simp: present_def)
  show "space_ok s'"
    unfolding space_ok_def C p
  proof (intro conjI allI impI)
    show "kpage (CR3 s)" "taken s' (CR3 s)" using s(1,2,3) t by auto
  next
    fix i
    assume i: "present s i"
    then have "i < 1024" by (simp add: present_def)
    from e [OF this] have "get32 s' (slot (CR3 s) i) = dir_entry s i" by (simp only: C)
    then show "kpage (get32 s' (slot (CR3 s) i) AND NOT 0xfff)"
      "taken s' (get32 s' (slot (CR3 s) i) AND NOT 0xfff)"
      "get32 s' (slot (CR3 s) i) AND NOT 0xfff \<noteq> CR3 s"
      using s(4-7) [OF i] t by simp_all
  next
    fix i j
    assume "present s i" and "present s j"
      and "get32 s' (slot (CR3 s) i) AND NOT 0xfff = get32 s' (slot (CR3 s) j) AND NOT 0xfff"
    with e [of i] e [of j] show "i = j" using s(8) [of i j] by (simp add: C present_def)
  qed
  show "present s' i = present s i" by (rule p)
  show "dir_entry s' i = dir_entry s i" if "i < 1024" using that by (rule e)
  have "get32 s' (slot (table_at s (dir_of va)) (ent_of va)) = get32 s (slot (table_at s (dir_of va)) (ent_of va))"
    if "present s (dir_of va)"
    by (rule m [OF s(4,6) [OF that] table_index])
  then show "walk (mem s') (CR3 s') va = walk (mem s) (CR3 s) va"
    unfolding walk_transfer [OF s(2) C e [OF dir_index]] walk_space [OF s(2)] by simp
qed

text \<open>Taking a page does.\<close>

context frame_source
begin

lemma space_after:
  assumes g: "get s = Some (p, s')" and ok: "space_ok s"
  shows "space_ok s'" and "present s' i = present s i"
    and "i < 1024 \<Longrightarrow> dir_entry s' i = dir_entry s i"
    and "walk (mem s') (CR3 s') va = walk (mem s) (CR3 s) va"
  by (rule space_cong [OF ok globals_kept(5) [OF g] get32_after [OF g]]; simp add: taken_after [OF g])+

end

text \<open>Storing an entry of a table that is in place.\<close>

lemma set_entry:
  assumes ok: "space_ok s" and i: "present s i" and j: "j < 1024"
    and s': "s' = put32 (slot (table_at s i) j) v s"
  shows "space_ok s'" and "present s' l = present s l"
    and "l < 1024 \<Longrightarrow> dir_entry s' l = dir_entry s l"
    and "walk (mem s') (CR3 s') va =
      (if dir_of va = i \<and> ent_of va = j then entry_walk (dir_entry s i) v va else walk (mem s) (CR3 s) va)"
proof -
  note s = space_okD [OF ok]
  have C: "CR3 s' = CR3 s" by (simp add: s')
  have e: "dir_entry s' l = dir_entry s l" if "l < 1024" for l
    unfolding s' using get32_slot [OF s(5) [OF i] s(2) j that] s(7) [OF i] by auto
  have p: "present s' l = present s l" for l using e by (auto simp: present_def)
  have t: "taken s' q = taken s q" for q
    unfolding s' by (rule taken_slot [OF s(4) [OF i] j])
  have eC: "get32 s' (slot (CR3 s) l) = dir_entry s l" if "present s l" for l
    using e [of l] that by (simp add: C present_def)
  show "space_ok s'"
    unfolding space_ok_def C p t using s eC by auto
  show "present s' l = present s l" by (rule p)
  show "dir_entry s' l = dir_entry s l" if "l < 1024" using that by (rule e)
  have "get32 s' (slot (table_at s (dir_of va)) (ent_of va)) =
      (if dir_of va = i \<and> ent_of va = j then v else get32 s (slot (table_at s (dir_of va)) (ent_of va)))"
    if "present s (dir_of va)"
    unfolding s' using get32_slot [OF s(5) [OF i] s(5) [OF that] j table_index] s(8) [OF i that] by auto
  then show "walk (mem s') (CR3 s') va =
      (if dir_of va = i \<and> ent_of va = j then entry_walk (dir_entry s i) v va else walk (mem s) (CR3 s) va)"
    using i unfolding walk_transfer [OF s(2) C e [OF dir_index]] walk_space [OF s(2)] by auto
qed

text \<open>Entering a new table into the directory.\<close>

lemma new_table:
  assumes ok: "space_ok s" and i: "i < 1024" "\<not> present s i"
    and P: "kpage P" "taken s P" "P \<noteq> CR3 s" "\<forall>l. present s l \<longrightarrow> table_at s l \<noteq> P"
    and s': "s' = put32 (slot (CR3 s) i) (P OR 7) s"
  shows "space_ok s'" and "present s' l \<longleftrightarrow> present s l \<or> l = i"
    and "dir_entry s' i = P OR 7"
    and "dir_of va \<noteq> i \<Longrightarrow> walk (mem s') (CR3 s') va = walk (mem s) (CR3 s) va"
    and "kpage q \<Longrightarrow> q \<noteq> CR3 s \<Longrightarrow> k < 1024 \<Longrightarrow> get32 s' (slot q k) = get32 s (slot q k)"
proof -
  note s = space_okD [OF ok]
  have pP: "page P" using P(1) by (simp add: kpage_def)
  have C: "CR3 s' = CR3 s" by (simp add: s')
  have e: "dir_entry s' l = (if l = i then P OR 7 else dir_entry s l)" if "l < 1024" for l
    unfolding s' using get32_slot [OF s(2,2) i(1) that] by auto
  have p: "present s' l \<longleftrightarrow> present s l \<or> l = i" for l
    using e [of l] i entry_flags [OF pP, of 1 7] by (auto simp: present_def split: if_splits)
  have t: "taken s' q = taken s q" for q
    unfolding s' by (rule taken_slot [OF s(1) i(1)])
  have T: "get32 s' (slot (CR3 s) l) AND NOT 0xfff = (if l = i then P else table_at s l)"
    if "present s l \<or> l = i" for l
    using e [of l, unfolded C] that i(1) entry_page [OF pP, of 7] by (auto simp: present_def)
  show "space_ok s'"
    unfolding space_ok_def C p t
  proof (intro conjI allI impI)
    show "kpage (CR3 s)" "taken s (CR3 s)" using s by auto
  next
    fix l
    assume l: "present s l \<or> l = i"
    show "kpage (get32 s' (slot (CR3 s) l) AND NOT 0xfff)"
      "taken s (get32 s' (slot (CR3 s) l) AND NOT 0xfff)"
      "get32 s' (slot (CR3 s) l) AND NOT 0xfff \<noteq> CR3 s"
      unfolding T [OF l] using l i(2) s P by auto
  next
    fix l m
    assume l: "present s l \<or> l = i" and m: "present s m \<or> m = i"
      and "get32 s' (slot (CR3 s) l) AND NOT 0xfff = get32 s' (slot (CR3 s) m) AND NOT 0xfff"
    from this(3) [unfolded T [OF l] T [OF m]] show "l = m"
      using i(2) l m P(4) s(8) [of l m] by (auto split: if_splits)
  qed
  show "present s' l \<longleftrightarrow> present s l \<or> l = i" by (rule p)
  show "dir_entry s' i = P OR 7" using e [OF i(1)] by (simp only: if_True simp_thms)
  show keep: "get32 s' (slot q k) = get32 s (slot q k)" if "kpage q" "q \<noteq> CR3 s" "k < 1024" for q k
    unfolding s' using get32_slot [OF s(2) _ i(1) that(3), of q] that by (auto simp: kpage_def)
  show "walk (mem s') (CR3 s') va = walk (mem s) (CR3 s) va" if "dir_of va \<noteq> i"
  proof -
    have "dir_entry s' (dir_of va) = dir_entry s (dir_of va)"
      using e [OF dir_index [of va]] that by (simp only: if_False)
    note * = walk_transfer [OF s(2) C this]
    show ?thesis unfolding * walk_space [OF s(2)]
      by (cases "present s (dir_of va)") (simp_all only: keep [OF s(4) s(7) table_index] if_True if_False)
  qed
qed

text \<open>A page entered with flags 7 is translated with the permissions of its directory entry.\<close>

lemma entry_walk_page:
  assumes "page pd"
  shows "entry_walk e (pd OR 7) va = Some (pd OR (va AND 0xfff), e AND 2 \<noteq> 0, e AND 4 \<noteq> 0)"
proof -
  have "(pd OR 7) AND 1 = 1" "(pd OR 7) AND 2 = 2" "(pd OR 7) AND 4 = 4"
    using entry_flags [OF assms, of 1 7] entry_flags [OF assms, of 2 7] entry_flags [OF assms, of 4 7]
    by simp_all
  note flags = this
  show ?thesis
    unfolding entry_walk_def entry_page [OF assms disjI2 [OF disjI1 [OF refl]]] flags by simp
qed

text \<open>What \<open>put_page\<close> does when it returns, by whether the table existed.\<close>

lemma put_page_old:
  assumes ok: "space_ok s" and pd: "taken s pd" and i: "present s (dir_of vd)"
  shows "put_page vd pd s = Some (0, put32 (slot (table_at s (dir_of vd)) (ent_of vd)) (pd OR 7) s)"
  using pd i by (simp add: put_page_def present_def taken_def Let_def)

lemma put_page_new:
  assumes ok: "space_ok s" and pd: "taken s pd" and i: "\<not> present s (dir_of vd)"
    and pp: "put_page vd pd s = Some (r, s')"
  obtains pg s1 where "get_free_page s = Some (pg, s1)" and "r = 0"
    and "s' = put32 (slot pg (ent_of vd)) (pd OR 7) (put32 (slot (CR3 s) (dir_of vd)) (pg OR 7) s1)"
proof -
  have "dir_entry s (dir_of vd) AND 1 = 0" using i dir_index [of vd] by (simp add: present_def)
  with pp pd obtain pg s1 where g: "get_free_page s = Some (pg, s1)" and r: "r = 0"
    and s': "s' = put32 (((pg OR 7) AND NOT 0xfff) + 4 * (drop_bit 12 vd AND 0x3ff)) (pd OR 7)
        (put32 (CR3 s + 4 * drop_bit 22 vd) (pg OR 7) s1)"
    by (auto simp: put_page_def taken_def Let_def bind_eq_Some_conv)
  have "(pg OR 7) AND NOT 0xfff = pg" using entry_page [OF kernel_pages.get_page [OF g], of 7] by simp
  with s' have "s' = put32 (slot pg (ent_of vd)) (pd OR 7) (put32 (slot (CR3 s) (dir_of vd)) (pg OR 7) s1)"
    by simp
  from that [OF g r this] show ?thesis .
qed

lemma put_page_old_spec:
  assumes ok: "space_ok s" and pd: "page pd" "taken s pd" and i: "present s (dir_of vd)"
  shows "\<exists>s'. put_page vd pd s = Some (0, s') \<and> space_ok s' \<and> CR3 s' = CR3 s
    \<and> walk (mem s') (CR3 s') vd = Some (pd OR (vd AND 0xfff),
        dir_entry s (dir_of vd) AND 2 \<noteq> 0, dir_entry s (dir_of vd) AND 4 \<noteq> 0)
    \<and> (\<forall>va. drop_bit 12 va \<noteq> drop_bit 12 vd \<longrightarrow> walk (mem s') (CR3 s') va = walk (mem s) (CR3 s) va)"
proof -
  define s' where s': "s' = put32 (slot (table_at s (dir_of vd)) (ent_of vd)) (pd OR 7) s"
  note se = set_entry [OF ok i table_index s']
  have "CR3 s' = CR3 s" by (simp add: s')
  moreover have "walk (mem s') (CR3 s') va = walk (mem s) (CR3 s) va"
    if "drop_bit 12 va \<noteq> drop_bit 12 vd" for va
    using se(4) [of va] that [unfolded same_frame] by (simp only: if_False)
  moreover note se(1) se(4) [of vd]
  ultimately show ?thesis
    unfolding put_page_old [OF ok pd(2) i] s' [symmetric] by (simp add: entry_walk_page [OF pd(1)])
qed

text \<open>
  Where there was no table, the page that becomes one is not cleared: its other entries are
  whatever the page held.
\<close>

lemma put_page_new_spec:
  assumes ok: "space_ok s" and pd: "page pd" "taken s pd" and i: "\<not> present s (dir_of vd)"
    and pp: "put_page vd pd s = Some (r, s')"
  shows "\<exists>pg s1. get_free_page s = Some (pg, s1) \<and> r = 0 \<and> space_ok s' \<and> CR3 s' = CR3 s
    \<and> walk (mem s') (CR3 s') vd = Some (pd OR (vd AND 0xfff), True, True)
    \<and> (\<forall>va. dir_of va \<noteq> dir_of vd \<longrightarrow> walk (mem s') (CR3 s') va = walk (mem s) (CR3 s) va)
    \<and> (\<forall>va. dir_of va = dir_of vd \<and> drop_bit 12 va \<noteq> drop_bit 12 vd
        \<longrightarrow> walk (mem s') (CR3 s') va = entry_walk (pg OR 7) (get32 s (slot pg (ent_of va))) va)"
proof -
  from i obtain pg s1 where g: "get_free_page s = Some (pg, s1)" and r: "r = 0"
    and s': "s' = put32 (slot pg (ent_of vd)) (pd OR 7) (put32 (slot (CR3 s) (dir_of vd)) (pg OR 7) s1)"
    by (rule put_page_new [OF ok pd(2) _ pp])
  define s2 where "s2 = put32 (slot (CR3 s1) (dir_of vd)) (pg OR 7) s1"
  have C: "CR3 s1 = CR3 s" by (rule kernel_pages.globals_kept(5) [OF g])
  note sp = kernel_pages.space_after [OF g ok]
  have pg: "kpage pg" "page pg" "taken s1 pg" "pg \<noteq> CR3 s1"
    using kernel_kpage(1) [OF g] kernel_pages.taken_after [OF g] kernel_pages.get_fresh [OF g]
      space_okD(3) [OF ok] by (auto simp: kpage_def C)
  have fresh: "\<forall>l. present s1 l \<longrightarrow> table_at s1 l \<noteq> pg"
  proof (intro allI impI)
    fix l
    assume "present s1 l"
    then have "present s l" "l < 1024" using sp(2) by (simp_all add: present_def)
    then show "table_at s1 l \<noteq> pg"
      using sp(3) space_okD(6) [OF ok] kernel_pages.get_fresh [OF g] by auto
  qed
  have "\<not> present s1 (dir_of vd)" using i sp(2) by simp
  note nt = new_table [OF sp(1) dir_index this pg(1,3,4) fresh s2_def]
  have p: "present s2 (dir_of va)" if "dir_of va = dir_of vd" for va by (simp add: nt(2) that)
  have T: "table_at s2 (dir_of vd) = pg"
    unfolding nt(3) using entry_page [OF pg(2), of 7] by simp
  have "s' = put32 (slot (table_at s2 (dir_of vd)) (ent_of vd)) (pd OR 7) s2"
    unfolding T by (simp add: s' s2_def C)
  note se = set_entry [OF nt(1) p [OF refl] table_index this, unfolded nt(3)]
  have w: "walk (mem s') (CR3 s') vd = Some (pd OR (vd AND 0xfff), True, True)"
  proof -
    have "(pg OR 7) AND 2 \<noteq> 0" "(pg OR 7) AND 4 \<noteq> 0"
      using entry_flags [OF pg(2), of 2 7] entry_flags [OF pg(2), of 4 7] by simp_all
    then show ?thesis using se(4) [of vd] by (simp add: entry_walk_page [OF pd(1)])
  qed
  have other: "walk (mem s') (CR3 s') va = walk (mem s) (CR3 s) va" if "dir_of va \<noteq> dir_of vd" for va
    using se(4) [of va] nt(4) [OF that] sp(4) [of va] that by (simp only: simp_thms if_False)
  have stale: "walk (mem s') (CR3 s') va = entry_walk (pg OR 7) (get32 s (slot pg (ent_of va))) va"
    if d: "dir_of va = dir_of vd" and "drop_bit 12 va \<noteq> drop_bit 12 vd" for va
  proof -
    have "walk (mem s') (CR3 s') va = walk (mem s2) (CR3 s2) va"
      using se(4) [of va] that(2) [unfolded same_frame] by (simp only: if_False)
    also have "\<dots> = entry_walk (pg OR 7) (get32 s2 (slot pg (ent_of va))) va"
      unfolding walk_space [OF space_okD(2) [OF nt(1)]] d nt(3) T [unfolded nt(3)] using p [OF refl]
      by (simp only: if_True)
    also have "get32 s2 (slot pg (ent_of va)) = get32 s (slot pg (ent_of va))"
      unfolding nt(5) [OF pg(1,4) table_index] by (rule kernel_pages.get32_after [OF g pg(1) table_index])
    finally show ?thesis .
  qed
  from g r se(1) w other stale show ?thesis by (auto simp: s' C)
qed

section \<open>The identity mapping is what the processor translates\<close>

lemma open_pagination_tables:
  assumes "open_pagination s = Some (pde, s')"
  obtains s1 t where "get_free_page s = Some (pde, s1)" and "tables_inv pde s1 1024 t"
    and "s' = t\<lparr>CR3 := pde, CR0 := CR0 t OR 0x80010000\<rparr>"
proof -
  from assms obtain s1 t where g: "get_free_page s = Some (pde, s1)"
    and l: "for_each (pde_body pde) [0..<1024] s1 = Some t"
    and s': "s' = t\<lparr>CR3 := pde, CR0 := CR0 t OR 0x80010000\<rparr>"
    by (auto simp: open_pagination_def bind_eq_Some_conv)
  have "tables_inv pde s1 1024 t"
    by (rule for_each_upt_rule [where I = "tables_inv pde s1", OF l tables_inv_start [OF g]])
      (rule pde_body_inv)
  from that [OF g this s'] show ?thesis .
qed

text \<open>A walk through a present directory entry and a present table entry.\<close>

lemma walk_present:
  assumes "load32 m ((cr3 AND NOT 0xfff) + 4 * drop_bit 22 va) = e" and "e AND 1 = 1"
    and "load32 m ((e AND NOT 0xfff) + 4 * (drop_bit 12 va AND 0x3ff)) = t" and "t AND 1 = 1"
    and "t AND 2 = w" and "t AND 4 = u"
  shows "walk m cr3 va = Some ((t AND NOT 0xfff) OR (va AND 0xfff), e AND w \<noteq> 0, e AND u \<noteq> 0)"
  unfolding walk_def Let_def assms(1) assms(3) assms(5,6) assms(2,4) by simp

lemma table_ok_walk:
  assumes "table_ok pde t (unat (drop_bit 22 va))" and "page pde"
    and "unat va div 4096 < unat (KMEM t) div 4096"
  shows "walk (mem t) pde va = Some (va, True, False)"
proof -
  let ?i = "unat (drop_bit 22 va)" and ?j = "unat (drop_bit 12 va AND 0x3ff)"
  from assms(1) obtain P where P: "page P" "get32 t (slot pde ?i) = P OR 3"
    "\<forall>k < 1024. ?i * 1024 + k < unat (KMEM t) div 4096 \<longrightarrow> get32 t (slot P k) = id_entry ?i k"
    by (auto simp: table_ok_def kpage_def)
  have T: "get32 t (slot P ?j) = id_entry ?i ?j"
    using P(3) table_index assms(3) by (simp only: indices_frame)
  have pde: "pde AND NOT 0xfff = pde" using entry_page [OF assms(2), of 0] by simp
  have p: "(P OR 3) AND 1 = 1" "(P OR 3) AND 2 = 2"
    using entry_flags [OF P(1), of 1 3] entry_flags [OF P(1), of 2 3] by simp_all
  have e: "id_entry i j AND 1 = 1" "id_entry i j AND 2 = 2" "id_entry i j AND 4 = 0" for i j
    by (subst id_entry_flags; simp)+
  have "walk (mem t) pde va = Some ((id_entry ?i ?j AND NOT 0xfff) OR (va AND 0xfff),
      (P OR 3) AND 2 \<noteq> 0, (P OR 3) AND 0 \<noteq> 0)"
  proof (rule walk_present [OF _ p(1) _ e])
    show "get32 t ((pde AND NOT 0xfff) + 4 * drop_bit 22 va) = P OR 3"
      unfolding pde using P(2) by simp
    show "get32 t (((P OR 3) AND NOT 0xfff) + 4 * (drop_bit 12 va AND 0x3ff)) = id_entry ?i ?j"
      unfolding entry_page [OF P(1) disjI1 [OF refl]] by (subst slot_word) (rule T)
  qed
  then show ?thesis unfolding id_entry_page p by simp
qed

lemma open_pagination_maps:
  assumes "open_pagination s = Some (pde, s')" and "drop_bit 12 va < drop_bit 12 (KMEM s)"
  shows "walk (mem s') (CR3 s') va = Some (va, True, False)
    \<and> CR3 s' = pde \<and> CR0 s' = CR0 s OR 0x80010000"
proof (rule open_pagination_tables [OF assms(1)])
  fix s1 t
  assume g: "get_free_page s = Some (pde, s1)" and inv: "tables_inv pde s1 1024 t"
    and s': "s' = t\<lparr>CR3 := pde, CR0 := CR0 t OR 0x80010000\<rparr>"
  have om: "only_mem s t"
    using kernel_pages.only_mem_after [OF g] inv by (auto simp: tables_inv_def intro: only_mem_trans)
  have K: "KMEM s1 = KMEM s" by (rule kernel_pages.globals_kept(1) [OF g])
  have f: "unat va div 4096 < unat (KMEM s) div 4096"
    using assms(2) by (simp add: word_less_nat_alt unat_frame)
  then have "unat va div 4096 div 1024 \<le> unat (KMEM s) div 4096 div 1024" by (intro div_le_mono) simp
  then have "unat (drop_bit 22 va) \<le> unat (KMEM s) div 4194304"
    by (simp add: unat_simps div_mult2_eq [symmetric])
  then have "table_ok pde t (unat (drop_bit 22 va))"
    using inv dir_index [of va] by (auto simp: tables_inv_def K)
  moreover have "page pde" using inv by (simp add: tables_inv_def kpage_def)
  ultimately have "walk (mem t) pde va = Some (va, True, False)"
    by (rule table_ok_walk) (use f only_mem_fields(1) [OF om] in simp)
  then show ?thesis using only_mem_fields(4) [OF om] by (simp add: s')
qed

lemma open_pagination_frame:
  assumes "open_pagination s = Some (pde, s')"
  shows "KMEM s' = KMEM s" and "unat a < 0x200000 \<Longrightarrow> mem s' a = mem s a"
proof -
  obtain s1 t where g: "get_free_page s = Some (pde, s1)" and inv: "tables_inv pde s1 1024 t"
    and s': "s' = t\<lparr>CR3 := pde, CR0 := CR0 t OR 0x80010000\<rparr>"
    by (rule open_pagination_tables [OF assms])
  have "only_mem s t"
    using kernel_pages.only_mem_after [OF g] inv by (auto simp: tables_inv_def intro: only_mem_trans)
  then show "KMEM s' = KMEM s" by (simp add: s' only_mem_fields)
  show "mem s' a = mem s a" if "unat a < 0x200000"
  proof -
    have "mem s1 a = mem s a"
      by (rule kernel_pages.mem_after [OF g]) (use that in \<open>simp add: in_range_def MMAP_ADDR_def\<close>)
    then show ?thesis using inv that by (simp add: s' tables_inv_def)
  qed
qed

section \<open>Page faults\<close>

lemma open_pagination_space:
  assumes "open_pagination s = Some (pde, s')"
  shows "space_ok s'"
proof (rule open_pagination_tables [OF assms])
  fix s1 t
  assume g: "get_free_page s = Some (pde, s1)" and inv: "tables_inv pde s1 1024 t"
    and s': "s' = t\<lparr>CR3 := pde, CR0 := CR0 t OR 0x80010000\<rparr>"
  define n where "n = unat (KMEM s1) div 4194304"
  have tab: "\<exists>P. kpage P \<and> taken t P \<and> P \<noteq> pde \<and> get32 t (slot pde i) = P OR 3"
    if "i < 1024" "i \<le> n" for i
  proof -
    have "table_ok pde t i" using inv that by (auto simp: tables_inv_def n_def)
    then show ?thesis unfolding table_ok_def by blast
  qed
  have empty: "get32 t (slot pde i) = 0" if "i < 1024" "\<not> i \<le> n" for i
    using inv that by (auto simp: tables_inv_def n_def)
  have inj: "inj_on (\<lambda>l. get32 t (slot pde l)) {..<min 1024 (n + 1)}"
    using inv by (simp add: tables_inv_def n_def)
  have pr: "i < 1024 \<and> i \<le> n" if "present s' i" for i
    using that empty [of i] by (cases "i \<le> n") (auto simp: present_def s')
  have at: "kpage (table_at s' i) \<and> taken s' (table_at s' i) \<and> table_at s' i \<noteq> CR3 s'
      \<and> dir_entry s' i = table_at s' i OR 3" if i: "present s' i" for i
  proof -
    from tab pr [OF i] obtain P where P: "kpage P" "taken t P" "P \<noteq> pde" "get32 t (slot pde i) = P OR 3"
      by blast
    moreover have "(P OR 3) AND NOT 0xfff = P" using entry_page [of P 3] P(1) by (simp add: kpage_def)
    ultimately show ?thesis by (simp add: s' taken_def)
  qed
  have "kpage (CR3 s')" "taken s' (CR3 s')" using inv by (simp_all add: tables_inv_def s' taken_def)
  moreover have "i = j" if "present s' i" "present s' j" "table_at s' i = table_at s' j" for i j
  proof -
    have "dir_entry s' i = dir_entry s' j" using at that by metis
    then have "get32 t (slot pde i) = get32 t (slot pde j)" by (simp add: s')
    moreover have "i \<in> {..<min 1024 (n + 1)}" "j \<in> {..<min 1024 (n + 1)}"
      using pr [OF that(1)] pr [OF that(2)] unfolding lessThan_iff by linarith+
    ultimately show "i = j" using inj by (auto dest: inj_onD)
  qed
  ultimately show ?thesis using at by (auto simp: space_ok_def)
qed

lemma do_no_page_steps:
  assumes "do_no_page err addr s = Some s'" and ok: "space_ok s"
  obtains pd s1 r where "uget_free_page s = Some (pd, s1)" and "put_page addr pd s1 = Some (r, s')"
    and "page pd" and "taken s1 pd" and "\<not> taken s pd" and "space_ok s1"
proof -
  from assms(1) obtain pd s1 r where u: "uget_free_page s = Some (pd, s1)"
    and p: "put_page addr pd s1 = Some (r, s')"
    by (auto simp: do_no_page_def bind_eq_Some_conv)
  have "page pd" by (rule user_pages.get_page [OF u])
  moreover from this have "taken s1 pd" using user_pages.taken_after [OF u] by simp
  ultimately show ?thesis
    using that [OF u p] user_pages.get_fresh [OF u] user_pages.space_after(1) [OF u ok] by blast
qed

lemma do_no_page_ok:
  assumes "do_no_page err addr s = Some s'" and ok: "space_ok s"
  shows "space_ok s' \<and> CR3 s' = CR3 s
    \<and> (\<forall>va. drop_bit 12 va \<noteq> drop_bit 12 addr \<longrightarrow> present s (dir_of addr) \<or> dir_of va \<noteq> dir_of addr
        \<longrightarrow> walk (mem s') (CR3 s') va = walk (mem s) (CR3 s) va)
    \<and> (\<exists>pd w u. page pd \<and> \<not> taken s pd \<and> walk (mem s') (CR3 s') addr = Some (pd OR (addr AND 0xfff), w, u)
        \<and> (\<not> present s (dir_of addr) \<longrightarrow> w \<and> u))"
proof (rule do_no_page_steps [OF assms])
  fix pd s1 r
  assume u: "uget_free_page s = Some (pd, s1)" and p: "put_page addr pd s1 = Some (r, s')"
    and pd: "page pd" "taken s1 pd" "\<not> taken s pd" and ok1: "space_ok s1"
  note sp = user_pages.space_after [OF u ok]
  have C: "CR3 s1 = CR3 s" by (rule user_pages.globals_kept(5) [OF u])
  show ?thesis
  proof (cases "present s1 (dir_of addr)")
    case True
    with put_page_old_spec [OF ok1 pd(1,2) True] p sp(2,4) pd C show ?thesis by auto
  next
    case False
    with put_page_new_spec [OF ok1 pd(1,2) False p] sp(2,4) pd C show ?thesis by auto
  qed
qed

text \<open>
  The life of the kernel's address space: paging is opened, pages are taken, and the
  processor reports faults at addresses it cannot translate.
\<close>

inductive paging_run :: "machine \<Rightarrow> machine \<Rightarrow> bool" for s0 :: machine where
  boot: "open_pagination s0 = Some (pde, s) \<Longrightarrow> paging_run s0 s"
| kernel: "paging_run s0 s \<Longrightarrow> get_free_page s = Some (p, s') \<Longrightarrow> paging_run s0 s'"
| user: "paging_run s0 s \<Longrightarrow> uget_free_page s = Some (p, s') \<Longrightarrow> paging_run s0 s'"
| fault: "paging_run s0 s \<Longrightarrow> walk (mem s) (CR3 s) va = None \<Longrightarrow> do_no_page err va s = Some s'
    \<Longrightarrow> paging_run s0 s'"

lemma walk_frame:
  assumes "drop_bit 12 va = drop_bit 12 wa"
  shows "walk m c va = None \<longleftrightarrow> walk m c wa = None"
proof -
  have "drop_bit 22 va = drop_bit 22 wa" using assms [unfolded same_frame] by (simp only: word_unat_eq_iff)
  then show ?thesis by (simp add: walk_def Let_def assms)
qed

lemma paging_run_keeps:
  assumes "paging_run s0 s"
  shows "space_ok s \<and> (\<forall>va. drop_bit 12 va < drop_bit 12 (KMEM s0)
    \<longrightarrow> walk (mem s) (CR3 s) va = Some (va, True, False))"
  using assms
proof (induction rule: paging_run.induct)
  case (boot pde s)
  then show ?case using open_pagination_space open_pagination_maps by blast
next
  case (kernel s p s')
  then show ?case using kernel_pages.space_after by metis
next
  case (user s p s')
  then show ?case using user_pages.space_after by metis
next
  case (fault s va err s')
  note f = do_no_page_ok [OF fault.hyps(3)]
  have "walk (mem s') (CR3 s') wa = Some (wa, True, False)"
    if w: "drop_bit 12 wa < drop_bit 12 (KMEM s0)" for wa
  proof -
    have a: "walk (mem s) (CR3 s) wa = Some (wa, True, False)" using fault.IH w by blast
    then have "present s (dir_of wa)"
      using walk_space [of s wa] fault.IH space_okD(2) [of s] by (auto split: if_splits)
    moreover have "drop_bit 12 wa \<noteq> drop_bit 12 va"
      using walk_frame [of wa va "mem s" "CR3 s"] a fault.hyps(2) by auto
    ultimately show ?thesis using f fault.IH a by auto
  qed
  then show ?case using f fault.IH by blast
qed

lemma open_pagination_total:
  assumes "unat (KMEM s) div 4194304 + 2 \<le> card (free_pages s)"
  shows "\<exists>pde s'. open_pagination s = Some (pde, s')"
proof -
  have "free_pages s \<noteq> {}" using assms by auto
  then obtain pde s1 where g: "get_free_page s = Some (pde, s1)"
    using get_free_page_progress by blast
  have K: "KMEM s1 = KMEM s" by (rule kernel_pages.globals_kept(1) [OF g])
  have c: "unat (KMEM s1) div 4194304 + 1 \<le> card (free_pages s1)"
    using assms free_pages_get [OF g] by (simp add: K)
  have "\<exists>t. for_each (pde_body pde) [0..<1024] s1 = Some t \<and> tables_inv pde s1 1024 t"
  proof (rule for_each_upt_total [where I = "tables_inv pde s1", OF tables_inv_start [OF g]])
    fix i t
    assume i: "i < 1024" "tables_inv pde s1 i t"
    from pde_body_returns [OF i finite c] obtain t' where "pde_body pde i t = Some t'" by blast
    with pde_body_inv [OF i] show "\<exists>t'. pde_body pde i t = Some t' \<and> tables_inv pde s1 (Suc i) t'"
      by blast
  qed
  with g show ?thesis by (auto simp: open_pagination_def)
qed

lemma put_page_returns:
  assumes "get_free_page s = Some (pg, s1)"
  shows "\<exists>r s'. put_page vd pd s = Some (r, s')"
  by (simp add: put_page_def Let_def assms)

lemma do_no_page_returns:
  assumes ok: "space_ok s" and "2 \<le> card (free_pages s)"
  shows "\<exists>s'. do_no_page err addr s = Some s'"
proof -
  have "\<exists>pd s1. uget_free_page s = Some (pd, s1) \<and> free_pages s1 \<noteq> {}"
  proof (cases "uget_free_page s = get_free_page s")
    case True
    have "free_pages s \<noteq> {}" using assms(2) by auto
    then obtain pd s1 where g: "get_free_page s = Some (pd, s1)" using get_free_page_progress by blast
    have "1 \<le> card (free_pages s1)" using free_pages_get [OF g] assms(2) by simp
    then have "free_pages s1 \<noteq> {}" by auto
    with g True show ?thesis by auto
  next
    case False
    then obtain i where sc: "scan_free (mem s) (drop_bit 12 (KMEM s)) (drop_bit 12 (HMEM s)) = Some i"
      by (auto simp: uget_free_page_def split: option.splits)
    then have i: "uget_free_page s = Some (push_bit 12 i, set_mmap i 1 s)"
      "drop_bit 12 (KMEM s) \<le> i"
      using scan_free_Some [OF sc] by (simp_all add: uget_free_page_def)
    have "p \<in> free_pages (set_mmap i 1 s)" if "p \<in> free_pages s" for p
      using that i(2) by (auto simp: free_pages_def taken_def word_le_nat_alt unat_frame)
    moreover have "free_pages s \<noteq> {}" using assms(2) by auto
    ultimately show ?thesis using i(1) by blast
  qed
  then obtain pd s1 where u: "uget_free_page s = Some (pd, s1)" and f: "free_pages s1 \<noteq> {}" by blast
  obtain pg s2 where g: "get_free_page s1 = Some (pg, s2)" using f get_free_page_progress by blast
  from put_page_returns [OF this] obtain r s' where "put_page addr pd s1 = Some (r, s')" by blast
  with u show ?thesis by (auto simp: do_no_page_def)
qed

section \<open>Properties\<close>

text \<open>
  C33: after \<open>open_pagination\<close> the processor translates every address in a whole frame below
  \<open>KMEM\<close> to itself, writable and supervisor only; paging and write protection are on and the
  directory is the page that was returned.
\<close>

theorem open_pagination_identity:
  assumes "open_pagination s = Some (pde, s')" and "drop_bit 12 va < drop_bit 12 (KMEM s)"
  shows "walk (mem s') (CR3 s') va = Some (va, True, False)
    \<and> CR3 s' = pde \<and> CR0 s' = CR0 s OR 0x80010000"
  using assms by (rule open_pagination_maps)

text \<open>
  \<open>open_pagination\<close> returns whenever the kernel region holds enough free frames: one for
  the directory and one for every started 4 MB below \<open>KMEM\<close>.
\<close>

theorem open_pagination_returns:
  assumes "unat (KMEM s) div 4194304 + 2 \<le> card (free_pages s)"
  shows "\<exists>pde s'. open_pagination s = Some (pde, s')"
  using assms by (rule open_pagination_total)

text \<open>
  C1: in every run of the kernel from \<open>open_pagination\<close> on, pages being taken and page faults
  being served by \<open>do_no_page\<close> in any order, the directory and the tables stay distinct pages
  in use and every address below \<open>KMEM\<close> stays mapped to itself.
\<close>

theorem paging_run_identity:
  assumes "paging_run s0 s"
  shows "space_ok s \<and> (\<forall>va. drop_bit 12 va < drop_bit 12 (KMEM s0)
    \<longrightarrow> walk (mem s) (CR3 s) va = Some (va, True, False))"
  using assms by (rule paging_run_keeps)

text \<open>
  C7: serving a page fault. With two free kernel frames left \<open>do_no_page\<close> returns; the faulting
  address is then translated into a frame that was free, for user and write access if the
  table was created for it; no other translation changes outside a newly created table; and the
  tables stay well formed.
\<close>

theorem do_no_page_maps:
  assumes "space_ok s" and "2 \<le> card (free_pages s)"
  shows "\<exists>s'. do_no_page err addr s = Some s' \<and> space_ok s' \<and> CR3 s' = CR3 s
    \<and> (\<forall>va. drop_bit 12 va \<noteq> drop_bit 12 addr \<longrightarrow> present s (dir_of addr) \<or> dir_of va \<noteq> dir_of addr
        \<longrightarrow> walk (mem s') (CR3 s') va = walk (mem s) (CR3 s) va)
    \<and> (\<exists>pd w u. page pd \<and> \<not> taken s pd \<and> walk (mem s') (CR3 s') addr = Some (pd OR (addr AND 0xfff), w, u)
        \<and> (\<not> present s (dir_of addr) \<longrightarrow> w \<and> u))"
  using do_no_page_returns [OF assms] do_no_page_ok [OF _ assms(1)] by blast

text \<open>
  C37: the table \<open>put_page\<close> adds for a fault is not cleared. The addresses of the same 4 MB,
  none of which was mapped, are translated after the fault by the old contents of the page that
  became the table.
\<close>

theorem new_table_keeps_stale_entries:
  assumes "space_ok s" and "\<not> present s (dir_of addr)"
    and "uget_free_page s = Some (pd, s1)" and "get_free_page s1 = Some (pg, s2)"
    and "dir_of va = dir_of addr" and "drop_bit 12 va \<noteq> drop_bit 12 addr"
  shows "walk (mem s) (CR3 s) va = None
    \<and> (\<exists>s'. do_no_page err addr s = Some s'
        \<and> walk (mem s') (CR3 s') va = entry_walk (pg OR 7) (get32 s (slot pg (ent_of va))) va)"
proof -
  note sp = user_pages.space_after [OF assms(3,1)]
  have pd: "page pd" "taken s1 pd"
    using user_pages.get_page [OF assms(3)] user_pages.taken_after [OF assms(3)] by auto
  have pg: "kpage pg" by (rule kernel_kpage(1) [OF assms(4)])
  have np: "\<not> present s1 (dir_of addr)" using assms(2) sp(2) by simp
  obtain r s' where pp: "put_page addr pd s1 = Some (r, s')"
    using put_page_returns [OF assms(4)] by blast
  from put_page_new_spec [OF sp(1) pd np pp] assms(4-6)
  have "walk (mem s') (CR3 s') va = entry_walk (pg OR 7) (get32 s1 (slot pg (ent_of va))) va" by auto
  moreover have "get32 s1 (slot pg (ent_of va)) = get32 s (slot pg (ent_of va))"
    by (rule user_pages.get32_after [OF assms(3) pg table_index])
  moreover have "walk (mem s) (CR3 s) va = None"
    using walk_space [OF space_okD(2) [OF assms(1)], of va] assms(2,5) by simp
  ultimately show ?thesis using pp assms(3) by (auto simp: do_no_page_def)
qed

section \<open>Witnesses\<close>

lemma free_machine_pages: "4 \<le> card (free_pages free_machine)"
proof -
  have "{0x400000, 0x401000, 0x402000, 0x403000} \<subseteq> free_pages free_machine"
    by (simp add: free_pages_def kpage_def page_def taken_def free_machine_simps)
  from card_mono [OF finite this] show ?thesis by simp
qed

lemma free_machine_paging: "\<exists>pde s'. open_pagination free_machine = Some (pde, s')"
  by (rule open_pagination_total) (use free_machine_pages in \<open>simp add: free_machine_simps\<close>)

theorem open_pagination_identity_witness:
  "\<exists>pde s'. open_pagination free_machine = Some (pde, s')
    \<and> walk (mem s') (CR3 s') 0x123456 = Some (0x123456, True, False)"
  using free_machine_paging open_pagination_identity [of free_machine _ _ "0x123456"]
  by (auto simp: free_machine_simps drop_bit_eq_div)

theorem open_pagination_returns_witness:
  "\<exists>pde s'. open_pagination free_machine = Some (pde, s')"
  by (rule open_pagination_returns) (use free_machine_pages in \<open>simp add: free_machine_simps\<close>)

theorem paging_run_identity_witness:
  "\<exists>s. paging_run free_machine s \<and> walk (mem s) (CR3 s) 0x7FFFFF = Some (0x7FFFFF, True, False)"
proof -
  obtain pde s where "open_pagination free_machine = Some (pde, s)" using free_machine_paging by blast
  then have "paging_run free_machine s" by (rule paging_run.boot)
  with paging_run_identity [OF this] show ?thesis
    by (auto simp: free_machine_simps drop_bit_eq_div)
qed

text \<open>A machine with an empty directory at 4 MB, the next frame full of old data.\<close>

definition space_machine :: machine where
  "space_machine = free_machine\<lparr>CR3 := 0x400000, mem :=
     (\<lambda>a. if 0x401000 \<le> a \<and> a < 0x402000 then 0xFF else if a = 0x200400 then 1 else 0)\<rparr>"

lemma space_machine_simps:
  "mem space_machine = (\<lambda>a. if 0x401000 \<le> a \<and> a < 0x402000 then 0xFF else if a = 0x200400 then 1 else 0)"
  "KMEM space_machine = 0x800000" "HMEM space_machine = 0x1000000" "CR3 space_machine = 0x400000"
  by (simp_all add: space_machine_def free_machine_simps)

lemma space_machine_empty: "\<not> present space_machine i"
proof
  assume "present space_machine i"
  then have i: "i < 1024" and e: "get32 space_machine (slot 0x400000 i) AND 1 \<noteq> 0"
    by (simp_all add: present_def space_machine_simps)
  have "mem space_machine (slot 0x400000 i + of_nat k) = 0" if "k < 4" for k
  proof -
    have "unat (slot (0x400000 :: u32) i + of_nat k) = 0x400000 + 4 * i + k"
      using unat_add_nat [of "0x400000" "4 * i + k"] i that by (simp add: add.assoc)
    then show ?thesis
      using i that by (auto simp: space_machine_simps word_le_nat_alt word_less_nat_alt word_unat_eq_iff)
  qed
  then have "get32 space_machine (slot 0x400000 i) = load32 (\<lambda>_. 0) (slot 0x400000 i)"
    by (rule load32_cong)
  with e show False by (simp add: load32_def)
qed

lemma space_machine_ok: "space_ok space_machine"
  by (simp add: space_ok_def space_machine_empty space_machine_simps kpage_def page_def taken_def
      MMAP_ADDR_def drop_bit_eq_div)

theorem do_no_page_maps_witness:
  "\<exists>s' pd w u. do_no_page 2 0x40000123 space_machine = Some s'
    \<and> walk (mem s') (CR3 s') 0x40000123 = Some (pd OR 0x123, w, u)"
proof -
  have "{0x401000, 0x402000} \<subseteq> free_pages space_machine"
    by (simp add: free_pages_def kpage_def page_def taken_def space_machine_simps MMAP_ADDR_def
        drop_bit_eq_div)
  from card_mono [OF finite this] have "2 \<le> card (free_pages space_machine)" by simp
  from do_no_page_maps [OF space_machine_ok this, of 2 "0x40000123"] show ?thesis by auto
qed

theorem new_table_keeps_stale_entries_witness:
  "\<exists>s'. do_no_page 2 0x40000000 space_machine = Some s'
    \<and> walk (mem space_machine) (CR3 space_machine) 0x40001000 = None
    \<and> walk (mem s') (CR3 s') 0x40001000 = Some (0xFFFFF000, True, True)"
proof -
  let ?s1 = "set_mmap 0x800 1 space_machine"
  have u: "uget_free_page space_machine = Some (0x800000, ?s1)"
  proof -
    have "scan_free (mem space_machine) 0x800 0x1000 = Some 0x800"
      by (subst scan_free.simps) (simp add: space_machine_simps MMAP_ADDR_def)
    then show ?thesis
      by (simp add: uget_free_page_def space_machine_simps(2,3) drop_bit_eq_div push_bit_eq_mult)
  qed
  have g: "get_free_page ?s1 = Some (0x401000, set_mmap 0x401 1 ?s1)"
  proof -
    have "scan_free (mem ?s1) 0x400 0x800 = Some 0x401"
      by (subst scan_free.simps, subst scan_free.simps) (simp add: space_machine_simps MMAP_ADDR_def)
    then show ?thesis
      by (simp add: get_free_page_cases space_machine_simps(2,3) drop_bit_eq_div push_bit_eq_mult)
  qed
  have "load32 (mem space_machine) 0x401004 = 0xFFFFFFFF"
    by (simp add: load32_def space_machine_simps)
  then have e: "entry_walk (0x401000 OR 7) (get32 space_machine (slot 0x401000 (ent_of 0x40001000))) 0x40001000
      = Some (0xFFFFF000, True, True)"
    by (simp add: drop_bit_eq_div entry_walk_def)
  have "dir_of 0x40001000 = dir_of 0x40000000" "drop_bit 12 (0x40001000 :: u32) \<noteq> drop_bit 12 0x40000000"
    by (simp_all add: drop_bit_eq_div)
  from new_table_keeps_stale_entries [OF space_machine_ok space_machine_empty u g this, of 2]
  show ?thesis unfolding e by blast
qed

end
