(* ===== verification/Trap.thy ===== *)
theory Trap
  imports CString
begin

text \<open>
  \<open>kernel/trap.c\<close> and \<open>include/x86/trap.h\<close>: the interrupt descriptor table at \<open>IDT_ADDR\<close>, its
  gates, and the programming of the timer and the interrupt controller. The addresses of the
  assembly entry points of \<open>kernel/int.S\<close> are chosen by the linker and come as a record.
\<close>

unbundle bit_operations_syntax

section \<open>The code\<close>

text \<open>Entry points of \<open>kernel/int.S\<close>.\<close>

record entry_points =
  null_int :: u32
  ts_int :: u32
  int_0 :: u32
  int_1 :: u32
  int_2 :: u32
  int_3 :: u32
  int_4 :: u32
  int_5 :: u32
  int_6 :: u32
  int_7 :: u32
  int_8 :: u32
  int_9 :: u32
  int_11 :: u32
  int_12 :: u32
  int_13 :: u32
  int_15 :: u32
  int_16 :: u32
  int_17 :: u32
  int_18 :: u32
  int_19 :: u32
  page_fault :: u32
  NCI_int :: u32

definition KER_CODE_SEC :: u32 where "KER_CODE_SEC = 0x8"
definition IDT_ADDR :: u32 where "IDT_ADDR = 0x100000"
definition INT_GATE :: u16 where "INT_GATE = 0x8E00"
definition TRA_GATE :: u16 where "TRA_GATE = 0x8F00"
definition IDT_R0 :: u16 where "IDT_R0 = 0x0000"
definition LATCH :: u32 where "LATCH = 1193180"

definition install_int :: "u32 \<Rightarrow> u32 \<Rightarrow> u32 \<Rightarrow> u16 \<Rightarrow> machine \<Rightarrow> machine" where
  "install_int num func section attr s =
     (let idt = IDT_ADDR + 8 * num;
          m = store16 (mem s) idt (ucast func AND 0xFFFF);
          m = store16 m (idt + 6) (ucast (drop_bit 16 func) AND 0xFFFF);
          m = store16 m (idt + 2) (ucast section);
          m = store16 m (idt + 4) attr
      in s\<lparr>mem := m\<rparr>)"

text \<open>
  The counter value \<open>LATCH >> 8\<close> does
  not fit in \<open>al\<close>; the low eight bits are sent.
\<close>

definition trap_init :: "device \<Rightarrow> entry_points \<Rightarrow> machine \<Rightarrow> machine" where
  "trap_init dev H s =
     (let gate = (\<lambda>(num, func). install_int num func KER_CODE_SEC (INT_GATE OR IDT_R0));
          s = fold (\<lambda>i. gate (of_nat i, null_int H)) [0..<256] s;
          s = fold gate
            [(0, int_0 H), (1, int_1 H), (2, int_2 H), (3, int_3 H), (4, int_4 H), (5, int_5 H),
             (6, int_6 H), (7, int_7 H), (8, int_8 H), (9, int_9 H), (10, ts_int H),
             (11, int_11 H), (12, int_12 H), (13, int_13 H), (15, int_15 H), (16, int_16 H),
             (17, int_17 H), (18, int_18 H), (19, int_19 H)] s;
          s = outb_p 0x36 0x43 s;
          s = outb_p (ucast (LATCH AND 0xFF)) 0x40 s;
          s = outb_p (ucast (drop_bit 8 LATCH)) 0x40 s;
          s = gate (0x23, NCI_int H) s;
          (mask, s) = inb_p dev 0x21 s
      in outb_p (mask AND NOT 0x8) 0x21 s)"

section \<open>Gates\<close>

text \<open>What the processor reads from descriptor \<open>n\<close>: offset, selector and attributes.\<close>

definition gate_at :: "mem \<Rightarrow> u32 \<Rightarrow> u32 \<times> u16 \<times> u16" where
  "gate_at m n =
     (let d = IDT_ADDR + 8 * n
      in (push_bit 16 (ucast (load16 m (d + 6))) OR ucast (load16 m d),
          load16 m (d + 2), load16 m (d + 4)))"

lemma unat_idt:
  assumes "unat n < 256"
  shows "unat (IDT_ADDR + 8 * n) = 0x100000 + 8 * unat n"
    and "j < 8 \<Longrightarrow> unat (IDT_ADDR + 8 * n + of_nat j) = 0x100000 + 8 * unat n + j"
proof -
  have "unat (8 * n) = 8 * unat n" using assms by (simp add: unat_word_ariths)
  with assms show u: "unat (IDT_ADDR + 8 * n) = 0x100000 + 8 * unat n"
    by (simp add: IDT_ADDR_def unat_word_ariths)
  show "unat (IDT_ADDR + 8 * n + of_nat j) = 0x100000 + 8 * unat n + j" if "j < 8"
    using unat_add_nat [of "IDT_ADDR + 8 * n" j] assms that by (simp add: u)
qed

lemma unat_gate:
  assumes "unat n < 256"
  shows "unat (IDT_ADDR + 8 * n + 2) = 0x100002 + 8 * unat n"
    and "unat (IDT_ADDR + 8 * n + 4) = 0x100004 + 8 * unat n"
    and "unat (IDT_ADDR + 8 * n + 6) = 0x100006 + 8 * unat n"
  using unat_idt(2) [OF assms, of 2] unat_idt(2) [OF assms, of 4] unat_idt(2) [OF assms, of 6]
  by simp_all

lemma offset_split:
  "push_bit 16 (ucast (ucast (drop_bit 16 f) AND 0xFFFF :: u16)) OR ucast (ucast f AND 0xFFFF :: u16)
    = (f :: u32)"
proof -
  have m: "(0xFFFF :: u16) = mask 16" by (simp add: mask_eq_exp_minus_1)
  show ?thesis unfolding m by (rule bit_word_eqI) (auto simp: bit_simps)
qed

lemma gate_install:
  assumes "unat n < 256" and "unat k < 256"
  shows "gate_at (mem (install_int n f sec att s)) k
    = (if k = n then (f, ucast sec, att) else gate_at (mem s) k)"
proof -
  note u = unat_idt(1) [OF assms(1)] unat_idt(1) [OF assms(2)]
    unat_gate [OF assms(1)] unat_gate [OF assms(2)]
  show ?thesis
  proof (cases "k = n")
    case True
    then show ?thesis
      using assms(1) by (simp add: gate_at_def install_int_def Let_def apart_def u
          load16_store16_apart offset_split)
  next
    case False
    then have "unat k < unat n \<or> unat n < unat k" by (simp add: word_unat_eq_iff) linarith
    then have "apart (IDT_ADDR + 8 * n + of_nat i) 2 (IDT_ADDR + 8 * k + of_nat j) 2"
      if "i < 7" "j < 7" for i j
      using that assms unat_idt(2) [OF assms(1), of i] unat_idt(2) [OF assms(2), of j]
      unfolding apart_def by auto
    from this[of 0 0] this[of 0 2] this[of 0 4] this[of 0 6] this[of 2 0] this[of 2 2]
      this[of 2 4] this[of 2 6] this[of 4 0] this[of 4 2] this[of 4 4] this[of 4 6]
      this[of 6 0] this[of 6 2] this[of 6 4] this[of 6 6] False
    show ?thesis
      by (simp add: gate_at_def install_int_def Let_def load16_store16_apart)
  qed
qed

lemma install_frame:
  assumes "unat n < 256" and "\<not> in_range IDT_ADDR 2048 a"
  shows "mem (install_int n f sec att s) a = mem s a"
proof -
  have "apart (IDT_ADDR + 8 * n + of_nat j) 2 a 1" if "j < 7" for j
    using that assms u32_bound [of a] unat_idt(2) [OF assms(1), of j]
    by (auto simp: apart_def in_range_def IDT_ADDR_def)
  from this[of 0] this[of 2] this[of 4] this[of 6] show ?thesis
    by (simp add: install_int_def Let_def store16_byte)
qed

lemma install_other [simp]:
  "io (install_int n f sec att s) = io s"
  "install_int n f sec att (s\<lparr>io := e\<rparr>) = (install_int n f sec att s)\<lparr>io := e\<rparr>"
  by (simp_all add: install_int_def Let_def)

section \<open>A sequence of installations\<close>

abbreviation gates :: "(u32 \<times> u32) list \<Rightarrow> machine \<Rightarrow> machine" where
  "gates \<equiv> fold (\<lambda>(num, func). install_int num func KER_CODE_SEC (INT_GATE OR IDT_R0))"

lemma gates_at:
  assumes "\<forall>(n, f) \<in> set vs. unat n < 256" and "unat k < 256"
  shows "gate_at (mem (gates vs s)) k
    = (case map_of (rev vs) k of None \<Rightarrow> gate_at (mem s) k | Some f \<Rightarrow> (f, 8, 0x8E00))"
  using assms(1)
proof (induction vs rule: rev_induct)
  case (snoc v vs)
  then show ?case
    using assms(2) by (cases v) (auto simp: gate_install KER_CODE_SEC_def INT_GATE_def IDT_R0_def)
qed simp

lemma gates_frame:
  assumes "\<forall>(n, f) \<in> set vs. unat n < 256" and "\<not> in_range IDT_ADDR 2048 a"
  shows "mem (gates vs s) a = mem s a"
  using assms(1) by (induction vs arbitrary: s) (auto simp: install_frame [OF _ assms(2)])

lemma gates_io [simp]: "io (gates vs s) = io s"
  by (induction vs arbitrary: s) auto

text \<open>The exception vectors, with the entry point each is to reach.\<close>

definition exception_vectors :: "entry_points \<Rightarrow> (u32 \<times> u32) list" where
  "exception_vectors H =
     [(0, int_0 H), (1, int_1 H), (2, int_2 H), (3, int_3 H), (4, int_4 H), (5, int_5 H),
      (6, int_6 H), (7, int_7 H), (8, int_8 H), (9, int_9 H), (10, ts_int H),
      (11, int_11 H), (12, int_12 H), (13, int_13 H), (15, int_15 H), (16, int_16 H),
      (17, int_17 H), (18, int_18 H), (19, int_19 H)]"

definition handler_of :: "entry_points \<Rightarrow> u32 \<Rightarrow> u32" where
  "handler_of H n =
     (case map_of (exception_vectors H @ [(0x23, NCI_int H)]) n of None \<Rightarrow> null_int H | Some f \<Rightarrow> f)"

definition default_vectors :: "entry_points \<Rightarrow> (u32 \<times> u32) list" where
  "default_vectors H = map (\<lambda>i. (of_nat i, null_int H)) [0..<256]"

lemma trap_init_gates:
  "mem (trap_init dev H s)
    = mem (gates (default_vectors H @ exception_vectors H @ [(0x23, NCI_int H)]) s)"
  by (simp add: trap_init_def exception_vectors_def default_vectors_def fold_map io_defs comp_def
      split: prod.splits)

lemma vectors_bound:
  "\<forall>(n, f) \<in> set (default_vectors H @ exception_vectors H @ [(0x23, NCI_int H)]). unat n < 256"
  by (auto simp: default_vectors_def exception_vectors_def unat_of_nat)

lemma trap_init_frame:
  "\<not> in_range IDT_ADDR 2048 a \<Longrightarrow> mem (trap_init dev H s) a = mem s a"
  unfolding trap_init_gates by (rule gates_frame [OF vectors_bound])

lemma gates_globals: "KMEM (gates vs s) = KMEM s"
  by (induction vs arbitrary: s) (auto simp: install_int_def Let_def)

lemma trap_init_globals: "KMEM (trap_init dev H s) = KMEM s"
  using gates_globals [of "map (\<lambda>i. (of_nat i, null_int H)) [0..<256]" s]
  by (simp add: trap_init_def io_defs gates_globals fold_map comp_def install_int_def split: prod.splits)

lemma default_vectors_at:
  assumes "unat k < 256"
  shows "map_of (rev (default_vectors H)) k = Some (null_int H)"
proof -
  have "(k, null_int H) \<in> set (default_vectors H)"
    using assms by (force simp: default_vectors_def intro: rev_image_eqI [of "unat k"])
  then obtain f where f: "map_of (rev (default_vectors H)) k = Some f"
    by (cases "map_of (rev (default_vectors H)) k") (auto simp: map_of_eq_None_iff image_iff)
  then have "(k, f) \<in> set (default_vectors H)" by (auto dest: map_of_SomeD)
  with f show ?thesis by (auto simp: default_vectors_def)
qed

lemma map_of_rev_distinct: "distinct (map fst xs) \<Longrightarrow> map_of (rev xs) = map_of xs"
  by (rule map_of_eqI) (auto simp: rev_map [symmetric] dest: map_of_SomeD)

lemma trap_init_gate:
  assumes n: "unat n < 256"
  shows "gate_at (mem (trap_init dev H s)) n = (handler_of H n, 8, 0x8E00)"
proof -
  define V where "V = exception_vectors H @ [(0x23, NCI_int H)]"
  have "distinct (map fst V)" by (simp add: V_def exception_vectors_def)
  then have "map_of (rev V) = map_of V" by (rule map_of_rev_distinct)
  then have "map_of (rev (default_vectors H @ V)) n = Some (handler_of H n)"
    using default_vectors_at [OF n, of H]
    by (simp add: handler_of_def V_def [symmetric] map_add_def split: option.splits)
  with gates_at [OF vectors_bound n, of H s]
  show "gate_at (mem (trap_init dev H s)) n = (handler_of H n, 8, 0x8E00)"
    by (simp only: trap_init_gates V_def option.case)
qed

section \<open>Properties\<close>

text \<open>
  After \<open>trap_init\<close> each of the 256 descriptors is an interrupt gate of ring 0 in the kernel
  code segment, its offset the entry point of its vector: the processor exceptions go to their
  stubs, vector \<open>0x23\<close> to the network card and every other vector, the page fault still
  among them, to the default handler. No byte outside the table changes; the GDT at
  \<open>0x101000\<close> is untouched.
\<close>

theorem trap_init_table:
  "(\<forall>n. unat n < 256 \<longrightarrow> gate_at (mem (trap_init dev H s)) n = (handler_of H n, 8, 0x8E00))
   \<and> (\<forall>a. \<not> in_range IDT_ADDR 2048 a \<longrightarrow> mem (trap_init dev H s) a = mem s a)"
proof (intro conjI allI impI)
  fix n :: u32
  assume "unat n < 256"
  then show "gate_at (mem (trap_init dev H s)) n = (handler_of H n, 8, 0x8E00)" by (rule trap_init_gate)
next
  fix a :: u32
  assume "\<not> in_range IDT_ADDR 2048 a"
  from gates_frame [OF vectors_bound this] show "mem (trap_init dev H s) a = mem s a"
    by (simp only: trap_init_gates)
qed

text \<open>
  The ports \<open>trap_init\<close> programs, in order: mode and counter of the timer, then the
  interrupt mask with bit 3 cleared and every other bit as it was read. The counter is
  \<open>0x34DC\<close>, the low 16 bits of \<open>LATCH\<close>: the clock runs at 88 Hz, not at the 10 ms period the
  comment names.
\<close>

theorem trap_init_ports:
  "let v = ucast (dev (io s @ [OutB 0x43 0x36, OutB 0x40 0xDC, OutB 0x40 0x34]) 0x21)
   in io (trap_init dev H s)
       = io s @ [OutB 0x43 0x36, OutB 0x40 0xDC, OutB 0x40 0x34, InB 0x21 v, OutB 0x21 (v AND NOT 8)]"
proof -
  have io: "io (fold (\<lambda>i. install_int (of_nat i) f KER_CODE_SEC g) xs s) = io s" for f g xs
    by (induction xs arbitrary: s) auto
  have "ucast (drop_bit 8 LATCH) = (0x34 :: u8)" "ucast (LATCH AND 0xFF) = (0xDC :: u8)"
    by (simp_all add: LATCH_def drop_bit_eq_div)
  then show ?thesis
    by (simp add: trap_init_def io_defs io split: prod.splits)
qed

section \<open>Witnesses\<close>

text \<open>Entry points at arbitrary addresses.\<close>

definition sample_stubs :: entry_points where
  "sample_stubs = \<lparr>null_int = 0x301000, ts_int = 0x301010, int_0 = 0x301020, int_1 = 0x301030,
     int_2 = 0x301040, int_3 = 0x301050, int_4 = 0x301060, int_5 = 0x301070, int_6 = 0x301080,
     int_7 = 0x301090, int_8 = 0x3010A0, int_9 = 0x3010B0, int_11 = 0x3010C0, int_12 = 0x3010D0,
     int_13 = 0x3010E0, int_15 = 0x3010F0, int_16 = 0x301100, int_17 = 0x301110,
     int_18 = 0x301120, int_19 = 0x301130, page_fault = 0x301140, NCI_int = 0x301150\<rparr>"

theorem trap_init_table_witness:
  "gate_at (mem (trap_init (\<lambda>_ _. 0) sample_stubs (boot_machine (\<lambda>_. 0) 0x310000))) 13
    = (0x3010E0, 8, 0x8E00)"
  using trap_init_table [of "\<lambda>_ _. 0" sample_stubs "boot_machine (\<lambda>_. 0) 0x310000"]
  by (simp add: handler_of_def exception_vectors_def sample_stubs_def)

end
