(* ===== verification/MemInit.thy ===== *)
theory MemInit
  imports Paging Trap
begin

text \<open>
  How \<open>kernel/mm.c\<close> sets up the frame counts before paging starts: \<open>mmap_init\<close> from the memory
  map a multiboot loader passes, \<open>mm_init\<close> from the two sizes it passes otherwise. \<open>None\<close> is a
  call that does not return: a memory map whose entries never reach its end, or an
  \<open>open_pagination\<close> that finds no frame.
\<close>

unbundle bit_operations_syntax

section \<open>The code\<close>

text \<open>Fields of \<open>memory_map_t\<close> at address \<open>p\<close>.\<close>

abbreviation mm_size :: "mem \<Rightarrow> u32 \<Rightarrow> u32" where "mm_size m p \<equiv> load32 m p"
abbreviation mm_base_addr_low :: "mem \<Rightarrow> u32 \<Rightarrow> u32" where "mm_base_addr_low m p \<equiv> load32 m (p + 4)"
abbreviation mm_length_low :: "mem \<Rightarrow> u32 \<Rightarrow> u32" where "mm_length_low m p \<equiv> load32 m (p + 12)"
abbreviation mm_type :: "mem \<Rightarrow> u32 \<Rightarrow> u32" where "mm_type m p \<equiv> load32 m (p + 20)"

text \<open>The inner loop; the length is read again in every iteration.\<close>

function mark_entry :: "u8 \<Rightarrow> u32 \<Rightarrow> nat \<Rightarrow> machine \<Rightarrow> machine" where
  "mark_entry busy p i s =
     (if i < unat (drop_bit 12 (mm_length_low (mem s) p))
      then mark_entry busy p (i + 1) (set_mmap (of_nat i) busy s)
      else s)"
  by pat_completeness auto
termination
proof (relation "measure (\<lambda>(busy, p, i, s). 2 ^ 20 - i)")
  fix busy :: u8 and p i and s :: machine
  assume "i < unat (drop_bit 12 (mm_length_low (mem s) p))"
  moreover have "unat (drop_bit 12 (mm_length_low (mem s) p)) < 2 ^ 20"
    using u32_bound [of "mm_length_low (mem s) p"] by (simp add: unat_frame div_less_iff_less_mult)
  ultimately show "((busy, p, i + 1, set_mmap (of_nat i) busy s), (busy, p, i, s))
      \<in> measure (\<lambda>(busy, p, i, s). 2 ^ 20 - i)"
    by simp
qed simp

declare mark_entry.simps [simp del]

partial_function (option) map_loop :: "u32 \<Rightarrow> u32 \<Rightarrow> machine \<Rightarrow> machine option" where
  "map_loop addr stop s =
     (if addr < stop
      then let (s, busy) =
                 (if mm_type (mem s) addr = 1
                  then (s\<lparr>HMEM := mm_base_addr_low (mem s) addr + mm_length_low (mem s) addr\<rparr>, 0)
                  else (s, 100));
               s = mark_entry busy addr 0 s
           in map_loop (addr + (mm_size (mem s) addr + 4)) stop s
      else Some s)"

definition all_busy :: "machine \<Rightarrow> machine" where
  "all_busy s = fold (\<lambda>i. set_mmap (of_nat i) 100) [0..<0x100000] s"

text \<open>The common end of both functions.\<close>

definition start_paging :: "entry_points \<Rightarrow> machine \<Rightarrow> machine option" where
  "start_paging H s =
     (let s = (if HMEM s < KMEM s then s\<lparr>KMEM := HMEM s\<rparr> else s);
          s = install_int 14 (page_fault H) KER_CODE_SEC (TRA_GATE OR IDT_R0) s
      in do { (pde, s) \<leftarrow> open_pagination s; Some s })"

definition mmap_init :: "entry_points \<Rightarrow> u32 \<Rightarrow> u32 \<Rightarrow> machine \<Rightarrow> machine option" where
  "mmap_init H addr len s =
     (let stop = len + addr
      in do { s \<leftarrow> map_loop addr stop (all_busy s); start_paging H s })"

definition mm_init :: "entry_points \<Rightarrow> u32 \<Rightarrow> u32 \<Rightarrow> machine \<Rightarrow> machine option" where
  "mm_init H lower upper s =
     (let s = all_busy s;
          s = fold (\<lambda>i. set_mmap (of_nat i) 0) [0x10..<unat (drop_bit 2 upper)] s
      in start_paging H (s\<lparr>HMEM := upper\<rparr>))"

section \<open>Filling the frame counts\<close>

lemma frame_index:
  assumes "i < 0x100000" and "j < 0x100000"
  shows "(of_nat i :: u32) = of_nat j \<longleftrightarrow> i = j"
proof
  assume "(of_nat i :: u32) = of_nat j"
  then have "unat (of_nat i :: u32) = unat (of_nat j :: u32)" by simp
  then show "i = j" using assms by (simp add: unat_of_nat)
qed simp

text \<open>A run of equal counts, as a fold over the frames.\<close>

abbreviation fill_counts :: "u8 \<Rightarrow> nat \<Rightarrow> nat \<Rightarrow> machine \<Rightarrow> machine" where
  "fill_counts c k n \<equiv> fold (\<lambda>i. set_mmap (of_nat i) c) [k..<n]"

lemma fill_counts_only: "only_mem s (fill_counts c k n s)"
  by (induction n) auto

lemma fill_counts_at:
  assumes "n \<le> 0x100000" and "j < 0x100000"
  shows "mmap (fill_counts c k n s) (of_nat j) = (if k \<le> j \<and> j < n then c else mmap s (of_nat j))"
  using assms(1)
proof (induction n)
  case (Suc n)
  have "(of_nat j :: u32) = of_nat n \<longleftrightarrow> j = n" by (rule frame_index) (use Suc.prems assms(2) in auto)
  with Suc show ?case by (cases "k \<le> n") (auto simp: less_Suc_eq)
qed simp

lemma fill_counts_frame:
  assumes "n \<le> 0x100000" and "\<not> in_range MMAP_ADDR 0x100000 a"
  shows "mem (fill_counts c k n s) a = mem s a"
  using assms(1)
proof (induction n)
  case (Suc n)
  have "a \<noteq> MMAP_ADDR + of_nat n"
    using unat_add_nat [of MMAP_ADDR n] Suc.prems assms(2) by (auto simp: in_range_def MMAP_ADDR_def)
  with Suc show ?case by (cases "k \<le> n") auto
qed simp

text \<open>An entry that lies clear of the counts is marked as one run.\<close>

lemma load32_clear:
  assumes "apart MMAP_ADDR 0x100000 p 24" and "k \<le> 20"
    and "\<And>a. \<not> in_range MMAP_ADDR 0x100000 a \<Longrightarrow> m a = m' a"
  shows "load32 m (p + of_nat k) = load32 m' (p + of_nat k)"
proof (rule load32_cong)
  fix l :: nat
  assume "l < 4"
  have "unat (p + of_nat (k + l)) = unat p + (k + l)"
    by (rule unat_add_nat) (use assms(1,2) \<open>l < 4\<close> in \<open>auto simp: apart_def\<close>)
  then have "unat (p + of_nat k + of_nat l) = unat p + (k + l)" by (simp add: add.assoc)
  then have "\<not> in_range MMAP_ADDR 0x100000 (p + of_nat k + of_nat l)"
    using assms(1,2) \<open>l < 4\<close> by (auto simp: apart_def in_range_def)
  then show "m (p + of_nat k + of_nat l) = m' (p + of_nat k + of_nat l)" by (rule assms(3))
qed

lemma mark_entry_fill:
  assumes "apart MMAP_ADDR 0x100000 p 24"
  shows "mark_entry busy p i s = fill_counts busy i (unat (drop_bit 12 (mm_length_low (mem s) p))) s"
  using assms
proof (induction busy p i s rule: mark_entry.induct)
  case (1 busy p i s)
  let ?n = "unat (drop_bit 12 (mm_length_low (mem s) p))" and ?s = "set_mmap (of_nat i) busy s"
  show ?case
  proof (cases "i < ?n")
    case True
    have "?n < 2 ^ 20"
      using u32_bound [of "mm_length_low (mem s) p"] by (simp add: unat_frame div_less_iff_less_mult)
    have "mem ?s a = mem s a" if "\<not> in_range MMAP_ADDR 0x100000 a" for a
      using fill_counts_frame [of "i + 1" a busy i s] that True \<open>?n < 2 ^ 20\<close> by simp
    then have "mm_length_low (mem ?s) p = mm_length_low (mem s) p"
      using load32_clear [OF "1.prems", of 12 "mem ?s" "mem s"] by simp
    note len = this
    have "mark_entry busy p i s = mark_entry busy p (i + 1) ?s"
      using True by (subst mark_entry.simps) (simp only: if_True)
    also have "\<dots> = fill_counts busy (i + 1) ?n ?s"
      using "1.IH" [OF True "1.prems"] unfolding len .
    also have "\<dots> = fill_counts busy i ?n s"
      using True by (simp only: upt_conv_Cons fold_simps Suc_eq_plus1)
    finally show ?thesis .
  next
    case False
    then show ?thesis by (subst mark_entry.simps) simp
  qed
qed

section \<open>The memory map as the loader lists it\<close>

record mm_entry =
  e_size :: u32
  e_base :: u32
  e_len :: u32
  e_type :: u32

primrec map_at :: "mem \<Rightarrow> u32 \<Rightarrow> u32 \<Rightarrow> mm_entry list \<Rightarrow> bool" where
  "map_at m addr stop [] \<longleftrightarrow> \<not> addr < stop"
| "map_at m addr stop (e # es) \<longleftrightarrow>
     addr < stop \<and> apart MMAP_ADDR 0x100000 addr 24
     \<and> mm_size m addr = e_size e \<and> mm_base_addr_low m addr = e_base e
     \<and> mm_length_low m addr = e_len e \<and> mm_type m addr = e_type e
     \<and> map_at m (addr + (e_size e + 4)) stop es"

text \<open>
  What the loop makes of the entries: it counts frames from zero for every entry, so the count
  of a frame is the one of the last entry that is longer than the frame's index, whatever the
  base addresses are.
\<close>

definition count_step :: "nat \<Rightarrow> mm_entry \<Rightarrow> u8 \<Rightarrow> u8" where
  "count_step f e c = (if f < unat (e_len e) div 4096 then if e_type e = 1 then 0 else 100 else c)"

definition count_of :: "mm_entry list \<Rightarrow> nat \<Rightarrow> u8" where
  "count_of es f = fold (count_step f) es 100"

definition hmem_of :: "mm_entry list \<Rightarrow> u32 \<Rightarrow> u32" where
  "hmem_of es h = fold (\<lambda>e h. if e_type e = 1 then e_base e + e_len e else h) es h"

lemma map_at_cong:
  assumes "\<And>a. \<not> in_range MMAP_ADDR 0x100000 a \<Longrightarrow> m a = m' a"
  shows "map_at m addr stop es = map_at m' addr stop es"
proof (induction es arbitrary: addr)
  case (Cons e es)
  have "mm_size m addr = mm_size m' addr \<and> mm_base_addr_low m addr = mm_base_addr_low m' addr
      \<and> mm_length_low m addr = mm_length_low m' addr \<and> mm_type m addr = mm_type m' addr"
    if "apart MMAP_ADDR 0x100000 addr 24"
    using load32_clear [OF that _ assms, of 0] load32_clear [OF that _ assms, of 4]
      load32_clear [OF that _ assms, of 12] load32_clear [OF that _ assms, of 20] by simp
  with Cons show ?case by auto
qed simp

lemma map_loop_counts:
  assumes "map_at (mem s) addr stop es"
  shows "\<exists>t. map_loop addr stop s = Some t
    \<and> t = s\<lparr>mem := mem t, HMEM := hmem_of es (HMEM s)\<rparr>
    \<and> (\<forall>f < 0x100000. mmap t (of_nat f) = fold (count_step f) es (mmap s (of_nat f)))
    \<and> (\<forall>a. \<not> in_range MMAP_ADDR 0x100000 a \<longrightarrow> mem t a = mem s a)"
  using assms
proof (induction es arbitrary: addr s)
  case Nil
  then show ?case by (subst map_loop.simps) (simp add: hmem_of_def)
next
  case (Cons e es)
  define s1 where "s1 = (if e_type e = 1 then s\<lparr>HMEM := e_base e + e_len e\<rparr> else s)"
  define busy :: u8 where "busy = (if e_type e = 1 then 0 else 100)"
  define n where "n = unat (e_len e) div 4096"
  define s2 where "s2 = fill_counts busy 0 n s1"
  have n: "n \<le> 0x100000" using u32_bound [of "e_len e"] by (simp add: n_def)
  have m1: "mem s1 = mem s" by (simp add: s1_def)
  have frame: "mem s2 a = mem s a" if "\<not> in_range MMAP_ADDR 0x100000 a" for a
    using fill_counts_frame [OF n that] by (simp add: s2_def m1)
  have ap: "apart MMAP_ADDR 0x100000 addr 24" using Cons.prems by simp
  have "mark_entry busy addr 0 s1 = s2"
    using mark_entry_fill [OF ap, of busy 0 s1] Cons.prems by (simp add: s2_def n_def m1 unat_frame)
  moreover have "mm_size (mem s2) addr = e_size e"
    using load32_clear [OF ap, of 0 "mem s2" "mem s"] frame Cons.prems by simp
  ultimately have step: "map_loop addr stop s = map_loop (addr + (e_size e + 4)) stop s2"
    using Cons.prems by (subst map_loop.simps) (auto simp: s1_def busy_def)
  have "map_at (mem s2) (addr + (e_size e + 4)) stop es"
    using Cons.prems map_at_cong [of "mem s2" "mem s"] frame by simp
  from Cons.IH [OF this] obtain t where t: "map_loop (addr + (e_size e + 4)) stop s2 = Some t"
    "t = s2\<lparr>mem := mem t, HMEM := hmem_of es (HMEM s2)\<rparr>"
    "\<forall>f < 0x100000. mmap t (of_nat f) = fold (count_step f) es (mmap s2 (of_nat f))"
    "\<forall>a. \<not> in_range MMAP_ADDR 0x100000 a \<longrightarrow> mem t a = mem s2 a"
    by blast
  obtain m2 where m2: "s2 = s1\<lparr>mem := m2\<rparr>"
    using fill_counts_only [of s1 busy 0 n] unfolding s2_def [symmetric] only_mem_def by blast
  have "t = s\<lparr>mem := mem t, HMEM := hmem_of (e # es) (HMEM s)\<rparr>"
    by (subst t(2)) (simp add: m2 s1_def hmem_of_def)
  moreover have "mmap s2 (of_nat f) = count_step f e (mmap s (of_nat f))" if "f < 0x100000" for f
    using fill_counts_at [OF n that, of busy 0 s1]
    by (simp add: s2_def m1 count_step_def busy_def n_def)
  ultimately show ?case using t step frame by simp
qed

section \<open>Both initialisations up to paging\<close>

lemma all_busy_counts:
  "only_mem s (all_busy s)"
  "f < 0x100000 \<Longrightarrow> mmap (all_busy s) (of_nat f) = 100"
  "\<not> in_range MMAP_ADDR 0x100000 a \<Longrightarrow> mem (all_busy s) a = mem s a"
  unfolding all_busy_def
  by (rule fill_counts_only, simp only: fill_counts_at, simp, rule fill_counts_frame) simp_all

lemma mmap_init_start:
  assumes "map_at (mem s) addr (len + addr) es"
  shows "\<exists>t. mmap_init H addr len s = start_paging H t
    \<and> t = s\<lparr>mem := mem t, HMEM := hmem_of es (HMEM s)\<rparr>
    \<and> (\<forall>f < 0x100000. mmap t (of_nat f) = count_of es f)
    \<and> (\<forall>a. \<not> in_range MMAP_ADDR 0x100000 a \<longrightarrow> mem t a = mem s a)"
proof -
  have "map_at (mem (all_busy s)) addr (len + addr) es"
    using assms map_at_cong [of "mem (all_busy s)" "mem s"] all_busy_counts(3) by simp
  from map_loop_counts [OF this] obtain t where t: "map_loop addr (len + addr) (all_busy s) = Some t"
    "t = (all_busy s)\<lparr>mem := mem t, HMEM := hmem_of es (HMEM (all_busy s))\<rparr>"
    "\<forall>f < 0x100000. mmap t (of_nat f) = fold (count_step f) es (mmap (all_busy s) (of_nat f))"
    "\<forall>a. \<not> in_range MMAP_ADDR 0x100000 a \<longrightarrow> mem t a = mem (all_busy s) a"
    by blast
  obtain m where m: "all_busy s = s\<lparr>mem := m\<rparr>"
    using all_busy_counts(1) [of s] by (auto simp: only_mem_def)
  have "t = s\<lparr>mem := mem t, HMEM := hmem_of es (HMEM s)\<rparr>"
    by (subst t(2)) (simp add: m)
  moreover have "mmap_init H addr len s = start_paging H t"
    using t(1) by (simp add: mmap_init_def)
  ultimately show ?thesis
    using t(3,4) all_busy_counts(2,3) by (auto simp: count_of_def)
qed

lemma frame_page:
  assumes "f < 2 ^ 20"
  defines "p \<equiv> push_bit 12 (of_nat f :: u32)"
  shows "unat p = f * 4096" and "drop_bit 12 p = of_nat f"
proof -
  have "unat (of_nat f :: u32) = f" using assms(1) by (simp add: unat_of_nat)
  with assms(1) unat_push_page [of "of_nat f"] push_page(2) [of "of_nat f"]
  show "unat p = f * 4096" and "drop_bit 12 p = of_nat f" by (simp_all only: p_def)
qed

lemma count_pages:
  assumes "\<forall>f < 0x100000. mmap t (of_nat f) = c f"
  shows "card {f. 0x400 \<le> f \<and> f < unat (KMEM t) div 4096 \<and> c f = 0} \<le> card (free_pages t)"
proof (rule card_inj_on_le)
  let ?A = "{f. 0x400 \<le> f \<and> f < unat (KMEM t) div 4096 \<and> c f = 0}"
  define pg where "pg f = push_bit 12 (of_nat f :: u32)" for f
  have k: "unat (KMEM t) div 4096 < 2 ^ 20" using u32_bound [of "KMEM t"] by (simp add: div_less_iff_less_mult)
  have A: "f < 2 ^ 20" if "f \<in> ?A" for f
  proof -
    have "f < unat (KMEM t) div 4096" using that by blast
    then show ?thesis using k by (rule less_trans)
  qed
  have b: "unat (pg f) = f * 4096" "drop_bit 12 (pg f) = of_nat f" if "f \<in> ?A" for f
    using frame_page [OF A [OF that]] by (simp_all only: pg_def)
  show "inj_on pg ?A"
  proof (rule inj_onI)
    fix f g
    assume f: "f \<in> ?A" and g: "g \<in> ?A" and eq: "pg f = pg g"
    from b(1) [OF f] b(1) [OF g] show "f = g" unfolding eq by simp
  qed
  show "pg ` ?A \<subseteq> free_pages t"
  proof
    fix p
    assume "p \<in> pg ` ?A"
    then obtain f where f: "f \<in> ?A" "p = pg f" by blast
    have "mmap t (of_nat f) = 0" using f(1) A [OF f(1)] assms by simp
    then show "p \<in> free_pages t"
      using b [OF f(1)] f by (simp add: free_pages_def kpage_def page_def taken_def)
  qed
qed simp

lemma install_keeps:
  assumes "unat n < 256"
  shows "KMEM (install_int n f sec att s) = KMEM s"
    and "unat i < 0x100000 \<Longrightarrow> mmap (install_int n f sec att s) i = mmap s i"
proof -
  show "KMEM (install_int n f sec att s) = KMEM s" by (simp add: install_int_def Let_def)
  assume "unat i < 0x100000"
  then have "unat (MMAP_ADDR + i) = 0x200000 + unat i"
    using unat_add_nat [of MMAP_ADDR "unat i"] by (simp add: MMAP_ADDR_def)
  then show "mmap (install_int n f sec att s) i = mmap s i"
    by (intro install_frame [OF assms]) (simp add: in_range_def IDT_ADDR_def)
qed

lemma gate_at_low:
  assumes "\<And>a. unat a < 0x200000 \<Longrightarrow> m a = m' a" and "unat n < 256"
  shows "gate_at m n = gate_at m' n"
proof -
  have "load16 m (IDT_ADDR + 8 * n + of_nat k) = load16 m' (IDT_ADDR + 8 * n + of_nat k)" if "k \<le> 6" for k
  proof (rule load16_cong)
    fix l :: nat
    assume "l < 2"
    have e: "IDT_ADDR + 8 * n + of_nat k + of_nat l = IDT_ADDR + 8 * n + of_nat (k + l)" by simp
    have "unat (IDT_ADDR + 8 * n + of_nat k + of_nat l) = 0x100000 + 8 * unat n + (k + l)"
      unfolding e by (rule unat_idt(2)) (use assms(2) that \<open>l < 2\<close> in auto)
    then show "m (IDT_ADDR + 8 * n + of_nat k + of_nat l) = m' (IDT_ADDR + 8 * n + of_nat k + of_nat l)"
      by (intro assms(1)) (use assms(2) that \<open>l < 2\<close> in simp)
  qed
  from this[of 0] this[of 2] this[of 4] this[of 6] show ?thesis by (simp add: gate_at_def)
qed

text \<open>Which memory the kernel allocates from.\<close>

definition kernel_end :: "machine \<Rightarrow> u32" where
  "kernel_end t = (if HMEM t < KMEM t then HMEM t else KMEM t)"

abbreviation before_paging :: "entry_points \<Rightarrow> machine \<Rightarrow> machine" where
  "before_paging H t \<equiv> install_int 14 (page_fault H) KER_CODE_SEC (TRA_GATE OR IDT_R0)
     (t\<lparr>KMEM := kernel_end t\<rparr>)"

lemma start_paging_alt:
  "start_paging H t = do { (pde, s) \<leftarrow> open_pagination (before_paging H t); Some s }"
  by (simp add: start_paging_def kernel_end_def Let_def)

lemma start_paging_hangs:
  assumes "drop_bit 12 (kernel_end t) \<le> 0x400"
  shows "start_paging H t = None"
proof -
  have "scan_free m 0x400 (drop_bit 12 (kernel_end t)) = None" for m
  proof -
    have "\<not> 0x400 < drop_bit 12 (kernel_end t)" using assms by (simp only: not_less)
    then show ?thesis by (subst scan_free.simps) (simp only: if_False)
  qed
  then have "get_free_page (before_paging H t) = None"
    by (simp add: get_free_page_cases install_keeps(1))
  then show ?thesis by (simp add: start_paging_alt open_pagination_def)
qed

lemma start_paging_boots:
  assumes c: "\<forall>f < 0x100000. mmap t (of_nat f) = c f"
    and n: "unat (kernel_end t) div 4194304 + 2
      \<le> card {f. 0x400 \<le> f \<and> f < unat (kernel_end t) div 4096 \<and> c f = 0}"
  shows "\<exists>s'. start_paging H t = Some s' \<and> KMEM s' = kernel_end t
    \<and> (\<forall>va. drop_bit 12 va < drop_bit 12 (kernel_end t)
        \<longrightarrow> walk (mem s') (CR3 s') va = Some (va, True, False))
    \<and> gate_at (mem s') 14 = (page_fault H, 8, 0x8F00)"
proof -
  let ?t = "before_paging H t"
  have K: "KMEM ?t = kernel_end t" by (simp add: install_keeps(1))
  have "\<forall>f < 0x100000. mmap ?t (of_nat f) = c f"
    using c by (simp add: install_keeps(2) unat_of_nat)
  from count_pages [OF this] n have "unat (KMEM ?t) div 4194304 + 2 \<le> card (free_pages ?t)"
    unfolding K by linarith
  then obtain pde s' where o: "open_pagination ?t = Some (pde, s')"
    using open_pagination_total by blast
  have "gate_at (mem s') 14 = gate_at (mem ?t) 14"
    by (rule gate_at_low) (use open_pagination_frame(2) [OF o] in simp_all)
  also have "\<dots> = (page_fault H, 8, 0x8F00)"
    by (simp add: gate_install KER_CODE_SEC_def TRA_GATE_def IDT_R0_def)
  finally have g: "gate_at (mem s') 14 = (page_fault H, 8, 0x8F00)" .
  have "walk (mem s') (CR3 s') va = Some (va, True, False)"
    if "drop_bit 12 va < drop_bit 12 (kernel_end t)" for va
    using open_pagination_maps [OF o, of va] that unfolding K by blast
  with g show ?thesis
    using o open_pagination_frame(1) [OF o] by (simp add: start_paging_alt K)
qed

section \<open>Properties\<close>

text \<open>
  C35: the frame counts \<open>mmap_init\<close> computes from a memory map that lies clear of the count
  array. Every frame is first marked unavailable; each entry then marks the frames from zero up
  to its length, available for type 1 and unavailable otherwise, its base address playing no
  part, and \<open>HMEM\<close> is the end of the last entry of type 1. No other memory changes before paging
  is started.
\<close>

theorem mmap_init_counts:
  assumes "map_at (mem s) addr (len + addr) es"
  shows "\<exists>t. mmap_init H addr len s = start_paging H t
    \<and> t = s\<lparr>mem := mem t, HMEM := hmem_of es (HMEM s)\<rparr>
    \<and> (\<forall>f < 0x100000. mmap t (of_nat f) = count_of es f)
    \<and> (\<forall>a. \<not> in_range MMAP_ADDR 0x100000 a \<longrightarrow> mem t a = mem s a)"
  using assms by (rule mmap_init_start)

text \<open>
  C12: booting with a memory map. When the map leaves enough frames above 4 MB for the page
  directory and the tables, \<open>mmap_init\<close> returns with the kernel's memory ending at the smaller of
  \<open>HMEM\<close> and \<open>KMEM\<close>, all of it mapped to itself, and the page fault stub installed as a trap gate.
\<close>

theorem mmap_init_boots:
  assumes "map_at (mem s) addr (len + addr) es"
    and "K = (if hmem_of es (HMEM s) < KMEM s then hmem_of es (HMEM s) else KMEM s)"
    and "unat K div 4194304 + 2 \<le> card {f. 0x400 \<le> f \<and> f < unat K div 4096 \<and> count_of es f = 0}"
  shows "\<exists>s'. mmap_init H addr len s = Some s' \<and> KMEM s' = K
    \<and> (\<forall>va. drop_bit 12 va < drop_bit 12 K \<longrightarrow> walk (mem s') (CR3 s') va = Some (va, True, False))
    \<and> gate_at (mem s') 14 = (page_fault H, 8, 0x8F00)"
proof -
  obtain t where t: "mmap_init H addr len s = start_paging H t"
    "t = s\<lparr>mem := mem t, HMEM := hmem_of es (HMEM s)\<rparr>"
    "\<forall>f < 0x100000. mmap t (of_nat f) = count_of es f"
    using mmap_init_start [OF assms(1)] by blast
  have "HMEM t = hmem_of es (HMEM s)" "KMEM t = KMEM s" by (subst t(2), simp)+
  then have "kernel_end t = K" by (simp add: kernel_end_def assms(2))
  with start_paging_boots [OF t(3), of H] assms(3) t(1) show ?thesis by simp
qed

lemma mm_init_none:
  assumes "upper < 0x401000" and "KMEM s = 0x40000000"
  shows "mm_init H lower upper s = None"
proof -
  have "drop_bit 12 (kernel_end (t\<lparr>HMEM := upper\<rparr>)) \<le> 0x400" if "KMEM t = KMEM s" for t
  proof -
    have "kernel_end (t\<lparr>HMEM := upper\<rparr>) = upper"
      using that assms by (auto simp: kernel_end_def word_less_nat_alt)
    moreover have "unat upper div 4096 \<le> 0x400" using assms(1) by (simp add: word_less_nat_alt)
    ultimately show ?thesis by (simp add: word_le_nat_alt unat_frame)
  qed
  moreover have "KMEM (fill_counts 0 16 n (all_busy s)) = KMEM s" for n
    using only_mem_fields(1) [OF fill_counts_only] only_mem_fields(1) [OF all_busy_counts(1)] by simp
  ultimately show ?thesis by (simp add: mm_init_def start_paging_hangs)
qed

text \<open>
  \<open>mm_init\<close>, the path taken when the loader passes no memory map, never returns. It stores
  \<open>mem_upper\<close>, which multiboot counts in kilobytes, as the end of memory in bytes; up to 4 GB
  of memory \<open>KMEM\<close> then lies in the first 4 MB, no frame is left for the page directory and the
  allocator searches for ever.
\<close>

theorem mm_init_hangs:
  assumes "upper < 0x401000" and "KMEM s = 0x40000000"
  shows "mm_init H lower upper s = None"
  by (rule mm_init_none [OF assms])

section \<open>Witnesses\<close>

text \<open>
  A memory map as loaders pass it for 16 MB: 639 KB from address 0 and the 15 MB from 1 MB on,
  two entries at \<open>0x10000\<close>.
\<close>

definition map_bytes :: "u8 list" where
  "map_bytes =
     [20,0,0,0, 0,0,0,0, 0,0,0,0, 0,0xFC,9,0, 0,0,0,0, 1,0,0,0,
      20,0,0,0, 0,0,0x10,0, 0,0,0,0, 0,0,0xF0,0, 0,0,0,0, 1,0,0,0]"

definition map_machine :: machine where
  "map_machine = boot_machine
     (\<lambda>a. if 0x10000 \<le> a \<and> a < 0x10030 then map_bytes ! unat (a - 0x10000) else 0) 0x310000"

definition map_entries :: "mm_entry list" where
  "map_entries = [\<lparr>e_size = 20, e_base = 0, e_len = 0x9FC00, e_type = 1\<rparr>,
     \<lparr>e_size = 20, e_base = 0x100000, e_len = 0xF00000, e_type = 1\<rparr>]"

lemma map_machine_entries: "map_at (mem map_machine) 0x10000 (48 + 0x10000) map_entries"
  by (simp add: map_entries_def map_machine_def boot_machine_def load32_def map_bytes_def apart_def
      MMAP_ADDR_def)

theorem mmap_init_counts_witness:
  "\<exists>t. mmap_init sample_stubs 0x10000 48 map_machine = start_paging sample_stubs t \<and> HMEM t = 0x1000000
    \<and> mmap t (of_nat 0xEFF) = 0 \<and> mmap t (of_nat 0xF00) = 100"
proof -
  have h: "hmem_of map_entries (HMEM map_machine) = 0x1000000"
    by (simp add: hmem_of_def map_entries_def)
  have c: "count_of map_entries 0xEFF = 0" "count_of map_entries 0xF00 = 100"
    by (simp_all add: count_of_def map_entries_def count_step_def)
  obtain t where t: "mmap_init sample_stubs 0x10000 48 map_machine = start_paging sample_stubs t"
    "t = map_machine\<lparr>mem := mem t, HMEM := 0x1000000\<rparr>"
    "\<forall>f < 0x100000. mmap t (of_nat f) = count_of map_entries f"
    using mmap_init_counts [OF map_machine_entries, of sample_stubs] unfolding h by blast
  have "HMEM t = 0x1000000" by (subst t(2)) simp
  moreover have "mmap t (of_nat 0xEFF) = 0" "mmap t (of_nat 0xF00) = 100"
    using t(3) [rule_format, of "0xEFF"] t(3) [rule_format, of "0xF00"] c by simp_all
  ultimately show ?thesis using t(1) by blast
qed

theorem mmap_init_boots_witness:
  "\<exists>s'. mmap_init sample_stubs 0x10000 48 map_machine = Some s'
    \<and> walk (mem s') (CR3 s') 0xFFFFFF = Some (0xFFFFFF, True, False)"
proof -
  have K: "0x1000000 = (if hmem_of map_entries (HMEM map_machine) < KMEM map_machine
      then hmem_of map_entries (HMEM map_machine) else KMEM map_machine)"
    by (simp add: hmem_of_def map_entries_def map_machine_def boot_machine_def)
  have "{0x400..<0x406} \<subseteq> {f. 0x400 \<le> f \<and> f < unat (0x1000000 :: u32) div 4096 \<and> count_of map_entries f = 0}"
    by (auto simp: count_of_def map_entries_def count_step_def)
  moreover have "finite {f. 0x400 \<le> f \<and> f < unat (0x1000000 :: u32) div 4096 \<and> count_of map_entries f = 0}"
    by (rule finite_subset [of _ "{..<unat (0x1000000 :: u32) div 4096}"]) auto
  ultimately have "card {0x400..<0x406::nat}
      \<le> card {f. 0x400 \<le> f \<and> f < unat (0x1000000 :: u32) div 4096 \<and> count_of map_entries f = 0}"
    by (rule card_mono [rotated])
  then have "unat (0x1000000 :: u32) div 4194304 + 2
      \<le> card {f. 0x400 \<le> f \<and> f < unat (0x1000000 :: u32) div 4096 \<and> count_of map_entries f = 0}"
    by simp
  from mmap_init_boots [OF map_machine_entries K this, of sample_stubs] show ?thesis
    by (auto simp: drop_bit_eq_div)
qed

theorem mm_init_hangs_witness: "mm_init sample_stubs 639 0x3C00 map_machine = None"
  by (rule mm_init_hangs) (simp_all add: map_machine_def boot_machine_def)

end
