(* ===== verification/CardMemory.thy ===== *)
theory CardMemory
  imports Ne2k
begin

text \<open>
  Remote DMA of \<open>net/ne2k/ne2k.c\<close> seen from memory: what \<open>NICtoPC\<close> and \<open>PCtoNIC\<close> transfer, when
  they return, and, for a card that delivers its buffer memory the way the data sheet says, what
  \<open>neInit\<close> learns of the station address.
\<close>

unbundle bit_operations_syntax

section \<open>One transfer\<close>

definition read_words :: "device \<Rightarrow> u32 \<Rightarrow> u16 \<Rightarrow> machine \<Rightarrow> u16 list" where
  "read_words dev count dma s = card_words dev (dma_words count) (read_setup count dma s)"

definition read_history :: "device \<Rightarrow> u32 \<Rightarrow> u16 \<Rightarrow> machine \<Rightarrow> io_event list" where
  "read_history dev count dma s = read_setup count dma s @ map (InW IOPORT) (read_words dev count dma s)"

definition write_history :: "u32 \<Rightarrow> u32 \<Rightarrow> u16 \<Rightarrow> machine \<Rightarrow> io_event list" where
  "write_history src count dma s =
     write_setup count dma s @ map (OutW IOPORT) (words_at (mem s) src (dma_words count))"

lemma NICtoPC_words:
  assumes "0 < count" and "count < 0x7FFFFFFF"
  shows "NICtoPC dev dest dma count s =
    (if completes dev (read_history dev count dma s)
     then Some (s\<lparr>mem := store_bytes (word_bytes (read_words dev count dma s)) dest (mem s),
                  io := completion dev (read_history dev count dma s)\<rparr>)
     else None)"
  unfolding NICtoPC_eq Let_def loop_words [OF assms] read_history_def read_words_def ..

lemma PCtoNIC_words:
  assumes "0 < count" and "count < 0x7FFFFFFF"
  shows "PCtoNIC dev src dma count s =
    (if completes dev (write_history src count dma s)
     then Some (s\<lparr>io := completion dev (write_history src count dma s)\<rparr>) else None)"
  unfolding PCtoNIC_eq Let_def loop_words [OF assms] write_history_def ..

lemma length_read_words [simp]: "length (read_words dev count dma s) = dma_words count"
  by (simp add: read_words_def)

lemma dma_words_bytes: "2 * dma_words count = (if even (unat count) then unat count else unat count + 1)"
  by (simp add: dma_words_def)

lemma read_store_at:
  assumes "count < 0x7FFFFFFF"
  shows "store_bytes (word_bytes (read_words dev count dma s)) dest m a =
    (if unat (a - dest) < 2 * dma_words count
     then word_bytes (read_words dev count dma s) ! unat (a - dest) else m a)"
proof -
  have "2 * dma_words count \<le> 2 ^ 32"
    using assms by (simp add: dma_words_def word_less_nat_alt)
  then show ?thesis by (simp add: store_bytes_at)
qed

text \<open>
  C16: bounds of a card read. Once the card reports completion, \<open>NICtoPC\<close> of a positive count has
  written exactly the bytes asked for, one more if the count is odd, from the destination on, in
  the order in which the data port delivered them, low byte first; it wrote nothing else and
  accessed the ports in the order set up, data, status, acknowledge.
\<close>

theorem NICtoPC_transfers:
  assumes "0 < count" and "count < 0x7FFFFFFF" and "completes dev (read_history dev count dma s)"
  shows "\<exists>s'. NICtoPC dev dest dma count s = Some s'
    \<and> (\<forall>a. mem s' a = (if unat (a - dest) < 2 * dma_words count
          then word_bytes (read_words dev count dma s) ! unat (a - dest) else mem s a))
    \<and> 2 * dma_words count = (if even (unat count) then unat count else unat count + 1)
    \<and> io s' = completion dev (read_history dev count dma s)"
  using assms by (simp add: NICtoPC_words read_store_at dma_words_bytes)

text \<open>
  C32: when a transfer returns. \<open>NICtoPC\<close> and \<open>PCtoNIC\<close> return exactly when the card, asked again
  and again after the last word, reports completion at some time; the driver has no timeout.
\<close>

theorem dma_returns:
  assumes "0 < count" and "count < 0x7FFFFFFF"
  shows "(NICtoPC dev p dma count s \<noteq> None) = (\<exists>n. rdc_at dev (read_history dev count dma s) n)
    \<and> (PCtoNIC dev p dma count s \<noteq> None) = (\<exists>n. rdc_at dev (write_history p count dma s) n)"
  using assms by (simp add: NICtoPC_words PCtoNIC_words completes_def)

section \<open>A transfer of no bytes\<close>

lemma store_bytes_append:
  "store_bytes (bs @ cs) d m = store_bytes cs (d + of_nat (length bs)) (store_bytes bs d m)"
  by (induction bs arbitrary: d m) (simp_all add: algebra_simps)

text \<open>As many bytes as there are addresses leave no old byte.\<close>

lemma store_bytes_all:
  assumes "2 ^ 32 \<le> length bs"
  shows "store_bytes bs d m a \<in> set bs"
proof -
  define n where "n = length bs - 2 ^ 32"
  define cs where "cs = drop n bs"
  have len: "length cs = 2 ^ 32" using assms by (simp add: cs_def n_def)
  have "bs = take n bs @ cs" by (simp only: cs_def append_take_drop_id)
  then have "store_bytes bs d m a
      = store_bytes cs (d + of_nat (length (take n bs))) (store_bytes (take n bs) d m) a"
    by (metis store_bytes_append)
  also have "\<dots> = cs ! unat (a - (d + of_nat (length (take n bs))))"
    using store_bytes_at [of cs] len u32_bound [of "a - (d + of_nat (length (take n bs)))"]
    by (simp only: le_refl if_True)
  finally have e: "store_bytes bs d m a = cs ! unat (a - (d + of_nat (length (take n bs))))" .
  have "cs ! unat (a - (d + of_nat (length (take n bs)))) \<in> set cs"
    by (rule nth_mem) (use len u32_bound [of "a - (d + of_nat (length (take n bs)))"] in simp)
  then show ?thesis unfolding e cs_def using set_drop_subset [of n bs] by blast
qed

definition zero_words :: "device \<Rightarrow> u16 \<Rightarrow> machine \<Rightarrow> u16 list" where
  "zero_words dev dma s = card_words dev (2 ^ 32) (read_setup 0 dma s)"

lemma NICtoPC_none:
  assumes "completes dev (read_setup 0 dma s @ map (InW IOPORT) (zero_words dev dma s))"
  shows "\<exists>s'. NICtoPC dev dest dma 0 s = Some s' \<and> (\<forall>a. mem s' a \<in> set (word_bytes (zero_words dev dma s)))"
proof -
  have "loop_count (signed_drop_bit 1 (0 + 1)) = 2 ^ 32"
    by (simp add: loop_count_def)
  then have "NICtoPC dev dest dma 0 s = Some (s\<lparr>
      mem := store_bytes (word_bytes (zero_words dev dma s)) dest (mem s),
      io := completion dev (read_setup 0 dma s @ map (InW IOPORT) (zero_words dev dma s))\<rparr>)"
    using assms unfolding NICtoPC_eq Let_def zero_words_def by simp
  moreover have "2 ^ 32 \<le> length (word_bytes (zero_words dev dma s))"
    by (simp add: zero_words_def)
  ultimately show ?thesis using store_bytes_all by simp
qed

section \<open>A card that delivers its memory\<close>

text \<open>
  What the data sheet promises of a remote read: the \<open>k\<close>-th word at the data port after a read
  command for address \<open>dma\<close> is \<open>content dma k\<close>, whatever was done before.
\<close>

definition delivers :: "device \<Rightarrow> (u16 \<Rightarrow> nat \<Rightarrow> u16) \<Rightarrow> bool" where
  "delivers dev content \<longleftrightarrow> (\<forall>h count dma ws.
     dev (h @ dma_setup count dma (NE_START OR NE_READ_DMA) @ map (InW IOPORT) ws) IOPORT
       = content dma (length ws))"

text \<open>The bytes of that memory.\<close>

definition card_byte :: "(u16 \<Rightarrow> nat \<Rightarrow> u16) \<Rightarrow> u16 \<Rightarrow> nat \<Rightarrow> u8" where
  "card_byte content dma k = (let w = content dma (k div 2) in if even k then ucast w else ucast (drop_bit 8 w))"

lemma card_words_content:
  assumes "delivers dev content"
  shows "card_words dev n (h @ dma_setup count dma (NE_START OR NE_READ_DMA) @ map (InW IOPORT) ws)
    = map (\<lambda>k. content dma (length ws + k)) [0..<n]"
proof (induction n arbitrary: ws)
  case (Suc n)
  let ?h = "h @ dma_setup count dma (NE_START OR NE_READ_DMA) @ map (InW IOPORT) ws"
  have v: "dev ?h IOPORT = content dma (length ws)" using assms unfolding delivers_def by blast
  have "?h @ [InW IOPORT v] = h @ dma_setup count dma (NE_START OR NE_READ_DMA) @ map (InW IOPORT) (ws @ [v])"
    for v by simp
  then have "card_words dev (Suc n) ?h = content dma (length ws)
      # map (\<lambda>k. content dma (length (ws @ [content dma (length ws)]) + k)) [0..<n]"
    by (simp only: card_words.simps Let_def v Suc.IH)
  also have "\<dots> = map (\<lambda>k. content dma (length ws + k)) [0..<Suc n]"
    by (simp add: upt_conv_Cons map_Suc_upt [symmetric] del: upt_Suc)
  finally show ?case .
qed simp

lemma read_words_content:
  "delivers dev content \<Longrightarrow> read_words dev count dma s = map (content dma) [0..<dma_words count]"
  using card_words_content [of dev content "dma_words count" "io s" count dma "[]"]
  by (simp add: read_words_def)

lemma word_bytes_nth:
  "k < 2 * length ws \<Longrightarrow> word_bytes ws ! k
    = (if even k then ucast (ws ! (k div 2)) else ucast (drop_bit 8 (ws ! (k div 2))))"
proof (induction ws arbitrary: k)
  case (Cons w ws)
  have c: "word_bytes (w # ws) = ucast w # ucast (drop_bit 8 w) # word_bytes ws"
    by (simp add: word_bytes_def)
  consider "k = 0" | "k = 1" | j where "k = Suc (Suc j)" by (metis One_nat_def not0_implies_Suc)
  then show ?case
  proof cases
    case 3
    then show ?thesis using Cons unfolding c by simp
  qed (simp_all add: c)
qed simp

lemma card_bytes_nth:
  "k < 2 * n \<Longrightarrow> word_bytes (map (content dma) [0..<n]) ! k = card_byte content dma k"
  by (simp add: word_bytes_nth card_byte_def Let_def)

text \<open>A read from such a card that always completes.\<close>

lemma NICtoPC_content:
  assumes "0 < count" and "count < 0x7FFFFFFF" and d: "delivers dev content"
    and c: "\<And>h. completes dev h"
  shows "\<exists>s'. NICtoPC dev dest dma count s = Some s'
    \<and> s' = s\<lparr>mem := store_bytes (word_bytes (map (content dma) [0..<dma_words count])) dest (mem s),
             io := completion dev (read_setup count dma s @ map (InW IOPORT) (map (content dma) [0..<dma_words count]))\<rparr>"
  using NICtoPC_words [OF assms(1,2)] read_words_content [OF d] c by (simp add: read_history_def)

section \<open>The station address\<close>

lemma load32_bytes:
  "(ucast (load32 m a) :: u8) = m a" "(ucast (drop_bit 8 (load32 m a)) :: u8) = m (a + 1)"
  "(ucast (drop_bit 16 (load32 m a)) :: u8) = m (a + 2)" "(ucast (drop_bit 24 (load32 m a)) :: u8) = m (a + 3)"
  unfolding load32_def by (rule bit_word_eqI; auto simp: bit_simps dest: bit_imp_le_length)+

lemma load64_bytes:
  assumes "i < 8"
  shows "(ucast (drop_bit (8 * i) (load64 m a)) :: u8) = m (a + of_nat i)"
proof -
  have "i \<in> {0, 1, 2, 3, 4, 5, 6, 7}" using assms by auto
  then show ?thesis
    unfolding load64_def load32_def
    by (elim insertE emptyE) (rule bit_word_eqI; auto simp: bit_simps add.assoc dest: bit_imp_le_length)+
qed

text \<open>The accesses that configure the card, and those that set its address and open the filter.\<close>

definition nic_config :: "io_event list" where
  "nic_config =
     [OutB 0x300 0x21, OutB 0x30e 0x9b, OutB 0x30a 0, OutB 0x30b 0, OutB 0x30c 0x0f, OutB 0x304 0x40,
      OutB 0x30d 0xe0, OutB 0x301 0x46, OutB 0x302 0x7f, OutB 0x303 0x46,
      OutB 0x300 0x61, OutB 0x307 0x47, OutB 0x300 0x22, OutB 0x307 0xff, OutB 0x30f 0x1b, OutB 0x300 0x22]"

definition nic_address :: "(nat \<Rightarrow> u8) \<Rightarrow> io_event list" where
  "nic_address b =
     [OutB 0x300 0x61, OutB 0x301 (b 0), OutB 0x302 (b 1), OutB 0x303 (b 2), OutB 0x304 (b 3),
      OutB 0x305 (b 4), OutB 0x306 (b 5), OutB 0x300 0x22,
      OutB 0x300 0x61, OutB 0x308 0xff, OutB 0x309 0xff, OutB 0x30a 0xff, OutB 0x30b 0xff,
      OutB 0x30c 0xff, OutB 0x30d 0xff, OutB 0x30e 0xff, OutB 0x30f 0xff, OutB 0x300 0x22]"

lemma neSetMAC_eq:
  "neSetMap 0xffffffff 0xffffffff (neSetMAC (load32 m a) (load32 m (a + 4)) s)
    = s\<lparr>io := io s @ nic_address (\<lambda>i. m (a + of_nat i))\<rparr>"
  by (simp add: nic_macros nic_ports nic_bits io_defs nic_address_def low_byte load32_bytes add.assoc)

text \<open>The address bytes are every other byte of the card's memory; two more stay behind them.\<close>

definition station_bytes :: "(u16 \<Rightarrow> nat \<Rightarrow> u16) \<Rightarrow> u8 list" where
  "station_bytes content = map (card_byte content 0) [0, 2, 4, 6, 8, 10, 6, 7]"

definition station_mem :: "u32 \<Rightarrow> mem \<Rightarrow> mem" where
  "station_mem mac m =
    (let m = m(mac + 1 := m (mac + 2));
         m = m(mac + 2 := m (mac + 4));
         m = m(mac + 3 := m (mac + 6));
         m = m(mac + 4 := m (mac + 8))
     in m(mac + 5 := m (mac + 10)))"

lemma station_mem_bytes:
  assumes "i < 8"
  shows "station_mem mac m (mac + of_nat i) = m (mac + of_nat ([0, 2, 4, 6, 8, 10, 6, 7] ! i))"
proof -
  have "i \<in> {0, 1, 2, 3, 4, 5, 6, 7}" using assms by auto
  then show ?thesis by (elim insertE emptyE) (simp_all add: station_mem_def Let_def)
qed

lemma neInit_eq:
  fixes s :: machine and mac :: u32
  assumes d: "delivers dev content" and c: "\<And>h. completes dev h"
  defines "h \<equiv> io s @ nic_config @ dma_setup 12 0 (NE_START OR NE_READ_DMA)
    @ map (InW IOPORT) (map (content 0) [0..<6])"
  defines "m \<equiv> station_mem mac (store_bytes (word_bytes (map (content 0) [0..<6])) mac (fill_bytes 12 mac 0 (mem s)))"
  shows "neInit dev mac s = Some (load64 m mac,
    s\<lparr>mem := m, io := completion dev h @ nic_address (\<lambda>i. m (mac + of_nat i)), MAC := load64 m mac\<rparr>)"
proof -
  let ?s = "s\<lparr>mem := fill_bytes 12 mac 0 (mem s), io := io s @ nic_config\<rparr>"
  have "dma_words 12 = 6" by (simp add: dma_words_def)
  then have n: "NICtoPC dev mac 0 12 ?s = Some (s\<lparr>
      mem := store_bytes (word_bytes (map (content 0) [0..<6])) mac (fill_bytes 12 mac 0 (mem s)),
      io := completion dev h\<rparr>)"
    using NICtoPC_content [OF _ _ d c, of 12 mac 0 ?s] by (simp add: h_def)
  have "neInit dev mac s = do { s \<leftarrow> NICtoPC dev mac 0 12 ?s;
      let m = station_mem mac (mem s);
          s = s\<lparr>mem := m\<rparr>;
          s = neSetMAC (load32 m mac) (load32 m (mac + 4)) s;
          s = neSetMap 0xffffffff 0xffffffff s;
          s = s\<lparr>MAC := load64 m mac\<rparr>
      in Some (load64 m mac, s) }"
    by (simp add: neInit_def station_mem_def Let_def nic_config_def neCmd_def neSetDataConfig_def
        neSetRemoteByteCount_def neSetRecvConfig_def neSetTransferPage_def neSetTransferConfig_def
        neSetRecvPage_def neSetBoundary_def neSetCurrnet_def neSetIntState_def neSetIntMask_def outb_def
        nic_ports nic_bits TRANS_PAGE_def RECV_PAGE_def RECV_PAGE_END_def imr_def del: fill_bytes.simps)
  then show ?thesis unfolding n by (simp add: Let_def neSetMAC_eq m_def)
qed
lemma station_mem_station:
  assumes "i < 8"
  shows "station_mem mac (store_bytes (word_bytes (map (content 0) [0..<6])) mac m) (mac + of_nat i)
    = station_bytes content ! i"
proof -
  let ?j = "[0, 2, 4, 6, 8, 10, 6, 7] ! i :: nat"
  have j: "?j < 12" using assms by (auto simp: less_Suc_eq numeral_eq_Suc)
  then have "unat (of_nat ?j :: u32) = ?j" by (simp add: unat_of_nat)
  moreover have "mac + of_nat ?j - mac = of_nat ?j" by simp
  ultimately have "store_bytes (word_bytes (map (content 0) [0..<6])) mac m (mac + of_nat ?j)
      = word_bytes (map (content 0) [0..<6]) ! ?j"
    using j by (subst store_bytes_at) simp_all
  also have "\<dots> = card_byte content 0 ?j" by (rule card_bytes_nth) (use j in simp)
  also have "\<dots> = station_bytes content ! i"
    unfolding station_bytes_def by (rule nth_map [symmetric]) (use assms in simp)
  finally show ?thesis using station_mem_bytes [OF assms] by simp
qed

lemma station_mem_frame:
  assumes "12 \<le> unat (a - mac)"
  shows "station_mem mac (store_bytes (word_bytes (map (content 0) [0..<6])) mac (fill_bytes 12 mac 0 m)) a = m a"
proof -
  have "a \<noteq> mac + of_nat k" if "k < 12" for k
    using assms that by (auto simp: unat_of_nat)
  from this [of 1] this [of 2] this [of 3] this [of 4] this [of 5] show ?thesis
    using assms by (simp add: station_mem_def Let_def store_bytes_at fill_bytes_eq del: fill_bytes.simps)
qed

text \<open>
  C15: \<open>neInit\<close> on a card that delivers its memory and completes. It returns the station address,
  the even bytes 0 to 10 of the card's memory, with bytes 6 and 7 left above it, and keeps it for
  \<open>getNICMac\<close>; the card has been configured and then given that address and an open multicast
  filter, in this order; and memory outside the local array is unchanged.
\<close>

theorem neInit_station:
  assumes "delivers dev content" and "\<forall>h. completes dev h"
  shows "\<exists>v s'. neInit dev mac s = Some (v, s') \<and> getNICMac s' = v
    \<and> (\<forall>i < 8. ucast (drop_bit (8 * i) v) = station_bytes content ! i)
    \<and> io s' = completion dev (io s @ nic_config @ dma_setup 12 0 (NE_START OR NE_READ_DMA)
                 @ map (InW IOPORT) (map (content 0) [0..<6]))
               @ nic_address (\<lambda>i. station_bytes content ! i)
    \<and> (\<forall>a. 12 \<le> unat (a - mac) \<longrightarrow> mem s' a = mem s a)"
proof -
  have c: "completes dev h" for h using assms(2) by blast
  let ?m = "station_mem mac (store_bytes (word_bytes (map (content 0) [0..<6])) mac (fill_bytes 12 mac 0 (mem s)))"
  have b: "?m (mac + of_nat i) = station_bytes content ! i" if "i < 8" for i
    by (rule station_mem_station [OF that])
  have "nic_address (\<lambda>i. ?m (mac + of_nat i)) = nic_address (\<lambda>i. station_bytes content ! i)"
    unfolding nic_address_def
    using b [of 0] b [of 1] b [of 2] b [of 3] b [of 4] b [of 5] by (simp del: fill_bytes.simps)
  then show ?thesis
    using neInit_eq [OF assms(1) c, of mac s] load64_bytes [of _ ?m mac] b station_mem_frame [of _ mac content "mem s"]
    by (simp add: getNICMac_def del: fill_bytes.simps)
qed

section \<open>Witnesses\<close>

text \<open>A card as a function of its history: it delivers a given memory and is always ready.\<close>

fun is_data :: "io_event \<Rightarrow> bool" where
  "is_data (InW p v) = True"
| "is_data _ = False"

fun addressed :: "(u16 \<Rightarrow> nat \<Rightarrow> u16) \<Rightarrow> nat \<Rightarrow> io_event list \<Rightarrow> u16" where
  "addressed content n (OutB p cmd # OutB q hi # OutB r lo # h) = content (push_bit 8 (ucast hi) OR ucast lo) n"
| "addressed content n h = 0"

definition sample_card :: "(u16 \<Rightarrow> nat \<Rightarrow> u16) \<Rightarrow> device" where
  "sample_card content h port =
     (if port = IOPORT
      then addressed content (length (takeWhile is_data (rev h))) (dropWhile is_data (rev h)) else 0x40)"

lemma sample_card_delivers: "delivers (sample_card content) content"
  unfolding delivers_def
proof (intro allI)
  fix h count dma ws
  have w: "takeWhile is_data (rev (map (InW IOPORT) ws)) = rev (map (InW IOPORT) ws)"
    "dropWhile is_data (rev (map (InW IOPORT) ws)) = []"
    by (auto simp: takeWhile_eq_all_conv dropWhile_eq_Nil_conv)
  have dma: "push_bit 8 (ucast (ucast (drop_bit 8 dma) :: u8)) OR ucast (ucast dma :: u8) = dma" for dma :: u16
    by (rule bit_word_eqI) (auto simp: bit_simps)
  show "sample_card content (h @ dma_setup count dma (NE_START OR NE_READ_DMA) @ map (InW IOPORT) ws) IOPORT
      = content dma (length ws)"
    using w by (simp add: sample_card_def dma_setup_def dma takeWhile_append dropWhile_append rev_map [symmetric])
qed

lemma sample_card_completes: "completes (sample_card content) h"
  unfolding completes_def
  by (rule exI [of _ 0]) (simp add: rdc_at_def sample_card_def nic_ports nic_bits)

theorem NICtoPC_transfers_witness:
  "\<exists>s'. NICtoPC (sample_card (\<lambda>a k. a + of_nat k)) 0x5000 0x4600 5 block_machine = Some s'
    \<and> mem s' 0x5002 = 0x01 \<and> mem s' 0x5003 = 0x46 \<and> mem s' 0x5006 = mem block_machine 0x5006"
proof -
  let ?c = "\<lambda>a k. a + of_nat k :: u16"
  from NICtoPC_transfers [where count = 5 and dev = "sample_card ?c" and dma = "0x4600"
      and s = block_machine and dest = "0x5000", OF _ _ sample_card_completes]
  obtain s' where s': "NICtoPC (sample_card ?c) 0x5000 0x4600 5 block_machine = Some s'"
    "\<forall>a. mem s' a = (if unat (a - 0x5000) < 6
        then word_bytes (read_words (sample_card ?c) 5 0x4600 block_machine) ! unat (a - 0x5000)
        else mem block_machine a)"
    by (auto simp: dma_words_def)
  have "read_words (sample_card ?c) 5 0x4600 block_machine = map (?c 0x4600) [0..<3]"
    using read_words_content [OF sample_card_delivers, of ?c 5 "0x4600" block_machine] by (simp add: dma_words_def)
  then have "word_bytes (read_words (sample_card ?c) 5 0x4600 block_machine) ! k = card_byte ?c 0x4600 k"
    if "k < 6" for k
    using card_bytes_nth [of k 3 ?c "0x4600"] that by simp
  then show ?thesis using s' by (simp add: card_byte_def Let_def drop_bit_eq_div)
qed

theorem dma_returns_witness:
  "NICtoPC (\<lambda>_ _. 0) 0x5000 0x4600 4 block_machine = None
    \<and> PCtoNIC (\<lambda>_ _. 0x40) 0x5000 0x4000 4 block_machine \<noteq> None"
  using dma_returns [where count = 4 and dev = "\<lambda>_ _. 0" and p = "0x5000" and dma = "0x4600" and s = block_machine]
    dma_returns [where count = 4 and dev = "\<lambda>_ _. 0x40" and p = "0x5000" and dma = "0x4000" and s = block_machine]
  by (simp add: rdc_at_def nic_bits)

theorem neInit_station_witness:
  "\<exists>v s'. neInit (sample_card (\<lambda>a k. 0x5200 + of_nat k)) 0x5000 block_machine = Some (v, s')
    \<and> (ucast v :: u8) = 0 \<and> (ucast (drop_bit 8 v) :: u8) = 1 \<and> (ucast (drop_bit 40 v) :: u8) = 5"
proof -
  let ?c = "\<lambda>a k. 0x5200 + of_nat k :: u16"
  have c: "\<forall>h. completes (sample_card ?c) h" using sample_card_completes by blast
  from neInit_station [OF sample_card_delivers c, of "0x5000" block_machine] obtain v s' where
    i: "neInit (sample_card ?c) 0x5000 block_machine = Some (v, s')"
    and b: "\<forall>i < 8. ucast (drop_bit (8 * i) v) = station_bytes ?c ! i" by blast
  show ?thesis
    using i b [rule_format, of 0] b [rule_format, of 1] b [rule_format, of 5]
    by (simp add: station_bytes_def card_byte_def Let_def)
qed

end
