(* ===== verification/Transmit.thy ===== *)
theory Transmit
  imports SendQueue CardMemory
begin

text \<open>
  \<open>neSend\<close> of \<open>net/ne2k/ne2k.c\<close> with the transmitter idle: what the card is told. The port accesses
  are read back as a list of remote writes, each a start address in the card's memory and the
  words written there, and compared with the chain of messages in memory.
\<close>

unbundle bit_operations_syntax

section \<open>Reading the port accesses back\<close>

text \<open>
  The start address register, low and high byte, and the remote writes begun so far, the latest
  first. A write command begins one; a word at the data port belongs to the latest.
\<close>

type_synonym remote_writes = "u8 \<times> u8 \<times> (u16 \<times> u16 list) list"

fun remote_step :: "io_event \<Rightarrow> remote_writes \<Rightarrow> remote_writes" where
  "remote_step (OutB p v) (lo, hi, ts) =
     (if p = REMOTESTARTADDRESS0 then (v, hi, ts)
      else if p = REMOTESTARTADDRESS1 then (lo, v, ts)
      else if p = COMMAND \<and> v = NE_START OR NE_WRITE_DMA
      then (lo, hi, (push_bit 8 (ucast hi) OR ucast lo, []) # ts)
      else (lo, hi, ts))"
| "remote_step (OutW p v) (lo, hi, ts) =
     (case ts of (a, ws) # ts' \<Rightarrow> if p = IOPORT then (lo, hi, (a, ws @ [v]) # ts') else (lo, hi, ts)
      | [] \<Rightarrow> (lo, hi, ts))"
| "remote_step _ r = r"

definition remote_writes :: "io_event list \<Rightarrow> (u16 \<times> u16 list) list" where
  "remote_writes es = rev (snd (snd (fold remote_step es (0, 0, []))))"

text \<open>The chain of messages from \<open>p\<close> on, and where its parts go.\<close>

fun msg_chain :: "mem \<Rightarrow> u32 \<Rightarrow> u32 list \<Rightarrow> bool" where
  "msg_chain m p [] \<longleftrightarrow> p = 0"
| "msg_chain m p (b # bs) \<longleftrightarrow> p = b \<and> b \<noteq> 0 \<and> msg_chain m (msg_next m b) bs"

fun frame_parts :: "mem \<Rightarrow> u16 \<Rightarrow> u32 list \<Rightarrow> (u16 \<times> u16 list) list" where
  "frame_parts m off [] = []"
| "frame_parts m off (b # bs) =
     (0x4000 + off, words_at m (msg_msg b) (dma_words (ucast (msg_len m b))))
     # frame_parts m (off + msg_len m b) bs"

definition frame_length :: "mem \<Rightarrow> u32 list \<Rightarrow> u16" where
  "frame_length m bs = sum_list (map (msg_len m) bs)"

text \<open>The accesses of \<open>neSendPack\<close>.\<close>

definition send_command :: "u16 \<Rightarrow> io_event list" where
  "send_command n =
     [OutB TRANSMITPAGE TRANS_PAGE, OutB TRANSMITBYTECOUNT0 (ucast n),
      OutB TRANSMITBYTECOUNT1 (ucast (drop_bit 8 n)), OutB COMMAND (NE_DMA_ABORT OR NE_SEND OR NE_START)]"

section \<open>One part\<close>

lemma remote_polls:
  "(\<forall>e \<in> set es. (\<exists>p v. e = InB p v) \<or> (\<exists>v. e = OutB INTERRUPTSTATUS v)) \<Longrightarrow> fold remote_step es r = r"
proof (induction es arbitrary: r)
  case (Cons e es)
  then have "remote_step e r = r" by (cases r) (auto simp: nic_ports)
  then show ?case using Cons by simp
qed simp

lemma polled_append:
  "\<exists>es. polled dev n h = h @ es \<and> (\<forall>e \<in> set es. \<exists>p v. e = InB p v)"
proof (induction n arbitrary: h)
  case (Suc n)
  obtain es where "polled dev n (h @ [InB INTERRUPTSTATUS (ucast (dev h INTERRUPTSTATUS))])
      = (h @ [InB INTERRUPTSTATUS (ucast (dev h INTERRUPTSTATUS))]) @ es" "\<forall>e \<in> set es. \<exists>p v. e = InB p v"
    using Suc by blast
  then show ?case
    by (intro exI [of _ "InB INTERRUPTSTATUS (ucast (dev h INTERRUPTSTATUS)) # es"]) simp
qed simp

lemma completion_append:
  "\<exists>es. completion dev h = h @ es \<and> (\<forall>r. fold remote_step es r = r)"
proof -
  obtain es where "polled dev (Suc (LEAST n. rdc_at dev h n)) h = h @ es" "\<forall>e \<in> set es. \<exists>p v. e = InB p v"
    using polled_append by blast
  moreover from this have "fold remote_step (es @ [OutB INTERRUPTSTATUS NE_RDC]) r = r" for r
    by (intro remote_polls) auto
  ultimately show ?thesis
    by (intro exI [of _ "es @ [OutB INTERRUPTSTATUS NE_RDC]"]) (simp add: completion_def del: polled.simps fold_append)
qed

lemma remote_words:
  "fold remote_step (map (OutW IOPORT) ws) (lo, hi, (a, vs) # ts) = (lo, hi, (a, vs @ ws) # ts)"
  by (induction ws arbitrary: vs) simp_all

lemma join_bytes: "push_bit 8 (ucast (ucast (drop_bit 8 a) :: u8)) OR ucast (ucast a :: u8) = a" for a :: u16
  by (rule bit_word_eqI) (auto simp: bit_simps not_less dest: bit_imp_le_length)

lemma remote_setup:
  "\<exists>lo' hi'. fold remote_step (dma_setup count dma (NE_START OR NE_WRITE_DMA)) (lo, hi, ts)
    = (lo', hi', (dma, []) # ts)"
  by (simp add: dma_setup_def nic_ports nic_bits join_bytes)

section \<open>A chain\<close>

lemma send_part:
  assumes "\<forall>h. completes dev h" and "0 < msg_len (mem s) b"
  shows "\<exists>es. PCtoNIC dev (msg_msg b) dma (ucast (msg_len (mem s) b)) s = Some (s\<lparr>io := io s @ es\<rparr>)
    \<and> (\<forall>lo hi ts. \<exists>lo' hi'. fold remote_step es (lo, hi, ts)
        = (lo', hi', (dma, words_at (mem s) (msg_msg b) (dma_words (ucast (msg_len (mem s) b)))) # ts))"
proof -
  let ?n = "ucast (msg_len (mem s) b) :: u32"
  let ?ws = "words_at (mem s) (msg_msg b) (dma_words ?n)"
  have "0 < unat (msg_len (mem s) b)" "unat (msg_len (mem s) b) < 2 ^ 16"
    using assms(2) unsigned_less [of "msg_len (mem s) b"] by (simp_all add: word_less_nat_alt)
  then have n: "0 < ?n" "?n < 0x7FFFFFFF" by (simp_all add: word_less_nat_alt unat_u16_u32)
  obtain es where es: "completion dev (write_history (msg_msg b) ?n dma s) = write_history (msg_msg b) ?n dma s @ es"
    "\<forall>r. fold remote_step es r = r"
    using completion_append by blast
  let ?e = "dma_setup ?n dma (NE_START OR NE_WRITE_DMA) @ map (OutW IOPORT) ?ws @ es"
  have "PCtoNIC dev (msg_msg b) dma ?n s = Some (s\<lparr>io := io s @ ?e\<rparr>)"
    unfolding PCtoNIC_words [OF n] es(1) using assms(1) by (simp add: write_history_def)
  moreover have "\<exists>lo' hi'. fold remote_step ?e (lo, hi, ts) = (lo', hi', (dma, ?ws) # ts)" for lo hi ts
  proof -
    from remote_setup [of ?n dma lo hi ts] obtain lo' hi' where
      "fold remote_step (dma_setup ?n dma (NE_START OR NE_WRITE_DMA)) (lo, hi, ts) = (lo', hi', (dma, []) # ts)"
      by blast
    then show ?thesis using es(2) remote_words [of ?ws lo' hi' dma "[]" ts] by simp
  qed
  ultimately show ?thesis by blast
qed

lemma send_chain_parts:
  assumes "msg_chain (mem s) p bs" and "\<forall>h. completes dev h" and "\<forall>b \<in> set bs. 0 < msg_len (mem s) b"
  shows "\<exists>es. send_chain dev p off s = Some (off + frame_length (mem s) bs, s\<lparr>io := io s @ es\<rparr>)
    \<and> (\<forall>lo hi ts. \<exists>lo' hi'. fold remote_step es (lo, hi, ts)
        = (lo', hi', rev (frame_parts (mem s) off bs) @ ts))"
  using assms
proof (induction bs arbitrary: p off s)
  case Nil
  then show ?case
    by (subst send_chain.simps) (auto simp: frame_length_def intro!: exI [of _ "[]"])
next
  case (Cons b bs)
  let ?n = "msg_len (mem s) b" and ?a = "0x4000 + off"
  have a: "push_bit 8 (ucast TRANS_PAGE) + off = ?a" by (simp add: TRANS_PAGE_def push_bit_eq_mult)
  obtain es where es: "PCtoNIC dev (msg_msg b) ?a (ucast ?n) s = Some (s\<lparr>io := io s @ es\<rparr>)"
    "\<forall>lo hi ts. \<exists>lo' hi'. fold remote_step es (lo, hi, ts)
      = (lo', hi', (?a, words_at (mem s) (msg_msg b) (dma_words (ucast ?n))) # ts)"
    using send_part [OF Cons.prems(2), of s b ?a] Cons.prems(3) by auto
  let ?s = "s\<lparr>io := io s @ es\<rparr>"
  obtain fs where fs: "send_chain dev (msg_next (mem s) b) (off + ?n) ?s
      = Some (off + ?n + frame_length (mem s) bs, ?s\<lparr>io := io ?s @ fs\<rparr>)"
    "\<forall>lo hi ts. \<exists>lo' hi'. fold remote_step fs (lo, hi, ts)
      = (lo', hi', rev (frame_parts (mem s) (off + ?n) bs) @ ts)"
    using Cons.IH [of ?s "msg_next (mem s) b" "off + ?n"] Cons.prems by auto
  have "send_chain dev p off s = Some (off + frame_length (mem s) (b # bs), s\<lparr>io := io s @ es @ fs\<rparr>)"
    using Cons.prems(1) a es(1) fs(1)
    by (subst send_chain.simps) (simp add: frame_length_def add.assoc)
  moreover have "\<exists>lo' hi'. fold remote_step (es @ fs) (lo, hi, ts)
      = (lo', hi', rev (frame_parts (mem s) off (b # bs)) @ ts)" for lo hi ts
  proof -
    obtain lo1 hi1 where "fold remote_step es (lo, hi, ts)
      = (lo1, hi1, (?a, words_at (mem s) (msg_msg b) (dma_words (ucast ?n))) # ts)" using es(2) by blast
    then show ?thesis using fs(2) by simp
  qed
  ultimately show ?case by blast
qed

lemma neSend_idle:
  assumes "msg_chain (mem s) p bs" and "p \<noteq> 0" and "ucast (dev (io s @ [Cli]) COMMAND) \<noteq> (0x26 :: u8)"
    and "\<forall>h. completes dev h" and "\<forall>b \<in> set bs. 0 < msg_len (mem s) b"
  shows "\<exists>es st. neSend dev p s
      = Some (s\<lparr>io := io s @ [Cli, InB COMMAND st] @ es @ send_command (frame_length (mem s) bs) @ [Sti]\<rparr>)
    \<and> remote_writes es = frame_parts (mem s) 0 bs"
proof -
  let ?st = "ucast (dev (io s @ [Cli]) COMMAND) :: u8"
  let ?s = "s\<lparr>io := io s @ [Cli, InB COMMAND ?st]\<rparr>"
  obtain es where es: "send_chain dev p 0 ?s = Some (frame_length (mem s) bs, ?s\<lparr>io := io ?s @ es\<rparr>)"
    "\<forall>lo hi ts. \<exists>lo' hi'. fold remote_step es (lo, hi, ts)
      = (lo', hi', rev (frame_parts (mem s) 0 bs) @ ts)"
    using send_chain_parts [of ?s p bs dev 0] assms(1,4,5) by auto
  have "remote_writes es = frame_parts (mem s) 0 bs"
    using es(2) [rule_format, of 0 0 "[]"] by (auto simp: remote_writes_def)
  moreover have "neSend dev p s
      = Some (s\<lparr>io := io s @ [Cli, InB COMMAND ?st] @ es @ send_command (frame_length (mem s) bs) @ [Sti]\<rparr>)"
    using es(1) assms(2,3)
    by (simp add: neSend_def cli_def sti_def inb_def Let_def neSendPack_def neSetTransferPage_def
        neSetTransferByteCount_def neCmd_def outb_def send_command_def low_byte)
  ultimately show ?thesis by blast
qed

section \<open>Property\<close>

text \<open>
  C17: \<open>neSend\<close> while the transmitter is idle. With interrupts off, every message of the chain is
  written to the card behind the one before it, from the transmit page on, word by word as it
  is in memory; then the transmission of exactly their total length is started. Memory and the
  queue are not touched.
\<close>

theorem neSend_transmits:
  assumes "msg_chain (mem s) p bs" and "p \<noteq> 0" and "ucast (dev (io s @ [Cli]) COMMAND) \<noteq> (0x26 :: u8)"
    and "\<forall>h. completes dev h" and "\<forall>b \<in> set bs. 0 < msg_len (mem s) b"
  shows "\<exists>es st. neSend dev p s
      = Some (s\<lparr>io := io s @ [Cli, InB COMMAND st] @ es @ send_command (frame_length (mem s) bs) @ [Sti]\<rparr>)
    \<and> remote_writes es = frame_parts (mem s) 0 bs"
  by (rule neSend_idle [OF assms])

section \<open>Witness\<close>

text \<open>Two messages, of four and of two bytes.\<close>

definition chain_machine :: machine where
  "chain_machine = block_machine\<lparr>mem := (\<lambda>_. 0)(0x5001 := 0x60, 0x5004 := 4, 0x5006 := 0x11, 0x5007 := 0x22,
     0x5008 := 0x33, 0x5009 := 0x44, 0x6004 := 2, 0x6006 := 0x55, 0x6007 := 0x66)\<rparr>"

theorem neSend_transmits_witness:
  "\<exists>es st. neSend (\<lambda>_ _. 0x40) 0x5000 chain_machine
      = Some (chain_machine\<lparr>io := io chain_machine @ [Cli, InB COMMAND st] @ es @ send_command 6 @ [Sti]\<rparr>)
    \<and> remote_writes es = [(0x4000, [0x2211, 0x4433]), (0x4004, [0x6655])]"
proof -
  let ?m = "mem chain_machine"
  have ld: "msg_next ?m 0x5000 = 0x6000" "msg_next ?m 0x6000 = 0" "msg_len ?m 0x5000 = 4" "msg_len ?m 0x6000 = 2"
    by (simp_all add: chain_machine_def msg_next_def msg_len_def load32_def load16_def push_bit_eq_mult)
  have "msg_chain ?m 0x5000 [0x5000, 0x6000]" using ld by simp
  moreover have "\<forall>h. completes (\<lambda>_ _. 0x40) h" by (simp add: completes_def rdc_at_def nic_bits)
  ultimately obtain es st where
    "neSend (\<lambda>_ _. 0x40) 0x5000 chain_machine = Some (chain_machine\<lparr>io := io chain_machine
      @ [Cli, InB COMMAND st] @ es @ send_command (frame_length ?m [0x5000, 0x6000]) @ [Sti]\<rparr>)"
    "remote_writes es = frame_parts ?m 0 [0x5000, 0x6000]"
    using neSend_transmits [of chain_machine "0x5000" "[0x5000, 0x6000]" "\<lambda>_ _. 0x40"] ld by auto
  moreover have "frame_length ?m [0x5000, 0x6000] = 6" by (simp add: frame_length_def ld)
  moreover have "frame_parts ?m 0 [0x5000, 0x6000] = [(0x4000, [0x2211, 0x4433]), (0x4004, [0x6655])]"
    by (simp add: ld dma_words_def words_at_def msg_msg_def)
      (simp add: chain_machine_def load16_def push_bit_eq_mult upt_rec)
  ultimately show ?thesis by auto
qed

end
