(* ===== verification/Kernel.thy ===== *)
theory Kernel
  imports Ip MemInit Transmit
begin

text \<open>
  Where the parts meet: \<open>ethRecv\<close> of \<open>net/ethernet.c\<close> hands a received frame to its protocol,
  \<open>neISR\<close> of \<open>net/ne2k/ne2k.c\<close> is the card's interrupt routine, and \<open>cmain\<close> of \<open>kernel/init.c\<close>
  brings the system up and sends one datagram.
\<close>

unbundle bit_operations_syntax

section \<open>Receiving a frame\<close>

definition ethRecv :: "net_env \<Rightarrow> u32 \<Rightarrow> machine \<Rightarrow> machine option" where
  "ethRecv e msg s =
     (let eth = msg_msg msg;
          type = load16 (mem s) (eth + 12);
          t = ntohs type
      in if t = ETHERTYPE_IP then Some (ipRecv (eth + sizeof_EthernetHeader) s)
         else if t = ETHERTYPE_ARP \<or> t = ETHERTYPE_REVARP
         then arpRecv e (eth + sizeof_EthernetHeader) s
         else Some (snd (printk (literal ''TYPE:'' @ [27, 10]) (\<lambda>_. ucast type) s)))"

section \<open>The interrupt routine\<close>

definition neISR :: "net_env \<Rightarrow> machine \<Rightarrow> machine option" where
  "neISR e s =
     (let s = cli s;
          s = sti s;
          (state, s) = neGetIntState (dev e) s
      in do { s \<leftarrow>
                (if NE_ISR_PRX AND state \<noteq> 0
                 then do { (msg, s) \<leftarrow> neRecv (dev e) (recv_at e) s; ethRecv e msg s }
                 else if NE_ISR_PTX AND state \<noteq> 0
                 then let (st, s) = inb (dev e) TRANSMITSTATUS s;
                          queue = getLevel (sendQueue s)
                      in if queue \<noteq> 0
                         then do { s \<leftarrow> neSend (dev e) (q_msg (mem s) queue) s;
                                   (q, s) \<leftarrow> queue_del (sendQueue s) s;
                                   Some (s\<lparr>sendQueue := q\<rparr>) }
                         else Some s
                 else Some s);
              let s = neSetIntState state s;
                  s = neSetIntMask 0 s;
                  s = cli s;
                  s = outb 0x20 0xa0 s;
                  s = outb 0x20 0x20 s;
                  s = neSetIntMask imr s;
                  s = neSetIntState state s
              in Some (sti s) })"

section \<open>The kernel entry\<close>

text \<open>\<open>multiboot_info_t\<close>, the fields \<open>cmain\<close> reads.\<close>

definition mb_flags :: "mem \<Rightarrow> u32 \<Rightarrow> u32" where "mb_flags m p = load32 m p"
definition mb_mem_lower :: "mem \<Rightarrow> u32 \<Rightarrow> u32" where "mb_mem_lower m p = load32 m (p + 4)"
definition mb_mem_upper :: "mem \<Rightarrow> u32 \<Rightarrow> u32" where "mb_mem_upper m p = load32 m (p + 8)"
definition mb_mmap_length :: "mem \<Rightarrow> u32 \<Rightarrow> u32" where "mb_mmap_length m p = load32 m (p + 44)"
definition mb_mmap_addr :: "mem \<Rightarrow> u32 \<Rightarrow> u32" where "mb_mmap_addr m p = load32 m (p + 48)"

text \<open>How \<open>cmain\<close> ends: it returns a value, or it reaches the final empty loop.\<close>

datatype cmain_end = Returned u32 | Spinning

definition cmain :: "net_env \<Rightarrow> entry_points \<Rightarrow> u32 \<Rightarrow> machine \<Rightarrow> (cmain_end \<times> machine) option" where
  "cmain e H env s =
     (let s = trap_init (dev e) H s;
          flags = mb_flags (mem s) env
      in if flags AND 0x40 = 0 \<and> flags AND 0x1 = 0 then Some (Returned (- 1), s)
         else do { s \<leftarrow> (if flags AND 0x40 \<noteq> 0
                        then mmap_init H (mb_mmap_addr (mem s) env) (mb_mmap_length (mem s) env) s
                        else mm_init H (mb_mem_lower (mem s) env) (mb_mem_upper (mem s) env) s);
                   (mac, s) \<leftarrow> neInit (dev e) (mac_at e) s;
                   (msg, s) \<leftarrow> malloc (sizeof_msgT + 100) s;
                   let s = set_msg_len msg 100 s;
                       s = set_msg_next msg 0 s;
                       s = s\<lparr>mem := snd (memcpy (mem s) (msg_msg msg) (hello_at e) 17)\<rparr>
                   in do { s \<leftarrow> udpSend e msg (htonl 0xc0a80165) (htons 8000) (htons 1024) s;
                           s \<leftarrow> interrupts e s;
                           Some (Spinning, s) } })"

section \<open>The interrupt routine after a transmission\<close>

text \<open>How \<open>neISR\<close> ends: it acknowledges the interrupts it saw, at the card and at both controllers.\<close>

definition isr_end :: "u8 \<Rightarrow> io_event list" where
  "isr_end st =
     [OutB INTERRUPTSTATUS st, OutB INTERRUPTMASK 0, Cli, OutB 0xa0 0x20, OutB 0x20 0x20,
      OutB INTERRUPTMASK imr, OutB INTERRUPTSTATUS st, Sti]"

lemma neISR_sent:
  assumes "NE_ISR_PRX AND st = 0" and "NE_ISR_PTX AND st \<noteq> 0"
    and "st = ucast (dev e (io s @ [Cli, Sti]) INTERRUPTSTATUS)"
    and "t = s\<lparr>io := io s @ [Cli, Sti, InB INTERRUPTSTATUS st,
        InB TRANSMITSTATUS (ucast (dev e (io s @ [Cli, Sti, InB INTERRUPTSTATUS st]) TRANSMITSTATUS))]\<rparr>"
    and "sendQueue s \<noteq> 0"
  shows "neISR e s =
    do { u \<leftarrow> neSend (dev e) (q_msg (mem s) (sendQueue s)) t;
         (q, u) \<leftarrow> queue_del (sendQueue u) u;
         Some (u\<lparr>sendQueue := q, io := io u @ isr_end st\<rparr>) }"
  using assms by (simp add: neISR_def cli_def sti_def neGetIntState_def inb_def Let_def getLevel_def
      neSetIntState_def neSetIntMask_def outb_def isr_end_def case_prod_unfold)

text \<open>
  C18: the card's interrupt after a transmission. If messages wait, the oldest is handed to the idle
  card: all its parts are written to the card in order and their total length is transmitted;
  then it, and only it, leaves the queue and its node goes back to the heap. Last, the interrupts
  seen are acknowledged and interrupts are enabled again.
\<close>

theorem neISR_sends_next:
  assumes "queue_inv s H S (sendQueue s) ((n, b) # ys)" and "heap_freeable s n"
    and "st = ucast (dev e (io s @ [Cli, Sti]) INTERRUPTSTATUS)"
    and "NE_ISR_PRX AND st = 0" and "NE_ISR_PTX AND st \<noteq> 0"
    and "msg_chain (mem s) b bs" and "b \<noteq> 0" and "\<forall>x \<in> set bs. 0 < msg_len (mem s) x"
    and "\<forall>h. ucast (dev e h COMMAND) \<noteq> (0x26 :: u8)" and "\<forall>h. completes (dev e) h"
  shows "\<exists>s' k tx c es. neISR e s = Some s' \<and> (n, k) \<in> H
    \<and> queue_inv s' (H - {(n, k)}) S (sendQueue s') ys
    \<and> same_areas (H \<union> S - {(n, k)}) (mem s) (mem s')
    \<and> io s' = io s @ [Cli, Sti, InB INTERRUPTSTATUS st, InB TRANSMITSTATUS tx, Cli, InB COMMAND c]
        @ es @ send_command (frame_length (mem s) bs) @ [Sti] @ isr_end st
    \<and> remote_writes es = frame_parts (mem s) 0 bs"
proof -
  let ?tx = "ucast (dev e (io s @ [Cli, Sti, InB INTERRUPTSTATUS st]) TRANSMITSTATUS) :: u8"
  define t where "t = s\<lparr>io := io s @ [Cli, Sti, InB INTERRUPTSTATUS st, InB TRANSMITSTATUS ?tx]\<rparr>"
  have t: "mem t = mem s" "mmList t = mmList s" by (simp_all add: t_def)
  have q: "queue_list (mem s) (sendQueue s) ((n, b) # ys)" using assms(1) by (simp only: queue_inv_def)
  have mt: "msg_chain (mem t) b bs" "\<forall>x \<in> set bs. 0 < msg_len (mem t) x" using assms(6,8) by (simp_all add: t)
  obtain es c where sent: "neSend (dev e) b t
      = Some (t\<lparr>io := io t @ [Cli, InB COMMAND c] @ es @ send_command (frame_length (mem t) bs) @ [Sti]\<rparr>)"
    "remote_writes es = frame_parts (mem t) 0 bs"
    using neSend_idle [OF mt(1) assms(7) spec [OF assms(9)] assms(10) mt(2)] by blast
  define u where "u = t\<lparr>io := io t @ [Cli, InB COMMAND c] @ es @ send_command (frame_length (mem t) bs) @ [Sti]\<rparr>"
  have u: "mem u = mem s" "mmList u = mmList s" "sendQueue u = sendQueue s" by (simp_all add: u_def t_def)
  have "queue_inv u H S (sendQueue u) ((n, b) # ys)"
    unfolding u(3) by (rule queue_inv_other [OF assms(1)]) (simp_all add: u)
  moreover have "heap_freeable u n" using assms(2) by (simp add: heap_freeable_def u)
  ultimately obtain q' k v where v: "queue_del (sendQueue u) u = Some (q', v)" "(n, k) \<in> H"
    "queue_inv v (H - {(n, k)}) S q' ys" "same_areas (H \<union> S - {(n, k)}) (mem u) (mem v)" "io v = io u"
    using queue_del_front_io by blast
  let ?s' = "v\<lparr>sendQueue := q', io := io v @ isr_end st\<rparr>"
  have "neISR e s = Some ?s'"
    using neISR_sent [OF assms(4,5,3) t_def] q sent(1) [folded u_def] v(1) by simp
  moreover have "queue_inv ?s' (H - {(n, k)}) S (sendQueue ?s') ys"
    using queue_inv_other [OF v(3)] by simp
  moreover have "io ?s' = io s @ [Cli, Sti, InB INTERRUPTSTATUS st, InB TRANSMITSTATUS ?tx, Cli, InB COMMAND c]
      @ es @ send_command (frame_length (mem s) bs) @ [Sti] @ isr_end st"
    using v(5) by (simp add: u_def t_def)
  ultimately show ?thesis
    using v(2,4) sent(2) by (intro exI [of _ ?s'] exI [of _ k] exI [of _ ?tx] exI [of _ c] exI [of _ es]) (simp add: u t)
qed

text \<open>
  C27: \<open>cmain\<close> without a memory map. If the boot loader gave no memory sizes either it returns -1
  with nothing but the trap table set up. If it gave sizes, and \<open>mem_upper\<close> is below \<open>0x401000\<close>
  kilobytes, that is up to 4 GB, and \<open>KMEM\<close> has the value it is initialised with, then it never
  gets past \<open>mm_init\<close>, which takes that count of kilobytes for a byte address. The boot information
  must lie outside the interrupt table, which is filled first.
\<close>

theorem cmain_ends:
  assumes "\<forall>i < 52. \<not> in_range IDT_ADDR 2048 (env + of_nat i)"
  shows "(mb_flags (mem s) env AND 0x40 = 0 \<and> mb_flags (mem s) env AND 0x1 = 0
        \<longrightarrow> cmain e H env s = Some (Returned (- 1), trap_init (dev e) H s))
    \<and> (mb_flags (mem s) env AND 0x40 = 0 \<and> mb_flags (mem s) env AND 0x1 \<noteq> 0
        \<and> mb_mem_upper (mem s) env < 0x401000 \<and> KMEM s = 0x40000000 \<longrightarrow> cmain e H env s = None)"
proof (intro conjI impI)
  let ?m = "mem (trap_init (dev e) H s)"
  have "load32 ?m (env + of_nat i) = load32 (mem s) (env + of_nat i)" if "i \<le> 48" for i
  proof (rule load32_cong)
    fix k :: nat
    assume "k < 4"
    then have "i + k < 52" using that by simp
    with assms have "\<not> in_range IDT_ADDR 2048 (env + of_nat (i + k))" by blast
    from trap_init_frame [OF this] show "?m (env + of_nat i + of_nat k) = mem s (env + of_nat i + of_nat k)"
      by (simp add: add.assoc)
  qed
  from this [of 0] this [of 8] have f: "mb_flags ?m env = mb_flags (mem s) env"
    "mb_mem_upper ?m env = mb_mem_upper (mem s) env"
    by (simp_all add: mb_flags_def mb_mem_upper_def)
  show "cmain e H env s = Some (Returned (- 1), trap_init (dev e) H s)"
    if "mb_flags (mem s) env AND 0x40 = 0 \<and> mb_flags (mem s) env AND 0x1 = 0"
    using that by (simp add: cmain_def Let_def f)
  show "cmain e H env s = None"
    if "mb_flags (mem s) env AND 0x40 = 0 \<and> mb_flags (mem s) env AND 0x1 \<noteq> 0
        \<and> mb_mem_upper (mem s) env < 0x401000 \<and> KMEM s = 0x40000000"
  proof -
    have "mm_init H lower (mb_mem_upper (mem s) env) (trap_init (dev e) H s) = None" for lower
      by (rule mm_init_none) (use that in \<open>simp_all add: trap_init_globals\<close>)
    then show ?thesis using that by (simp add: cmain_def Let_def f)
  qed
qed

section \<open>Witnesses\<close>

text \<open>Boot information at \<open>0x9000\<close>: flags, and 15 MB of upper memory.\<close>

definition boot_info :: "u8 \<Rightarrow> machine" where
  "boot_info f = boot_machine ((\<lambda>_. 0)(0x9000 := f, 0x9009 := 0x3C)) 0x310000"

theorem cmain_ends_witness:
  "cmain sample_env sample_stubs 0x9000 (boot_info 0)
      = Some (Returned (- 1), trap_init (\<lambda>_ _. 0x40) sample_stubs (boot_info 0))
    \<and> cmain sample_env sample_stubs 0x9000 (boot_info 1) = None"
proof -
  have out: "\<forall>i < 52. \<not> in_range IDT_ADDR 2048 ((0x9000 :: u32) + of_nat i)"
  proof (intro allI impI)
    fix i :: nat
    assume "i < 52"
    then have "unat ((0x9000 :: u32) + of_nat i) = 0x9000 + i" using unat_add_nat [of "0x9000" i] by simp
    then show "\<not> in_range IDT_ADDR 2048 ((0x9000 :: u32) + of_nat i)"
      using \<open>i < 52\<close> by (simp add: in_range_def IDT_ADDR_def)
  qed
  have "mb_flags (mem (boot_info f)) 0x9000 = ucast f" "mb_mem_upper (mem (boot_info f)) 0x9000 = 0x3C00"
    "KMEM (boot_info f) = 0x40000000" for f
    by (simp_all add: boot_info_def boot_machine_def mb_flags_def mb_mem_upper_def load32_def push_bit_eq_mult)
  then show ?thesis
    using cmain_ends [OF out, of "boot_info 0" sample_env sample_stubs]
      cmain_ends [OF out, of "boot_info 1" sample_env sample_stubs]
    by (simp add: sample_env_def)
qed

text \<open>A card that is idle, reports a transmission, and completes every transfer at once.\<close>

definition idle_env :: net_env where
  "idle_env = sample_env\<lparr>dev := \<lambda>_ p. if p = INTERRUPTSTATUS then 0x42 else 0\<rparr>"


text \<open>A heap of one page whose first block is the only node of the send queue, and the message at \<open>0x5000\<close>.\<close>

definition isr_machine :: machine where
  "isr_machine = queue_machine\<lparr>mem := (store32 (mem block_machine) 0x400010 0x5000)
     (0x5004 := 2, 0x5006 := 0x55, 0x5007 := 0x66)\<rparr>"

lemma isr_machine_fields:
  "load32 (mem isr_machine) x = load32 (mem block_machine) x"
  if "apart 0x5004 4 x 4" "apart 0x400010 4 x 4"
proof -
  have "apart 0x5004 1 x 4" "apart 0x5006 1 x 4" "apart 0x5007 1 x 4" using that(1) by (auto simp: apart_def)
  then show ?thesis using that(2) by (simp add: isr_machine_def load32_upd_apart load32_store32_apart)
qed

lemma isr_machine_heads [simp]: "mmList isr_machine = 0x310000" "sendQueue isr_machine = 0x400010" "io isr_machine = []"
  by (simp_all add: isr_machine_def)

lemma isr_machine_queue: "queue_inv isr_machine {(0x400010, 100)} {(0x5000, 8)} 0x400010 [(0x400010, 0x5000)]"
proof -
  have "heap_ok isr_machine [0x400074] {0x400000}"
    by (rule heap_ok_fields [OF block_machine_ok])
      (auto simp: isr_machine_fields apart_def block_machine_fields)
  moreover have "load32 (mem isr_machine) 0x400000 = 100" "load32 (mem isr_machine) 0x400074 = 3964"
    "load32 (mem isr_machine) 0x310000 = 0"
    by (simp_all add: isr_machine_fields apart_def block_machine_fields)
  ultimately have "heap_owns isr_machine {(0x400010, 100)} {(0x5000, 8)}"
    unfolding heap_owns_def
    by (intro exI [of _ "[0x400074]"] exI [of _ "{0x400000}"])
      (simp add: payload_def sizeof_mlT_def areas_ok_def clear_of_def apart_def ext_def)
  moreover have "load32 (mem isr_machine) 0x400010 = 0x5000" "load32 (mem isr_machine) 0x400014 = 0"
    by (simp_all add: isr_machine_def load32_upd_apart load32_store32_apart apart_def block_machine_def
        load32_zero free_machine_def boot_machine_def)
  ultimately show ?thesis by (simp add: queue_inv_def nodes_owned_def q_msg_def q_next_def)
qed

lemma isr_machine_freeable: "heap_freeable isr_machine 0x400010"
proof -
  have f: "load32 (mem isr_machine) 0x400000 = 100" "load32 (mem isr_machine) 0x310000 = 0"
    "load32 (mem isr_machine) 0x310004 = 0x400074" "load32 (mem isr_machine) 0x310008 = 0"
    "load32 (mem isr_machine) 0x400078 = 0" "load32 (mem isr_machine) 0x40007C = 0x310000"
    by (simp_all add: isr_machine_fields apart_def block_machine_fields)
  then have "0x400074 = neighbour (mem isr_machine) 0x400000" by (simp add: neighbour_def sizeof_mlT_def)
  moreover have "dll (mem isr_machine) 0 0x310000 (0x310000 # [0x400074])" using f by simp
  ultimately show ?thesis
    unfolding heap_freeable_def Let_def
    by (auto simp: sizeof_mlT_def f simp del: dll.simps intro!: exI [of _ "[0x400074]"])
qed

theorem neISR_sends_next_witness:
  "\<exists>s' es tx c. neISR idle_env isr_machine = Some s' \<and> queue_inv s' {} {(0x5000, 8)} (sendQueue s') []
    \<and> remote_writes es = [(0x4000, [0x6655])]
    \<and> io s' = [Cli, Sti, InB INTERRUPTSTATUS 0x42, InB TRANSMITSTATUS tx, Cli, InB COMMAND c]
        @ es @ send_command 2 @ [Sti] @ isr_end 0x42"
proof -
  let ?m = "mem isr_machine"
  have ld: "msg_next ?m 0x5000 = 0" "msg_len ?m 0x5000 = 2"
    "frame_parts ?m 0 [0x5000] = [(0x4000, [0x6655])]" "frame_length ?m [0x5000] = 2"
    by (simp_all add: isr_machine_def msg_next_def msg_len_def load32_def load16_def push_bit_eq_mult
        frame_length_def dma_words_def words_at_def msg_msg_def block_machine_def store32_byte apart_def
        free_machine_def boot_machine_def)
  have d: "dev idle_env = (\<lambda>_ p. if p = INTERRUPTSTATUS then 0x42 else 0)" by (simp add: idle_env_def)
  have "\<forall>h. completes (dev idle_env) h" by (simp add: completes_def rdc_at_def d nic_bits)
  moreover have "\<forall>h. ucast (dev idle_env h COMMAND) \<noteq> (0x26 :: u8)" by (simp add: d nic_ports)
  ultimately show ?thesis
    using neISR_sends_next [of isr_machine "{(0x400010, 100)}" "{(0x5000, 8)}" "0x400010" "0x5000" "[]" "0x42"
        idle_env "[0x5000]"] isr_machine_queue isr_machine_freeable ld
    by (simp add: d nic_bits) blast
qed

end
