(* ===== verification/Receive.thy ===== *)
theory Receive
  imports CardMemory SendQueue
begin

text \<open>
  \<open>neRecv\<close> of \<open>net/ne2k/ne2k.c\<close>: a packet in the card's ring is announced by a header that names the
  next packet's page and the packet's length, and is copied into a message from the heap.
\<close>

unbundle bit_operations_syntax

section \<open>Reading the ring\<close>

text \<open>The page after the boundary, and the accesses that find out whether it holds a packet.\<close>

definition ring_page :: "u8 \<Rightarrow> u8" where
  "ring_page b = (if b + 1 > RECV_PAGE_END then RECV_PAGE else b + 1)"

definition poll_boundary :: "device \<Rightarrow> machine \<Rightarrow> u8" where
  "poll_boundary dev s = ucast (dev (io s) BOUNDARY)"

definition poll_current :: "device \<Rightarrow> machine \<Rightarrow> u8" where
  "poll_current dev s = ucast (dev (io s @ [InB BOUNDARY (poll_boundary dev s),
     OutB COMMAND (NE_PAGE01 OR NE_START OR NE_DMA_ABORT)]) CURRENT)"

definition poll_trace :: "device \<Rightarrow> machine \<Rightarrow> io_event list" where
  "poll_trace dev s = [InB BOUNDARY (poll_boundary dev s), OutB COMMAND (NE_PAGE01 OR NE_START OR NE_DMA_ABORT),
     InB CURRENT (poll_current dev s), OutB COMMAND (NE_PAGE00 OR NE_START OR NE_DMA_ABORT)]"

abbreviation packet_page :: "device \<Rightarrow> machine \<Rightarrow> u16" where
  "packet_page dev s \<equiv> push_bit 8 (ucast (ring_page (poll_boundary dev s)))"

text \<open>The memory after the header was read and the length of the checksum taken off.\<close>

definition header_mem :: "(u16 \<Rightarrow> nat \<Rightarrow> u16) \<Rightarrow> u16 \<Rightarrow> u32 \<Rightarrow> mem \<Rightarrow> mem" where
  "header_mem content dma recv m =
     (let m = store_bytes (word_bytes (map (content dma) [0..<2])) recv m
      in store16 m (recv + 2) (load16 m (recv + 2) - 4))"

lemma neRecv_poll:
  "neRecv dev recv s =
    (let s' = s\<lparr>io := io s @ poll_trace dev s\<rparr>; pg = ring_page (poll_boundary dev s)
     in if pg \<noteq> poll_current dev s
        then do { s \<leftarrow> NICtoPC dev recv (push_bit 8 (ucast pg)) sizeof_recvHeadT s'; recv_packet dev recv pg s }
        else Some (0, s'))"
  unfolding neRecv_def
  by (simp add: neGetBoundary_def neGetCurrnet_def inb_def neCmd_def outb_def Let_def
      poll_boundary_def [symmetric] poll_current_def [symmetric] poll_trace_def ring_page_def [symmetric])

text \<open>\<open>recv_packet\<close> with the corrected header in memory.\<close>

lemma recv_packet_header:
  assumes "load16 m (recv + 2) = len" and "m (recv + 1) = nxt"
    and "m = store16 (mem s) (recv + 2) (load16 (mem s) (recv + 2) - 4)"
  shows "recv_packet dev recv bound s =
    (if nxt > RECV_PAGE_END \<or> nxt < RECV_PAGE \<or> len > 0x600
     then Some (0, neSetBoundary RECV_PAGE_END (neSetCurrnet RECV_PAGE (s\<lparr>mem := m\<rparr>)))
     else do { (buf, s) \<leftarrow> malloc (sizeof_msgT + ucast len) (s\<lparr>mem := m\<rparr>);
               if buf \<noteq> 0
               then let s = set_msg_next buf 0 s;
                        s = set_msg_len buf (load16 (mem s) (recv + 2)) s
                    in do { s \<leftarrow> NICtoPC dev (msg_msg buf)
                                   (push_bit 8 (ucast bound) OR ucast sizeof_recvHeadT)
                                   (ucast (msg_len (mem s) buf)) s;
                            Some (buf, neSetBoundary (mem s (recv + 1) - 1) s) }
               else Some (buf, s) })"
  unfolding recv_packet_def assms(3) [symmetric] Let_def by (simp add: assms(1,2) Let_def)

text \<open>The fields of the header.\<close>

lemma header_fields:
  "load16 (header_mem content dma recv m) (recv + 2) = content dma 1 - 4"
  "header_mem content dma recv m (recv + 1) = ucast (drop_bit 8 (content dma 0))"
proof -
  let ?m = "store_bytes (word_bytes (map (content dma) [0..<2])) recv m"
  have at: "?m (recv + of_nat k) = card_byte content dma k" if "k < 4" for k
  proof -
    have "unat (of_nat k :: u32) = k" using that by (simp add: unat_of_nat)
    moreover have "recv + of_nat k - recv = of_nat k" by simp
    ultimately have "?m (recv + of_nat k) = word_bytes (map (content dma) [0..<2]) ! k"
      using that by (subst store_bytes_at) simp_all
    also have "\<dots> = card_byte content dma k" by (rule card_bytes_nth) (use that in simp)
    finally show ?thesis .
  qed
  have w: "push_bit 8 (ucast (ucast (drop_bit 8 w) :: u8)) OR ucast (ucast w :: u8) = w" for w :: u16
    by (rule bit_word_eqI) (auto simp: bit_simps)
  have l: "load16 ?m (recv + 2) = content dma 1"
    using at [of 2] at [of 3] w [of "content dma 1"] by (simp add: load16_def card_byte_def Let_def add.assoc)
  then show "load16 (header_mem content dma recv m) (recv + 2) = content dma 1 - 4"
    by (simp add: header_mem_def Let_def)
  have "header_mem content dma recv m (recv + 1) = ?m (recv + 1)"
    by (simp add: header_mem_def Let_def store16_def)
  then show "header_mem content dma recv m (recv + 1) = ucast (drop_bit 8 (content dma 0))"
    using at [of 1] by (simp add: card_byte_def Let_def)
qed

lemma header_only_area:
  assumes "unat recv + 4 \<le> 2 ^ 32"
  shows "only_area recv 4 m (header_mem content dma recv m)"
  unfolding header_mem_def Let_def
proof (rule only_area_trans)
  show "only_area recv 4 m (store_bytes (word_bytes (map (content dma) [0..<2])) recv m)"
    using only_area_store_bytes [OF assms, of 0 "word_bytes (map (content dma) [0..<2])" m] by simp
  show "only_area recv 4 m' (store16 m' (recv + 2) v)" for m' v
    using only_area_store16 [OF assms, of 2 m' v] by simp
qed

text \<open>A packet is announced: the header is read into the local variable.\<close>

lemma neRecv_header:
  assumes "ring_page (poll_boundary dev s) \<noteq> poll_current dev s"
    and d: "delivers dev content" and c: "\<And>h. completes dev h"
  shows "\<exists>t. neRecv dev recv s = recv_packet dev recv (ring_page (poll_boundary dev s)) t
    \<and> mmList t = mmList s
    \<and> header_mem content (packet_page dev s) recv (mem s)
      = store16 (mem t) (recv + 2) (load16 (mem t) (recv + 2) - 4)"
proof -
  have "dma_words sizeof_recvHeadT = 2" by (simp add: dma_words_def sizeof_recvHeadT_def)
  then show ?thesis
    using NICtoPC_content [OF _ _ d c, of sizeof_recvHeadT recv "packet_page dev s" "s\<lparr>io := io s @ poll_trace dev s\<rparr>"]
      assms(1)
    by (auto simp: neRecv_poll Let_def header_mem_def sizeof_recvHeadT_def)
qed

section \<open>Copying a packet\<close>

text \<open>The memory of the message after its head is written.\<close>

definition msg_head :: "u16 \<Rightarrow> u32 \<Rightarrow> mem \<Rightarrow> mem" where
  "msg_head len p m = store16 (store32 m p 0) (p + 4) len"

lemma msg_head_area:
  assumes "unat p + k \<le> 2 ^ 32" and "8 \<le> k"
  shows "only_area p k m (msg_head len p m)"
  unfolding msg_head_def
  using only_area_store32 [OF assms(1), of 0 m 0] only_area_store16 [OF assms(1), of 4 "store32 m p 0" len] assms(2)
  by (auto intro: only_area_trans)

lemma msg_head_fields:
  assumes "unat p + k \<le> 2 ^ 32" and "8 \<le> k"
  shows "msg_next (msg_head len p m) p = 0" and "msg_len (msg_head len p m) p = len"
proof -
  have "unat (p + 4) = unat p + 4" using unat_add_nat [of p 4] assms by simp
  then have "apart (p + 4) 2 p 4" using assms by (auto simp: apart_def)
  then show "msg_next (msg_head len p m) p = 0"
    by (simp add: msg_next_def msg_head_def load32_store16_apart)
  show "msg_len (msg_head len p m) p = len" by (simp add: msg_len_def msg_head_def)
qed

lemma load16_area:
  assumes "same_areas R m m'" and "(p, k) \<in> R" and "unat p + k \<le> 2 ^ 32" and "i + 2 \<le> k"
  shows "load16 m' (p + of_nat i) = load16 m (p + of_nat i)"
  by (rule load16_same [OF _ assms(3,4)]) (rule same_areasD [OF assms(1,2)])

text \<open>The block for a packet, with its head.\<close>

lemma recv_alloc:
  assumes o: "heap_owns s H S" and r: "(recv, 4) \<in> S" and l: "load16 (mem s) (recv + 2) = len"
    and f: "heap_fits s (sizeof_msgT + ucast len)" and small: "unat len \<le> 0x600"
  shows "\<exists>buf k s'. malloc (sizeof_msgT + ucast len) s = Some (buf, s') \<and> buf \<noteq> 0
    \<and> 8 + unat len \<le> k \<and> unat buf + k \<le> 2 ^ 32 \<and> (buf, k) \<notin> H \<union> S
    \<and> s' = s\<lparr>mem := mem s'\<rparr>
    \<and> set_msg_len buf (load16 (mem (set_msg_next buf 0 s')) (recv + 2)) (set_msg_next buf 0 s')
       = s\<lparr>mem := msg_head len buf (mem s')\<rparr>
    \<and> heap_owns (s\<lparr>mem := msg_head len buf (mem s')\<rparr>) (insert (buf, k) H) S
    \<and> same_areas (H \<union> S) (mem s) (msg_head len buf (mem s'))"
proof -
  have n: "unat (sizeof_msgT + ucast len) = 8 + unat len"
    using unat_add_nat [of sizeof_msgT "unat len"] small by (simp add: sizeof_msgT_def)
  have "only_area p k m (msg_head len p m)"
    if "unat p + k \<le> 2 ^ 32" "unat (sizeof_msgT + ucast len) \<le> k" for p k m
    by (rule msg_head_area [OF that(1)]) (use that(2) n in simp)
  from heap.alloc_fill [OF o f this] obtain buf k s' where
    a: "malloc (sizeof_msgT + ucast len) s = Some (buf, s')" "buf \<noteq> 0"
      "unat (sizeof_msgT + ucast len) \<le> k" "unat buf + k \<le> 2 ^ 32" "(buf, k) \<notin> H \<union> S"
      "s' = s\<lparr>mem := mem s'\<rparr>" "heap_owns (s'\<lparr>mem := msg_head len buf (mem s')\<rparr>) (insert (buf, k) H) S"
      "same_areas (H \<union> S) (mem s) (msg_head len buf (mem s'))"
    by blast
  have ok: "areas_ok (insert (buf, k) H \<union> S)" by (rule heap.areas [OF a(7)])
  have k: "8 + unat len \<le> k" using a(3) n by simp
  have ap: "apart buf k recv 4" by (rule areas_apart [OF ok]) (use r a(5) in auto)
  then have "unat (recv + 2) = unat recv + 2" using unat_add_nat [of recv 2] by (simp add: apart_def)
  then have "apart buf 4 (recv + 2) 2" using ap k by (auto simp: apart_def)
  moreover have "apart (buf + 4) 2 (recv + 2) 2"
    using ap k unat_add_nat [of buf 4] \<open>unat (recv + 2) = unat recv + 2\<close> a(4) by (auto simp: apart_def)
  moreover have "load16 (msg_head len buf (mem s')) (recv + 2) = len"
    using load16_area [OF a(8) _ _, of recv 4 2] r l ap by (simp add: apart_def)
  ultimately have "load16 (store32 (mem s') buf 0) (recv + 2) = len"
    by (simp add: msg_head_def load16_store16_apart load16_store32_apart)
  then have "set_msg_len buf (load16 (mem (set_msg_next buf 0 s')) (recv + 2)) (set_msg_next buf 0 s')
      = s\<lparr>mem := msg_head len buf (mem s')\<rparr>"
    using mem_only(1) [OF a(6)] by (simp add: set_msg_len_def set_msg_next_def msg_head_def)
  then show ?thesis using a k mem_only(1) [OF a(6)] by auto
qed

lemma recv_packet_good:
  fixes bound :: u8
  assumes o: "heap_owns s H S" and r: "(recv, 4) \<in> S"
    and d: "delivers dev content" and c: "\<And>h. completes dev h"
    and m: "header_mem content dma recv (mem s) = store16 (mem t) (recv + 2) (load16 (mem t) (recv + 2) - 4)"
    and L: "mmList t = mmList s"
    and nxt: "nxt = ucast (drop_bit 8 (content dma 0))" "RECV_PAGE \<le> nxt" "nxt \<le> RECV_PAGE_END"
    and len: "len = content dma 1 - 4" "0 < len" "len \<le> 0x600"
    and f: "heap_fits s (sizeof_msgT + ucast len)"
  defines "pg \<equiv> push_bit 8 (ucast bound) OR ucast sizeof_recvHeadT"
  shows "\<exists>buf k s' h. recv_packet dev recv bound t = Some (buf, s') \<and> buf \<noteq> 0
    \<and> heap_owns s' (insert (buf, k) H) S \<and> (buf, k) \<notin> H \<union> S
    \<and> same_areas (H \<union> S - {(recv, 4)}) (mem s) (mem s')
    \<and> msg_next (mem s') buf = 0 \<and> msg_len (mem s') buf = len
    \<and> (\<forall>i < unat len. mem s' (msg_msg buf + of_nat i) = card_byte content pg i)
    \<and> io s' = h @ [OutB BOUNDARY (nxt - 1)]"
proof -
  let ?m = "header_mem content dma recv (mem s)"
  have rb: "unat recv + 4 \<le> 2 ^ 32" by (rule areas_bound [OF heap.areas [OF o]]) (use r in simp)
  have wr: "only_area recv 4 (mem s) ?m" by (rule header_only_area [OF rb])
  have rm: "(recv, 4) \<in> H \<union> S" using r by simp
  note wf = heap.write_frame [OF o rm wr]
  have o1: "heap_owns (t\<lparr>mem := ?m\<rparr>) H S" by (rule heap.others [OF conjunct1 [OF wf]]) (simp_all add: L)
  have f1: "heap_fits (t\<lparr>mem := ?m\<rparr>) (sizeof_msgT + ucast len)"
    by (rule heap.fits_other [OF heap.fits_write [OF o rm wr f]]) (simp_all add: L)
  have ln: "load16 (mem (t\<lparr>mem := ?m\<rparr>)) (recv + 2) = len" using header_fields(1) len(1) by simp
  have sl: "unat len \<le> 0x600" "0 < unat len" using len by (simp_all add: word_le_nat_alt word_less_nat_alt)
  from recv_alloc [OF o1 r ln f1 sl(1)] obtain buf k s2 where
    a: "malloc (sizeof_msgT + ucast len) (t\<lparr>mem := ?m\<rparr>) = Some (buf, s2)" "buf \<noteq> 0"
      "8 + unat len \<le> k" "unat buf + k \<le> 2 ^ 32" "(buf, k) \<notin> H \<union> S"
      "set_msg_len buf (load16 (mem (set_msg_next buf 0 s2)) (recv + 2)) (set_msg_next buf 0 s2)
       = t\<lparr>mem := msg_head len buf (mem s2)\<rparr>"
      "heap_owns (t\<lparr>mem := msg_head len buf (mem s2)\<rparr>) (insert (buf, k) H) S"
      "same_areas (H \<union> S) ?m (msg_head len buf (mem s2))"
    by auto
  let ?s3 = "t\<lparr>mem := msg_head len buf (mem s2)\<rparr>"
  let ?cnt = "ucast len :: u32"
  let ?bs = "word_bytes (map (content pg) [0..<dma_words ?cnt])"
  let ?m4 = "store_bytes ?bs (msg_msg buf) (mem ?s3)"
  have cnt: "0 < ?cnt" "?cnt < 0x7FFFFFFF" "unat ?cnt = unat len"
    using sl by (simp_all add: word_less_nat_alt unat_u16_u32)
  have dw: "2 * dma_words ?cnt \<le> unat len + 1" "unat len \<le> 2 * dma_words ?cnt"
    using cnt(3) by (simp_all add: dma_words_bytes)
  from NICtoPC_content [OF cnt(1,2) d c, of "msg_msg buf" pg ?s3] obtain h where
    n: "NICtoPC dev (msg_msg buf) pg ?cnt ?s3 = Some (t\<lparr>mem := ?m4, io := h\<rparr>)" by auto
  have w4: "only_area buf k (mem ?s3) ?m4"
    using only_area_store_bytes [OF a(4), of 6 ?bs "mem ?s3"] a(3) dw(1) by (simp add: msg_msg_def)
  have bk: "(buf, k) \<in> insert (buf, k) H \<union> S" by simp
  note w = heap.write_frame [OF a(7) bk w4]
  have s4: "same_areas (H \<union> S) ?m ?m4"
  proof (rule same_areas_trans)
    show "same_areas (H \<union> S) ?m (mem ?s3)" using a(8) by simp
    show "same_areas (H \<union> S) (mem ?s3) ?m4"
      by (rule same_areas_mono [OF conjunct2 [OF w]]) (use a(5) in auto)
  qed
  have nx: "?m4 (recv + 1) = nxt"
  proof -
    have "in_range recv 4 (recv + of_nat 1)" by (rule in_range_offset [OF rb]) simp
    then have "?m4 (recv + 1) = ?m (recv + 1)" using same_areasD [OF s4 rm] by simp
    then show ?thesis using header_fields(2) nxt(1) by simp
  qed
  have hd: "msg_next ?m4 buf = 0" "msg_len ?m4 buf = len"
  proof -
    have s6: "?m4 (buf + of_nat j) = mem ?s3 (buf + of_nat j)" if "j < 6" for j
    proof -
      have "unat (buf + of_nat j) = unat buf + j" "unat (buf + 6) = unat buf + 6"
        using unat_add_nat [of buf j] unat_add_nat [of buf 6] a(3,4) that by simp_all
      then have "\<not> in_range (msg_msg buf) (2 * dma_words ?cnt) (buf + of_nat j)"
        using that by (simp add: in_range_def msg_msg_def)
      then have "\<not> unat (buf + of_nat j - msg_msg buf) < 2 * dma_words ?cnt"
        using in_range_iff [of "msg_msg buf" "2 * dma_words ?cnt"] \<open>unat (buf + 6) = unat buf + 6\<close> a(3,4) dw(1)
        by (simp add: msg_msg_def)
      then show ?thesis using store_bytes_at [of ?bs] dw(1) sl(1) by simp
    qed
    have "load32 ?m4 buf = load32 (mem ?s3) buf" by (rule load32_cong) (use s6 in simp)
    moreover have "load16 ?m4 (buf + 4) = load16 (mem ?s3) (buf + 4)"
      by (rule load16_cong) (use s6 [of "4 + _"] in \<open>simp add: add.assoc\<close>)
    moreover have "8 \<le> k" using a(3) by simp
    ultimately show "msg_next ?m4 buf = 0" "msg_len ?m4 buf = len"
      using msg_head_fields [OF a(4)] by (simp_all add: msg_next_def msg_len_def)
  qed
  have bytes: "?m4 (msg_msg buf + of_nat i) = card_byte content pg i" if "i < unat len" for i
  proof -
    have "unat (of_nat i :: u32) = i" using that sl(1) by (simp add: unat_of_nat)
    then have "unat (msg_msg buf + of_nat i - msg_msg buf) = i" by simp
    then have "?m4 (msg_msg buf + of_nat i) = ?bs ! i"
      using store_bytes_at [of ?bs] dw sl(1) that by simp
    then show ?thesis using card_bytes_nth [of i "dma_words ?cnt" content pg] that dw(2) by simp
  qed
  let ?s5 = "neSetBoundary (nxt - 1) (t\<lparr>mem := ?m4, io := h\<rparr>)"
  have h3: "msg_len (msg_head len buf (mem s2)) buf = len"
    by (rule msg_head_fields(2) [OF a(4)]) (use a(3) in simp)
  have "recv_packet dev recv bound t = Some (buf, ?s5)"
    unfolding recv_packet_header [OF header_fields(1) header_fields(2) m] len(1) [symmetric] nxt(1) [symmetric]
    using nxt(2,3) len(3) a(1,2,6) n nx h3 by (simp add: pg_def Let_def not_less)
  moreover have "heap_owns ?s5 (insert (buf, k) H) S"
    by (rule heap.others [OF conjunct1 [OF w]]) (simp_all add: neSetBoundary_def outb_def)
  moreover have "same_areas (H \<union> S - {(recv, 4)}) (mem s) (mem ?s5)"
    using same_areas_trans [OF conjunct2 [OF wf] same_areas_mono [OF s4]]
    by (simp add: neSetBoundary_def outb_def)
  ultimately show ?thesis
    using a(2,5) hd bytes
    by (intro exI [of _ buf] exI [of _ k] exI [of _ ?s5] exI [of _ h]) (simp add: neSetBoundary_def outb_def)
qed


section \<open>Properties\<close>

text \<open>
  C13: receiving a packet. When the ring's next page is not the one the card writes to and holds a
  header with a next page inside the ring and a length of 5 to 1540 bytes, \<open>neRecv\<close> returns a
  message from the heap with that length less the four checksum bytes, no successor, and the
  packet's bytes in order, then moves the boundary to the page before the next packet. The
  copy stays inside the new block: every other area of the heap and of the driver keeps its
  contents, the header variable excepted.
\<close>

theorem neRecv_delivers:
  assumes "heap_owns s H S" and "(recv, 4) \<in> S" and "delivers dev content" and "\<forall>h. completes dev h"
    and "ring_page (poll_boundary dev s) \<noteq> poll_current dev s"
    and "nxt = ucast (drop_bit 8 (content (packet_page dev s) 0))" and "RECV_PAGE \<le> nxt" and "nxt \<le> RECV_PAGE_END"
    and "len = content (packet_page dev s) 1 - 4" and "0 < len" and "len \<le> 0x600"
    and "heap_fits s (sizeof_msgT + ucast len)"
  shows "\<exists>buf k s' h. neRecv dev recv s = Some (buf, s') \<and> buf \<noteq> 0
    \<and> heap_owns s' (insert (buf, k) H) S \<and> (buf, k) \<notin> H \<union> S
    \<and> same_areas (H \<union> S - {(recv, 4)}) (mem s) (mem s')
    \<and> msg_next (mem s') buf = 0 \<and> msg_len (mem s') buf = len
    \<and> (\<forall>i < unat len. mem s' (msg_msg buf + of_nat i)
          = card_byte content (packet_page dev s OR 4) i)
    \<and> io s' = h @ [OutB BOUNDARY (nxt - 1)]"
proof -
  have c: "completes dev h" for h using assms(4) by blast
  from neRecv_header [OF assms(5,3) c, of recv] obtain t where
    t: "neRecv dev recv s = recv_packet dev recv (ring_page (poll_boundary dev s)) t" "mmList t = mmList s"
      "header_mem content (packet_page dev s) recv (mem s)
       = store16 (mem t) (recv + 2) (load16 (mem t) (recv + 2) - 4)"
    by blast
  have "ucast sizeof_recvHeadT = (4 :: u16)" by (simp add: sizeof_recvHeadT_def)
  then show ?thesis
    using recv_packet_good [OF assms(1-3) c t(3,2) assms(6-12), where bound = "ring_page (poll_boundary dev s)"] t(1)
    by simp
qed

text \<open>
  C31: a header that names a next page outside the ring or more than 1540 bytes makes \<open>neRecv\<close>
  drop everything: it returns null, resets the ring's two pointers, takes nothing from the
  heap, and has written only the header variable.
\<close>

theorem neRecv_rejects:
  assumes "delivers dev content" and "\<forall>h. completes dev h" and "unat recv + 4 \<le> 2 ^ 32"
    and "ring_page (poll_boundary dev s) \<noteq> poll_current dev s"
    and "nxt = ucast (drop_bit 8 (content (packet_page dev s) 0))"
    and "nxt < RECV_PAGE \<or> RECV_PAGE_END < nxt \<or> 0x600 < content (packet_page dev s) 1 - 4"
  shows "\<exists>s' h. neRecv dev recv s = Some (0, s') \<and> mmList s' = mmList s
    \<and> (\<forall>a. \<not> in_range recv 4 a \<longrightarrow> mem s' a = mem s a)
    \<and> io s' = h @ [OutB COMMAND 0x61, OutB CURRENT RECV_PAGE, OutB COMMAND 0x22, OutB BOUNDARY RECV_PAGE_END]"
proof -
  have c: "completes dev h" for h using assms(2) by blast
  from neRecv_header [OF assms(4,1) c, of recv] obtain t where
    t: "neRecv dev recv s = recv_packet dev recv (ring_page (poll_boundary dev s)) t" "mmList t = mmList s"
      "header_mem content (packet_page dev s) recv (mem s)
       = store16 (mem t) (recv + 2) (load16 (mem t) (recv + 2) - 4)"
    by blast
  show ?thesis
    unfolding t(1) recv_packet_header [OF header_fields(1) header_fields(2) t(3)] assms(5) [symmetric]
    using assms(6) t(2) header_only_area [OF assms(3), of "mem s" content "packet_page dev s"]
    by (auto simp: neSetBoundary_def neSetCurrnet_def neCmd_def outb_def Let_def nic_bits only_area_def)
qed


section \<open>Witnesses\<close>

text \<open>A card with one packet in page \<open>0x41\<close>: next page \<open>n\<close>, length \<open>l\<close>, bytes counting up.\<close>

definition sample_ring :: "u16 \<Rightarrow> u16 \<Rightarrow> u16 \<Rightarrow> nat \<Rightarrow> u16" where
  "sample_ring n l a k = (if a = 0x4100 then (if k = 0 then push_bit 8 n OR 1 else l) else of_nat k)"

lemma sample_poll:
  "poll_boundary (sample_card content) s = 0x40" "poll_current (sample_card content) s = 0x40"
  "push_bit 8 (ucast (ring_page 0x40)) = (0x4100 :: u16)"
  by (simp_all add: poll_boundary_def poll_current_def sample_card_def nic_ports ring_page_def
      RECV_PAGE_END_def RECV_PAGE_def push_bit_eq_mult)

lemma sample_ring_page: "ring_page 0x40 \<noteq> 0x40"
  by (simp add: ring_page_def RECV_PAGE_END_def RECV_PAGE_def)

lemma queue_machine_areas: "heap_owns queue_machine {(0x400010, 100)} {(0x6000, 4)}"
proof -
  have "heap_owns block_machine {(0x400010, 100)} {(0x6000, 4)}"
    unfolding heap_owns_def
    by (intro exI [of _ "[0x400074]"] exI [of _ "{0x400000}"])
      (simp add: block_machine_ok payload_def block_machine_fields sizeof_mlT_def areas_ok_def clear_of_def
        apart_def ext_def)
  then show ?thesis by (rule heap.others) (simp_all add: block_machine_fields)
qed

theorem neRecv_delivers_witness:
  "\<exists>buf s'. neRecv (sample_card (sample_ring 0x48 10)) 0x6000 queue_machine = Some (buf, s') \<and> buf \<noteq> 0
    \<and> msg_len (mem s') buf = 6 \<and> mem s' (msg_msg buf + 4) = 2 \<and> mem s' 0x400010 = 0"
proof -
  let ?dev = "sample_card (sample_ring 0x48 10)"
  have c: "\<forall>h. completes ?dev h" using sample_card_completes by blast
  have st: "(0x6000, 4) \<in> {(0x6000 :: u32, 4 :: nat)}" by simp
  have rp: "ring_page (poll_boundary ?dev queue_machine) \<noteq> poll_current ?dev queue_machine"
    by (simp add: sample_poll sample_ring_page)
  have hd: "sample_ring 0x48 10 0x4100 0 = 0x4801" "sample_ring 0x48 10 0x4100 1 = 10"
    by (simp_all add: sample_ring_def push_bit_eq_mult)
  have f: "heap_fits queue_machine (sizeof_msgT + ucast (6 :: u16))"
    by (rule queue_machine_fits) (simp_all add: sizeof_msgT_def)
  from neRecv_delivers [OF queue_machine_areas st sample_card_delivers c rp refl, where len = 6] f hd
  obtain buf k s' where r: "neRecv ?dev 0x6000 queue_machine = Some (buf, s')" "buf \<noteq> 0"
    "same_areas {(0x400010, 100)} (mem queue_machine) (mem s')" "msg_len (mem s') buf = 6"
    "\<forall>i < 6. mem s' (msg_msg buf + of_nat i) = card_byte (sample_ring 0x48 10) (0x4100 OR 4) i"
    unfolding sample_poll by (auto simp: drop_bit_eq_div RECV_PAGE_def RECV_PAGE_END_def)
  have "in_range 0x400010 100 0x400010" by (simp add: in_range_def)
  then have "mem s' 0x400010 = mem queue_machine 0x400010" using same_areasD [OF r(3)] by simp
  moreover have "mem queue_machine 0x400010 = 0"
    by (simp add: queue_machine_def block_machine_def store32_def free_machine_def boot_machine_def)
  moreover have "mem s' (msg_msg buf + 4) = 2"
    using r(5) [rule_format, of 4] by (simp add: card_byte_def sample_ring_def Let_def)
  ultimately show ?thesis using r(1,2,4) by auto
qed

theorem neRecv_rejects_witness:
  "\<exists>s'. neRecv (sample_card (sample_ring 0x20 100)) 0x6000 queue_machine = Some (0, s')
    \<and> mem s' 0x400010 = mem queue_machine 0x400010 \<and> last (io s') = OutB BOUNDARY RECV_PAGE_END"
proof -
  let ?dev = "sample_card (sample_ring 0x20 100)"
  have c: "\<forall>h. completes ?dev h" using sample_card_completes by blast
  have rp: "ring_page (poll_boundary ?dev queue_machine) \<noteq> poll_current ?dev queue_machine"
    by (simp add: sample_poll sample_ring_page)
  have hd: "sample_ring 0x20 100 0x4100 0 = 0x2001"
    by (simp add: sample_ring_def push_bit_eq_mult)
  have lo: "ucast (drop_bit 8 (0x2001 :: u16)) < RECV_PAGE"
    by (simp add: drop_bit_eq_div RECV_PAGE_def)
  from neRecv_rejects [OF sample_card_delivers c _ rp refl, of "0x6000"] lo
  obtain s' h where "neRecv ?dev 0x6000 queue_machine = Some (0, s')"
    "\<forall>a. \<not> in_range 0x6000 4 a \<longrightarrow> mem s' a = mem queue_machine a"
    "io s' = h @ [OutB COMMAND 0x61, OutB CURRENT RECV_PAGE, OutB COMMAND 0x22, OutB BOUNDARY RECV_PAGE_END]"
    unfolding sample_poll hd by auto
  then show ?thesis by (auto simp: in_range_def)
qed


end
