(* ===== verification/HeapRun.thy ===== *)
theory HeapRun
  imports Clean
begin

text \<open>
  Runs of the heap of \<open>kernel/malloc.c\<close>: blocks are taken, written to and given back in any order,
  while other parts of the kernel take pages. The state invariant of the heap holds in every
  state of a run, so that blocks in use never overlap.
\<close>

unbundle bit_operations_syntax

section \<open>The invariant\<close>

text \<open>
  The heap is well formed and in its pages, every block is followed in its page by a block, and no
  block in use is empty.
\<close>

definition heap_state :: "machine \<Rightarrow> u32 list \<Rightarrow> u32 set \<Rightarrow> bool" where
  "heap_state s ns B \<longleftrightarrow> heap_at s ns B \<and> closed (mem s) (set ns \<union> B) (set ns \<union> B)
     \<and> (\<forall>b \<in> B. load32 (mem s) b \<noteq> 0)"

lemma heap_stateD:
  assumes "heap_state s ns B"
  shows "heap_at s ns B" "heap_ok s ns B" "closed (mem s) (set ns \<union> B) (set ns \<union> B)"
    "closed (mem s) (set ns) (set ns \<union> B)" "in_pages s (set ns \<union> B)"
    "0x300000 \<le> unat (mmList s)" "unat (mmList s) + 16 \<le> 0x400000"
    "b \<in> B \<Longrightarrow> load32 (mem s) b \<noteq> 0"
  using assms closed_mono [of "mem s" "set ns \<union> B" "set ns \<union> B" "set ns" "set ns \<union> B"]
  by (auto simp: heap_state_def heap_at_def)

lemma block_high:
  assumes "heap_state s ns B" and "x \<in> set (mmList s # ns) \<union> B"
  shows "0x300000 \<le> unat x" and "unat x + 16 \<le> 2 ^ 32" and "x \<noteq> mmList s \<Longrightarrow> 0x400000 \<le> unat x"
proof -
  note H = heap_stateD [OF assms(1)]
  show "unat x + 16 \<le> 2 ^ 32"
    using blocks_okD(2) [OF heap_okD(5) [OF H(2)] assms(2)] by (simp add: ext_def)
  show high: "0x400000 \<le> unat x" if "x \<noteq> mmList s"
    using in_pagesD [OF H(5), of x] assms(2) that by (auto simp: kpage_def)
  show "0x300000 \<le> unat x" using high H(6) by (cases "x = mmList s") auto
qed

text \<open>Memory above 3 MB may change without the page counts changing.\<close>

definition high_only :: "mem \<Rightarrow> mem \<Rightarrow> bool" where
  "high_only m m' \<longleftrightarrow> (\<forall>a. unat a < 0x300000 \<longrightarrow> m' a = m a)"

lemma high_only_trans: "high_only m m' \<Longrightarrow> high_only m' m'' \<Longrightarrow> high_only m m''"
  by (simp add: high_only_def)

lemma high_only_taken:
  assumes "high_only (mem s) (mem s')"
  shows "taken s' q = taken s q"
proof -
  have "unat (MMAP_ADDR + drop_bit 12 q) < 0x300000"
    using u32_bound [of q] by (simp add: unat_mmap div_less_iff_less_mult)
  then show ?thesis using assms by (simp add: high_only_def taken_def)
qed

lemma high_headers:
  assumes "only_headers ks m m'" and "\<And>x. x \<in> set ks \<Longrightarrow> 0x300000 \<le> unat x \<and> unat x + 16 \<le> 2 ^ 32"
  shows "high_only m m'"
  unfolding high_only_def
proof (intro allI impI)
  fix a :: u32
  assume a: "unat a < 0x300000"
  have "apart x 16 a 1" if "x \<in> set ks" for x using assms(2) [OF that] a by (auto simp: apart_def)
  then show "m' a = m a" using assms(1) by (simp add: only_headers_def)
qed

lemma in_pages_same:
  assumes "in_pages s X" and "\<And>q. taken s q \<Longrightarrow> taken s' q"
    and "\<And>x. x \<in> X \<Longrightarrow> load32 (mem s') x = load32 (mem s) x"
  shows "in_pages s' X"
  using assms unfolding in_pages_def ext_def by metis

text \<open>Every block in use keeps its size over a change that leaves its bytes alone.\<close>

lemma heap_state_same:
  assumes h: "heap_state s ns B" and L: "mmList s' = mmList s" and t: "\<And>q. taken s q \<Longrightarrow> taken s' q"
    and f: "\<And>x i. x \<in> set (mmList s # ns) \<union> B \<Longrightarrow> i \<in> {0, 4, 8, 12}
      \<Longrightarrow> load32 (mem s') (x + of_nat i) = load32 (mem s) (x + of_nat i)"
  shows "heap_state s' ns B"
proof -
  note H = heap_stateD [OF h]
  have l: "load32 (mem s') x = load32 (mem s) x" if "x \<in> set ns \<union> B" for x using f [of x 0] that by auto
  have "heap_ok s' ns B" by (rule heap_ok_fields [OF H(2) L f])
  moreover have "in_pages s' (set ns \<union> B)" by (rule in_pages_same [OF H(5) t l])
  moreover have "closed (mem s') (set ns \<union> B) (set ns \<union> B)" by (rule closed_cong [OF H(3) l])
  ultimately show ?thesis using H(6,7,8) l L by (simp add: heap_state_def heap_at_def)
qed

section \<open>Each operation keeps the invariant\<close>

text \<open>A page taken by another part of the kernel.\<close>

lemma page_state:
  assumes h: "heap_state s ns B" and g: "get_free_page s = Some (q, s')"
  shows "heap_state s' ns B"
proof (rule heap_state_same [OF h kernel_pages.globals_kept(6) [OF g]])
  show "taken s' x" if "taken s x" for x
    using that kernel_pages.get_state [OF g] by (simp add: taken_def)
  fix x and i :: nat
  assume x: "x \<in> set (mmList s # ns) \<union> B" "i \<in> {0, 4, 8, 12}"
  have "i \<le> 12" using x(2) by auto
  from get_page_fields [OF g this block_high(1,2) [OF h x(1)]]
  show "load32 (mem s') (x + of_nat i) = load32 (mem s) (x + of_nat i)" .
qed

text \<open>The heap grows by a page.\<close>

lemma grow_state:
  assumes h: "heap_state s ns B" and g: "get_free_page s = Some (p, s1)"
  shows "\<exists>m ns'. ml_add (new_block (mem s1) p) (mmList s1) p = Some (mmList s, m)
    \<and> heap_state (s1\<lparr>mem := m, mmList := mmList s\<rparr>) ns' B \<and> p \<in> set ns'
    \<and> load32 m p = 0x1000 - sizeof_mlT \<and> busy_same s (s1\<lparr>mem := m, mmList := mmList s\<rparr>) B"
proof -
  note H = heap_stateD [OF h]
  from heap_grow [OF H(1) g] obtain m ns' where m: "ml_add (new_block (mem s1) p) (mmList s1) p = Some (mmList s, m)"
    "heap_at (s1\<lparr>mem := m, mmList := mmList s\<rparr>) ns' B" "set ns' = insert p (set ns)"
    "load32 m p = 0x1000 - sizeof_mlT" "only_headers (p # mmList s # ns) (mem s1) m"
    "apart_blocks (mem s) p 4096 (set (mmList s # ns) \<union> B)"
    "\<forall>x \<in> set (mmList s # ns) \<union> B. load32 m x = load32 (mem s) x" by blast
  have l: "load32 m x = load32 (mem s) x" if "x \<in> set ns \<union> B" for x using m(7) that by auto
  have kp: "page p" "0x400000 \<le> unat p" using kernel_kpage(1) [OF g] by (auto simp: kpage_def)
  have np: "\<not> same_page (neighbour m p) p"
  proof -
    have e: "neighbour m p = p + 0x1000" by (simp add: neighbour_def m(4))
    have "unat (p + 0x1000) = (unat p + 4096) mod 2 ^ 32" by (simp add: unat_word_ariths)
    then show ?thesis
      using page_end [OF kp(1)] kp u32_bound [of p]
      by (cases "unat p + 4096 = 2 ^ 32") (auto simp: e same_page_div page_def)
  qed
  have "closed m (set ns' \<union> B) (set ns' \<union> B)"
    unfolding closed_def
  proof (intro ballI impI)
    fix x
    assume x: "x \<in> set ns' \<union> B" "same_page (neighbour m x) x"
    then have xo: "x \<in> set ns \<union> B" using np m(3) by auto
    then have "neighbour m x = neighbour (mem s) x" using l by (simp add: neighbour_def)
    then show "neighbour m x \<in> set ns' \<union> B" using H(3) xo x(2) m(3) by (auto simp: closed_def)
  qed
  then have "heap_state (s1\<lparr>mem := m, mmList := mmList s\<rparr>) ns' B"
    using m(2) l H(8) by (simp add: heap_state_def)
  then show ?thesis using m(1,3,4) page_busy_same [OF H(1) g m(5,6)] by blast
qed

text \<open>The free blocks are joined.\<close>

lemma clean_state:
  assumes h: "heap_state s ns B" and t: "tidied s ns B m' ns'"
  shows "heap_state (s\<lparr>mem := m'\<rparr>) ns' B"
proof -
  note H = heap_stateD [OF h] and A = heap_at_tidied [OF heap_stateD(1) [OF h] t]
  have T: "closed m' (set ns') (set ns' \<union> B)" "set ns' \<subseteq> set ns" "within m' (set ns') (mem s) (set ns)"
    using t unfolding tidied_def by - (elim conjE, assumption)+
  have l: "load32 m' b = load32 (mem s) b" if "b \<in> B" for b using busy_same_size [OF A(3) that] by simp
  note X = heap_okD(5) [OF H(2)] and X' = heap_okD(5) [OF heap_at_ok [OF A(1)]]
  have "neighbour m' b \<in> set ns' \<union> B" if b: "b \<in> B" and p: "same_page (neighbour m' b) b" for b
  proof -
    define n where "n = neighbour (mem s) b"
    have nb: "neighbour m' b = n" using l [OF b] by (simp add: n_def neighbour_def)
    have "n \<in> set ns \<union> B" using H(3) b p nb by (auto simp: closed_def n_def)
    moreover have "n \<in> set ns'" if n: "n \<in> set ns"
    proof -
      from T(3) n obtain y where y: "y \<in> set ns'" "unat y \<le> unat n" "unat n + ext (mem s) n \<le> unat y + ext m' y"
        unfolding within_def by blast
      have un: "unat n = unat b + ext (mem s) b"
        unfolding n_def by (rule neighbour_next [OF X]) (use b n in \<open>auto simp: n_def\<close>)
      have "b \<noteq> y" using heap_okD(4) [OF heap_at_ok [OF A(1)]] b y(1) by auto
      then have "apart b (ext m' b) y (ext m' y)"
        using blocks_okD(3) [OF X', of b y] b y(1) by simp
      then have "unat b + ext (mem s) b \<le> unat y"
        using y(3) un ext_ge [of "mem s" n] l [OF b] by (auto simp: apart_def ext_def)
      then have "unat y = unat n" using y(2) un by simp
      then have "y = n" by (simp add: word_unat_eq_iff)
      then show ?thesis using y(1) by simp
    qed
    ultimately show ?thesis using nb by auto
  qed
  then have "closed m' (set ns' \<union> B) (set ns' \<union> B)" using T(1) by (auto simp: closed_def)
  then show ?thesis using A(1) H(8) l by (simp add: heap_state_def)
qed

text \<open>Cutting blocks keeps every block followed by a block.\<close>

lemma closed_tiles:
  assumes c: "closed m X X" and t: "tiles m X m' X'" and "\<And>x. x \<in> X \<Longrightarrow> crossless m x"
  shows "closed m' X' X'"
  unfolding closed_def
proof (intro ballI impI)
  fix x
  assume x: "x \<in> X'" "same_page (neighbour m' x) x"
  show "neighbour m' x \<in> X'"
  proof (cases "neighbour m' x \<in> X'")
    case False
    with t x(1) obtain y where y: "y \<in> X" "unat y \<le> unat x" "unat x < unat y + ext m y"
      "neighbour m' x = neighbour m y" unfolding tiles_def by blast
    have "(unat y + ext m y - 1) div 4096 = unat y div 4096" using assms(3) [OF y(1)] by (simp add: crossless_def)
    moreover have "unat x div 4096 \<le> (unat y + ext m y - 1) div 4096" by (rule div_le_mono) (use y(3) in simp)
    moreover have "unat y div 4096 \<le> unat x div 4096" by (rule div_le_mono [OF y(2)])
    ultimately have "unat x div 4096 = unat y div 4096" by simp
    then have "same_page (neighbour m y) y" using x(2) y(4) by (simp add: same_page_div)
    then have "neighbour m y \<in> X" using c y(1) by (simp add: closed_def)
    then show ?thesis using y(4) t by (auto simp: tiles_def)
  qed
qed

text \<open>A block is taken.\<close>

lemma take_state:
  assumes h: "heap_state s ns B" and n: "n \<in> set ns" and z: "z \<le> load32 (mem s) n" "z \<noteq> 0"
  shows "\<exists>s' ns'. take_block z n s = Some (n + sizeof_mlT, s') \<and> heap_state s' ns' (insert n B)
    \<and> z \<le> load32 (mem s') n \<and> busy_same s s' B"
proof -
  note H = heap_stateD [OF h]
  from take_block_spec [OF H(2) n z(1)] obtain s' ns' where
    t: "take_block z n s = Some (n + sizeof_mlT, s')" "s' = s\<lparr>mem := mem s'\<rparr>" "heap_ok s' ns' (insert n B)"
      "z \<le> load32 (mem s') n"
      "\<forall>a. (\<forall>x \<in> set (mmList s # ns). apart x 16 a 1) \<and> apart n (ext (mem s) n) a 1 \<longrightarrow> mem s' a = mem s a"
      "within (mem s) (set (mmList s # ns) \<union> B) (mem s') (set (mmList s # ns') \<union> insert n B)"
      "tiles (mem s) (set ns \<union> B) (mem s') (set ns' \<union> insert n B)" by blast
  have L: "mmList s' = mmList s" by (rule mem_only(2) [OF t(2)])
  have bs: "busy_same s s' B" using busy_outside [OF H(2), of _ _ n] n t(5) by (simp add: busy_same_def)
  have "high_only (mem s) (mem s')"
    unfolding high_only_def
  proof (intro allI impI)
    fix a :: u32
    assume a: "unat a < 0x300000"
    have "apart x 16 a 1" if "x \<in> set (mmList s # ns)" for x
      using block_high(1,2) [OF h, of x] that a by (auto simp: apart_def)
    moreover have "apart n (ext (mem s) n) a 1"
      using block_high(1) [OF h, of n] blocks_okD(2) [OF heap_okD(5) [OF H(2)], of n] n a by (auto simp: apart_def)
    ultimately show "mem s' a = mem s a" using t(5) by blast
  qed
  note tk = high_only_taken [OF this]
  have "in_pages s' (set ns' \<union> insert n B)"
    unfolding in_pages_def
  proof
    fix x
    assume x: "x \<in> set ns' \<union> insert n B"
    then obtain y where y: "y \<in> set (mmList s # ns) \<union> B" "unat y \<le> unat x"
      "unat x + ext (mem s') x \<le> unat y + ext (mem s) y"
      using t(6) unfolding within_def by auto
    have "y \<noteq> mmList s"
    proof
      assume e: "y = mmList s"
      then have "unat x = unat (mmList s)"
        using y(2,3) heap_okD(2) [OF H(2)] ext_ge [of "mem s'" x] by (simp add: ext_def)
      then have "x = mmList s" by (simp add: word_unat_eq_iff)
      then show False using x heap_okD(3,4) [OF t(3)] L by auto
    qed
    then have "y \<in> set ns \<union> B" using y(1) by auto
    from in_pagesD [OF H(5) this] obtain q where
      "kpage q" "taken s q" "unat q \<le> unat y" "unat y + ext (mem s) y \<le> unat q + 4096" by blast
    then show "\<exists>q. kpage q \<and> taken s' q \<and> unat q \<le> unat x \<and> unat x + ext (mem s') x \<le> unat q + 4096"
      using y(2,3) tk [of q] by (intro exI [of _ q]) simp
  qed
  moreover have "closed (mem s') (set ns' \<union> insert n B) (set ns' \<union> insert n B)"
    by (rule closed_tiles [OF H(3) t(7)]) (rule heap_at_crossless [OF H(1)])
  moreover have "load32 (mem s') b \<noteq> 0" if "b \<in> insert n B" for b
    using that t(4) z(2) busy_same_size [OF bs] H(8) by (cases "b = n") auto
  ultimately show ?thesis using t(1,3,4) bs L H(6,7) by (auto simp: heap_state_def heap_at_def)
qed

text \<open>Room is found in the list or in a new page.\<close>

lemma fits_state:
  assumes h: "heap_state s ns B" and z: "z \<noteq> 0" "unat z \<le> 4080" and g: "grow z s = Some (r, s')"
  shows "\<exists>n ns'. r = Some n \<and> heap_state s' ns' B \<and> n \<in> set ns' \<and> z \<le> load32 (mem s') n \<and> busy_same s s' B"
proof (cases "\<exists>k \<in> set ns. z \<le> load32 (mem s) k")
  case True
  from grow_found [OF heap_stateD(2) [OF h] z(1) this] g h show ?thesis by auto
next
  case False
  then have nf: "ml_find (mem s) (mmList s) z = Some 0"
    by (intro heap_find_none [OF heap_stateD(2) [OF h] z(1)]) auto
  with g obtain p s1 where p: "get_free_page s = Some (p, s1)"
    by (subst (asm) grow.simps) (auto simp: bind_eq_Some_conv)
  then have "p \<noteq> 0" using kernel_kpage(1) [OF p] by (auto simp: kpage_def)
  from grow_state [OF h p] obtain m ns' where
    m: "ml_add (new_block (mem s1) p) (mmList s1) p = Some (mmList s, m)"
      "heap_state (s1\<lparr>mem := m, mmList := mmList s\<rparr>) ns' B" "p \<in> set ns'"
      "load32 m p = 0x1000 - sizeof_mlT" "busy_same s (s1\<lparr>mem := m, mmList := mmList s\<rparr>) B" by blast
  have gr: "grow z s = grow z (s1\<lparr>mem := m, mmList := mmList s\<rparr>)"
    using nf m(1) p \<open>p \<noteq> 0\<close> by (subst grow.simps) simp
  have "\<exists>k \<in> set ns'. z \<le> load32 (mem (s1\<lparr>mem := m, mmList := mmList s\<rparr>)) k"
    using m(3,4) z(2) by (intro bexI [of _ p]) (simp_all add: sizeof_mlT_def word_le_nat_alt)
  from grow_found [OF heap_stateD(2) [OF m(2)] z(1) this] g m(2,5) show ?thesis unfolding gr by auto
qed

lemma malloc_state:
  assumes h: "heap_state s ns B" and z: "round4 sz \<noteq> 0" "unat (round4 sz) \<le> 4080"
    and a: "malloc sz s = Some (p, s')"
  shows "\<exists>n ns'. p = n + sizeof_mlT \<and> n \<notin> B \<and> heap_state s' ns' (insert n B)
    \<and> round4 sz \<le> load32 (mem s') n \<and> busy_same s s' B"
proof -
  have room: "\<exists>n s1 ns1. malloc sz s = take_block (round4 sz) n s1 \<and> heap_state s1 ns1 B \<and> n \<in> set ns1
    \<and> round4 sz \<le> load32 (mem s1) n \<and> busy_same s s1 B"
  proof (cases "\<exists>k \<in> set ns. round4 sz \<le> load32 (mem s) k")
    case True
    from heap_find_some [OF heap_stateD(2) [OF h] z(1) this] obtain n where
      "ml_find (mem s) (mmList s) (round4 sz) = Some n" "n \<noteq> 0" "n \<in> set ns" "round4 sz \<le> load32 (mem s) n"
      by blast
    then show ?thesis using h by (intro exI [of _ n] exI [of _ s]) (auto simp: malloc_def Let_def)
  next
    case False
    then have nf: "ml_find (mem s) (mmList s) (round4 sz) = Some 0"
      by (intro heap_find_none [OF heap_stateD(2) [OF h] z(1)]) auto
    from clean_tidies [OF heap_stateD(2,4) [OF h]] obtain m ns1 where
      c: "clean (mem s) (mmList s) = Some (mmList s, m)" "tidied s ns B m ns1" by blast
    have e: "s\<lparr>mem := m, mmList := mmList s\<rparr> = s\<lparr>mem := m\<rparr>" by simp
    from a nf c(1) obtain r s2 where g: "grow (round4 sz) (s\<lparr>mem := m\<rparr>) = Some (r, s2)"
      unfolding malloc_def Let_def by (auto simp: bind_eq_Some_conv)
    from fits_state [OF clean_state [OF h c(2)] z g] obtain n ns2 where
      n: "r = Some n" "heap_state s2 ns2 B" "n \<in> set ns2" "round4 sz \<le> load32 (mem s2) n"
        "busy_same (s\<lparr>mem := m\<rparr>) s2 B" by blast
    have "malloc sz s = take_block (round4 sz) n s2" using nf c(1) g n(1) by (simp add: malloc_def Let_def)
    then show ?thesis
      using n(2-4) busy_same_trans [OF heap_at_tidied(3) [OF heap_stateD(1) [OF h] c(2)] n(5)] by blast
  qed
  then obtain n s1 ns1 where r: "malloc sz s = take_block (round4 sz) n s1" "heap_state s1 ns1 B" "n \<in> set ns1"
    "round4 sz \<le> load32 (mem s1) n" "busy_same s s1 B" by blast
  have "n \<notin> B" using r(3) heap_okD(4) [OF heap_stateD(2) [OF r(2)]] by auto
  with take_state [OF r(2-4) z(1)] a r(1) busy_same_trans [OF r(5)] show ?thesis by auto
qed

text \<open>A block is given back.\<close>

lemma others_same:
  assumes h: "heap_state s ns B" and b: "b \<in> B" and o: "only_headers (b # mmList s # ns) (mem s) (mem s')"
  shows "busy_same s s' (B - {b})"
  unfolding busy_same_def
proof (intro ballI allI impI)
  fix c k
  assume c: "c \<in> B - {b}" "k < ext (mem s) c"
  note H = heap_stateD(2) [OF h]
  have "apart b (ext (mem s) b) c (ext (mem s) c)"
    using blocks_okD(3) [OF heap_okD(5) [OF H], of b c] b c(1) by auto
  then have "apart b 16 (c + of_nat k) 1"
    by (rule apart_mono [OF apart_byte [OF _ c(2)]]) (simp_all add: ext_ge)
  then show "mem s' (c + of_nat k) = mem s (c + of_nat k)"
    using o busy_outside [OF H _ c(2)] c(1) by (auto simp: only_headers_def)
qed

lemma headers_high:
  assumes h: "heap_state s ns B" and b: "b \<in> B" and o: "only_headers (b # mmList s # ns) (mem s) (mem s')"
  shows "taken s' q = taken s q"
proof (rule high_only_taken, rule high_headers [OF o])
  fix x
  assume "x \<in> set (b # mmList s # ns)"
  then show "0x300000 \<le> unat x \<and> unat x + 16 \<le> 2 ^ 32" using block_high(1,2) [OF h, of x] b by auto
qed

text \<open>Alone, or with the free block behind it.\<close>

lemma give_alone:
  assumes h: "heap_state s ns B" and b: "b \<in> B"
    and u: "\<not> (same_page (neighbour (mem s) b) b \<and> neighbour (mem s) b \<in> set ns)"
  shows "\<exists>s' ns'. free (b + sizeof_mlT) s = Some s' \<and> heap_state s' ns' (B - {b}) \<and> busy_same s s' (B - {b})"
proof -
  note H = heap_stateD [OF h]
  have "\<not> (same_page (neighbour (mem s) b) b \<and> get32 s (nd_state (neighbour (mem s) b)) = FREE)"
  proof
    assume f: "same_page (neighbour (mem s) b) b \<and> get32 s (nd_state (neighbour (mem s) b)) = FREE"
    then have "neighbour (mem s) b \<in> set ns \<union> B" using H(3) b by (auto simp: closed_def)
    with f u heap_okD(9) [OF H(2), of "neighbour (mem s) b"] show False by (auto simp: FREE_def BUSY_def)
  qed
  from free_unmerged [OF H(2) b H(8) [OF b] this] obtain s' ns' where r: "free (b + sizeof_mlT) s = Some s'"
    "heap_ok s' ns' (B - {b})" "set ns' = insert b (set ns)" "get32 s' b = get32 s b"
    "\<forall>x \<in> set (mmList s # ns). get32 s' x = get32 s x" "s' = s\<lparr>mem := mem s'\<rparr>"
    "only_headers (b # mmList s # ns) (mem s) (mem s')" by blast
  note bs = others_same [OF h b r(7)] and tk = headers_high [OF h b r(7)]
  have X: "set ns' \<union> (B - {b}) = set ns \<union> B" using r(3) b by auto
  have l: "load32 (mem s') x = load32 (mem s) x" if "x \<in> set ns \<union> B" for x
    using that r(4,5) busy_same_size [OF bs, of x] by (cases "x = b") auto
  have "in_pages s' (set ns \<union> B)" by (rule in_pages_same [OF H(5) _ l]) (use tk in simp)
  moreover have "closed (mem s') (set ns \<union> B) (set ns \<union> B)" by (rule closed_cong [OF H(3) l])
  ultimately have "heap_state s' ns' (B - {b})"
    unfolding heap_state_def heap_at_def X using r(2) mem_only(2) [OF r(6)] H(6,7,8) l by simp
  with r(1) bs show ?thesis by blast
qed

lemma give_joined:
  assumes h: "heap_state s ns B" and b: "b \<in> B"
    and u: "same_page (neighbour (mem s) b) b" and q: "neighbour (mem s) b \<in> set ns"
  shows "\<exists>s' ns'. free (b + sizeof_mlT) s = Some s' \<and> heap_state s' ns' (B - {b}) \<and> busy_same s s' (B - {b})"
proof -
  define nx where "nx = neighbour (mem s) b"
  note H = heap_stateD [OF h] and X = heap_okD(5) [OF heap_stateD(2) [OF h]]
  from free_merged [OF H(2) b H(8) [OF b] u q] obtain s' ns' where r: "free (b + sizeof_mlT) s = Some s'"
    "heap_ok s' ns' (B - {b})" "set ns' = insert b (set ns - {nx})"
    "unat (get32 s' b) = unat (get32 s b) + 16 + unat (get32 s nx)"
    "\<forall>x \<in> set (mmList s # ns) - {nx}. get32 s' x = get32 s x" "s' = s\<lparr>mem := mem s'\<rparr>"
    "only_headers (b # mmList s # ns) (mem s) (mem s')" unfolding nx_def by blast
  note bs = others_same [OF h b r(7)] and tk = headers_high [OF h b r(7)]
  have nB: "nx \<notin> B" "nx \<noteq> b" using heap_okD(4) [OF H(2)] q b by (auto simp: nx_def)
  have X': "set ns' \<union> (B - {b}) = (set ns \<union> B) - {nx}" using r(3) b nB by auto
  have l: "load32 (mem s') x = load32 (mem s) x" if "x \<in> (set ns \<union> B) - {nx}" "x \<noteq> b" for x
    using that r(5) busy_same_size [OF bs, of x] by auto
  have un: "unat nx = unat b + ext (mem s) b"
    unfolding nx_def by (rule neighbour_next [OF X]) (use b q in auto)
  have "get32 s' b = load32 (mem s) b + (load32 (mem s) nx + sizeof_mlT)"
    using r(4) joined_size(1) [OF X, of b nx] b q by (simp add: word_unat_eq_iff nx_def)
  then have nbb: "neighbour (mem s') b = neighbour (mem s) nx"
    by (simp add: neighbour_def nx_def add_ac)
  have e: "ext (mem s') b = ext (mem s) b + ext (mem s) nx" using r(4) by (simp add: ext_def)
  have "neighbour (mem s') x \<in> (set ns \<union> B) - {nx}"
    if x: "x \<in> (set ns \<union> B) - {nx}" "same_page (neighbour (mem s') x) x" for x
  proof (cases "x = b")
    case True
    then have "same_page (neighbour (mem s) nx) nx" using x(2) nbb u by (simp add: same_page_div nx_def)
    then have n2: "neighbour (mem s) nx \<in> set ns \<union> B" using H(3) q by (auto simp: closed_def nx_def)
    then have "unat (neighbour (mem s) nx) = unat nx + ext (mem s) nx"
      by (intro neighbour_next [OF X]) (use q in \<open>auto simp: nx_def\<close>)
    then have "neighbour (mem s) nx \<noteq> nx" using ext_ge [of "mem s" nx] by auto
    with n2 show ?thesis using True nbb by simp
  next
    case False
    then have n: "neighbour (mem s') x = neighbour (mem s) x" by (intro neighbour_cong l x(1))
    then have "neighbour (mem s) x \<in> set ns \<union> B" using H(3) x by (auto simp: closed_def)
    moreover have "neighbour (mem s) x \<noteq> nx"
      using neighbour_inj [OF X, of x b] x(1) b q False by (auto simp: nx_def)
    ultimately show ?thesis using n by simp
  qed
  then have cl: "closed (mem s') ((set ns \<union> B) - {nx}) ((set ns \<union> B) - {nx})" by (simp add: closed_def)
  have "in_pages s' ((set ns \<union> B) - {nx})"
    unfolding in_pages_def
  proof
    fix x
    assume x: "x \<in> (set ns \<union> B) - {nx}"
    then obtain p where p: "kpage p" "taken s p" "unat p \<le> unat x" "unat x + ext (mem s) x \<le> unat p + 4096"
      using in_pagesD [OF H(5)] by blast
    have "crossless (mem s') x"
    proof (cases "x = b")
      case True
      show ?thesis unfolding True
        by (rule crossless_join [OF un u [folded nx_def] heap_at_crossless [OF H(1)] e]) (use q in \<open>simp add: nx_def\<close>)
    next
      case False
      then show ?thesis using crossless_cong [OF l [OF x]] heap_at_crossless [OF H(1)] x by blast
    qed
    then have "unat x + ext (mem s') x \<le> unat p + 4096"
      by (rule crossless_page) (use p ext_ge [of "mem s" x] in \<open>auto simp: kpage_def\<close>)
    with p tk show "\<exists>q. kpage q \<and> taken s' q \<and> unat q \<le> unat x \<and> unat x + ext (mem s') x \<le> unat q + 4096"
      by blast
  qed
  moreover have "load32 (mem s') c \<noteq> 0" if "c \<in> B - {b}" for c
    using busy_same_size [OF bs that] H(8) [of c] that by simp
  ultimately have "heap_state s' ns' (B - {b})"
    unfolding heap_state_def heap_at_def X' using r(2) cl mem_only(2) [OF r(6)] H(6,7) by simp
  with r(1) bs show ?thesis by blast
qed

lemma free_state:
  assumes "heap_state s ns B" and "b \<in> B"
  shows "\<exists>s' ns'. free (b + sizeof_mlT) s = Some s' \<and> heap_state s' ns' (B - {b}) \<and> busy_same s s' (B - {b})"
  using give_alone [OF assms] give_joined [OF assms] by blast

section \<open>Runs\<close>

text \<open>A byte of a block in use, past its header.\<close>

lemma payload_byte:
  assumes h: "heap_state s ns B" and b: "b \<in> B" and k: "k < unat (load32 (mem s) b)"
  shows "unat (b + sizeof_mlT + of_nat k) = unat b + 16 + k"
    and "b + sizeof_mlT + of_nat k = b + of_nat (16 + k)"
    and "x \<in> set (mmList s # ns) \<union> B \<Longrightarrow> apart x 16 (b + sizeof_mlT + of_nat k) 1"
proof -
  note X = heap_okD(5) [OF heap_stateD(2) [OF h]]
  have lt: "16 + k < ext (mem s) b" using k by (simp add: ext_def)
  then have "unat b + (16 + k) < 2 ^ 32" using blocks_okD(2) [OF X, of b] b by simp
  then have u: "unat (b + of_nat (16 + k)) = unat b + (16 + k)" by (rule unat_add_nat)
  show e: "b + sizeof_mlT + of_nat k = b + of_nat (16 + k)" by (simp add: sizeof_mlT_def)
  show "unat (b + sizeof_mlT + of_nat k) = unat b + 16 + k" using u unfolding e by simp
  assume x: "x \<in> set (mmList s # ns) \<union> B"
  show "apart x 16 (b + sizeof_mlT + of_nat k) 1"
  proof (cases "x = b")
    case True
    then show ?thesis using u block_high(2) [OF h x] \<open>unat b + (16 + k) < 2 ^ 32\<close> unfolding e by (simp add: apart_def)
  next
    case False
    then have "apart x (ext (mem s) x) b (ext (mem s) b)" using blocks_okD(3) [OF X x, of b] b by auto
    from apart_byte [OF this lt] show ?thesis
      unfolding e by (rule apart_mono) (simp_all add: ext_ge)
  qed
qed

lemma write_state:
  assumes h: "heap_state s ns B" and b: "b \<in> B" and k: "k < unat (load32 (mem s) b)"
  defines "a \<equiv> b + sizeof_mlT + of_nat k"
  shows "heap_state (s\<lparr>mem := (mem s)(a := v)\<rparr>) ns B"
    and "\<And>x. x \<in> B \<Longrightarrow> load32 ((mem s)(a := v)) x = load32 (mem s) x"
proof -
  note P = payload_byte [OF h b k, folded a_def]
  let ?m = "(mem s)(a := v)"
  have "0x300000 \<le> unat a" using P(1) block_high(1) [OF h, of b] b by simp
  then have "high_only (mem s) ?m" by (auto simp: high_only_def)
  then have tk: "taken (s\<lparr>mem := ?m\<rparr>) q = taken s q" for q by (intro high_only_taken) simp
  have f: "load32 ?m (x + of_nat i) = load32 (mem s) (x + of_nat i)"
    if x: "x \<in> set (mmList s # ns) \<union> B" and i: "i \<in> {0, 4, 8, 12}" for x and i :: nat
  proof (rule load32_cong)
    fix l :: nat
    assume "l < 4"
    then have "i + l < 16" using i by auto
    from apart_neq [OF apart_sym [OF P(3) [OF x]] _ this, of 0]
    have "a \<noteq> x + of_nat (i + l)" by simp
    then show "?m (x + of_nat i + of_nat l) = mem s (x + of_nat i + of_nat l)" by (simp add: add.assoc)
  qed
  show "heap_state (s\<lparr>mem := ?m\<rparr>) ns B"
  proof (rule heap_state_same [OF h])
    show "load32 (mem (s\<lparr>mem := ?m\<rparr>)) (x + of_nat i) = load32 (mem s) (x + of_nat i)"
      if "x \<in> set (mmList s # ns) \<union> B" "i \<in> {0, 4, 8, 12}" for x and i :: nat
      using f [OF that] by simp
  qed (use tk in simp_all)
  show "load32 ?m x = load32 (mem s) x" if "x \<in> B" for x using f [of x 0] that by simp
qed

text \<open>
  The clients of the heap. \<open>held\<close> gives, for each address handed out and not given back, the bytes
  its holder has in it. A holder writes only inside the bytes it asked for; other parts of the
  kernel take pages in between.
\<close>

definition held_bytes :: "machine \<Rightarrow> u32 \<Rightarrow> u32 \<Rightarrow> u8 list" where
  "held_bytes s p sz = map (\<lambda>k. mem s (p + of_nat k)) [0..<unat sz]"

inductive heap_run :: "machine \<Rightarrow> machine \<Rightarrow> (u32 \<rightharpoonup> u8 list) \<Rightarrow> bool" for s0 where
  start: "heap_run s0 s0 Map.empty"
| take: "heap_run s0 s held \<Longrightarrow> 0 < sz \<Longrightarrow> sz \<le> 4080 \<Longrightarrow> malloc sz s = Some (p, s')
    \<Longrightarrow> heap_run s0 s' (held(p \<mapsto> held_bytes s' p sz))"
| give: "heap_run s0 s held \<Longrightarrow> p \<in> dom held \<Longrightarrow> free p s = Some s'
    \<Longrightarrow> heap_run s0 s' (held(p := None))"
| fill: "heap_run s0 s held \<Longrightarrow> held p = Some bs \<Longrightarrow> k < length bs
    \<Longrightarrow> heap_run s0 (s\<lparr>mem := (mem s)(p + of_nat k := v)\<rparr>) (held(p \<mapsto> bs[k := v]))"
| other: "heap_run s0 s held \<Longrightarrow> get_free_page s = Some (q, s') \<Longrightarrow> heap_run s0 s' held"

text \<open>What a run keeps: every address held is behind the header of a busy block that is large enough.\<close>

definition holds_bytes :: "machine \<Rightarrow> u32 set \<Rightarrow> u32 \<Rightarrow> u8 list \<Rightarrow> bool" where
  "holds_bytes s B p bs \<longleftrightarrow> p - sizeof_mlT \<in> B \<and> length bs \<le> unat (load32 (mem s) (p - sizeof_mlT))
     \<and> (\<forall>k < length bs. mem s (p + of_nat k) = bs ! k)"

lemma holds_bytes_same:
  assumes h: "holds_bytes s B p bs" and bs: "busy_same s s' C" and c: "p - sizeof_mlT \<in> C" "C \<subseteq> D"
  shows "holds_bytes s' D p bs"
proof -
  define b where "b = p - sizeof_mlT"
  have H: "length bs \<le> unat (load32 (mem s) b)" "\<forall>k < length bs. mem s (p + of_nat k) = bs ! k"
    using h by (simp_all add: holds_bytes_def b_def)
  have "mem s' (p + of_nat k) = mem s (p + of_nat k)" if k: "k < length bs" for k
  proof -
    have e: "p + of_nat k = b + of_nat (16 + k)" by (simp add: b_def sizeof_mlT_def)
    have "16 + k < ext (mem s) b" using H(1) k by (simp add: ext_def)
    then show ?thesis using bs c(1) unfolding e b_def [symmetric] busy_same_def by blast
  qed
  then show ?thesis
    using H c busy_same_size [OF bs c(1)] by (auto simp: holds_bytes_def b_def)
qed

lemma holds_disjoint:
  assumes h: "heap_state s ns B" and p: "holds_bytes s B p bs" and q: "holds_bytes s B q cs" and "p \<noteq> q"
  shows "apart p (length bs) q (length cs)"
proof -
  note X = heap_okD(5) [OF heap_stateD(2) [OF h]]
  define b where "b = p - sizeof_mlT"
  define c where "c = q - sizeof_mlT"
  have bc: "b \<in> B" "c \<in> B" "b \<noteq> c" "length bs \<le> unat (load32 (mem s) b)" "length cs \<le> unat (load32 (mem s) c)"
    using p q \<open>p \<noteq> q\<close> by (auto simp: holds_bytes_def b_def c_def)
  have a: "apart b (ext (mem s) b) c (ext (mem s) c)" using blocks_okD(3) [OF X] bc by blast
  have P: "unat p = unat b + 16" "unat q = unat c + 16"
    using payload_byte(1) [OF h bc(1), of 0] payload_byte(1) [OF h bc(2), of 0]
      heap_stateD(8) [OF h bc(1)] heap_stateD(8) [OF h bc(2)] by (simp_all add: b_def c_def unat_gt_0)
  show ?thesis using a bc(4,5) unfolding apart_def P ext_def by auto
qed

lemma page_kept:
  assumes h: "heap_state s ns B" and g: "get_free_page s = Some (q, s')"
  shows "busy_same s s' B"
  unfolding busy_same_def
proof (intro ballI allI impI)
  fix b k
  assume b: "b \<in> B" and k: "k < ext (mem s) b"
  have "0x400000 \<le> unat b" using in_pagesD [OF heap_stateD(5) [OF h], of b] b by (auto simp: kpage_def)
  moreover have "unat (b + of_nat k) = unat b + k"
    by (rule unat_add_nat) (use blocks_okD(2) [OF heap_okD(5) [OF heap_stateD(2) [OF h]], of b] b k in simp)
  ultimately have "\<not> in_range MMAP_ADDR 0x100000 (b + of_nat k)" by (simp add: in_range_def MMAP_ADDR_def)
  then show "mem s' (b + of_nat k) = mem s (b + of_nat k)" by (rule kernel_pages.mem_after [OF g])
qed

definition heap_inv :: "machine \<Rightarrow> (u32 \<rightharpoonup> u8 list) \<Rightarrow> bool" where
  "heap_inv s held \<longleftrightarrow> (\<exists>ns B. heap_state s ns B \<and> (\<forall>p bs. held p = Some bs \<longrightarrow> holds_bytes s B p bs))"

lemma heap_inv_take:
  assumes i: "heap_inv s held" and sz: "0 < sz" "sz \<le> 4080" and a: "malloc sz s = Some (p, s')"
  shows "p \<notin> dom held" and "heap_inv s' (held(p \<mapsto> held_bytes s' p sz))"
proof -
  from i obtain ns B where h: "heap_state s ns B" and H: "\<And>p bs. held p = Some bs \<Longrightarrow> holds_bytes s B p bs"
    by (auto simp: heap_inv_def)
  have "sz \<le> 0xFFFFFFFC" "unat sz \<le> 4080" using sz(2) by (simp_all add: word_le_nat_alt)
  note r = round4_ge [OF sz(1) this(1)] and le = this(2)
  from malloc_state [OF h r(1) r(4) [OF le] a] obtain n ns' where
    n: "p = n + sizeof_mlT" "n \<notin> B" "heap_state s' ns' (insert n B)" "round4 sz \<le> load32 (mem s') n"
      "busy_same s s' B" by blast
  show "p \<notin> dom held"
  proof
    assume "p \<in> dom held"
    then obtain bs where "held p = Some bs" by auto
    from H [OF this] n(1,2) show False by (simp add: holds_bytes_def)
  qed
  have "holds_bytes s' (insert n B) p (held_bytes s' p sz)"
    using n(1,4) r(2) by (auto simp: holds_bytes_def held_bytes_def word_le_nat_alt)
  moreover have "holds_bytes s' (insert n B) q bs" if "held q = Some bs" for q bs
    by (rule holds_bytes_same [OF H [OF that] n(5)]) (use H [OF that] in \<open>auto simp: holds_bytes_def\<close>)
  ultimately show "heap_inv s' (held(p \<mapsto> held_bytes s' p sz))"
    using n(3) unfolding heap_inv_def by (intro exI [of _ ns'] exI [of _ "insert n B"]) auto
qed

lemma heap_inv_give:
  assumes i: "heap_inv s held" and p: "p \<in> dom held"
  shows "\<exists>s'. free p s = Some s' \<and> heap_inv s' (held(p := None))"
proof -
  from i obtain ns B where h: "heap_state s ns B" and H: "\<And>p bs. held p = Some bs \<Longrightarrow> holds_bytes s B p bs"
    by (auto simp: heap_inv_def)
  define b where "b = p - sizeof_mlT"
  have b: "b \<in> B" "b + sizeof_mlT = p" using H p by (auto simp: holds_bytes_def b_def)
  from free_state [OF h b(1)] obtain s' ns' where r: "free p s = Some s'" "heap_state s' ns' (B - {b})"
    "busy_same s s' (B - {b})" unfolding b(2) by blast
  have "holds_bytes s' (B - {b}) q bs" if "held q = Some bs" "q \<noteq> p" for q bs
    by (rule holds_bytes_same [OF H [OF that(1)] r(3)])
      (use H [OF that(1)] that(2) in \<open>auto simp: holds_bytes_def b_def\<close>)
  then have "heap_inv s' (held(p := None))" using r(2) unfolding heap_inv_def by auto
  with r(1) show ?thesis by blast
qed

lemma heap_inv_write:
  assumes i: "heap_inv s held" and p: "held p = Some bs" "k < length bs"
  shows "heap_inv (s\<lparr>mem := (mem s)(p + of_nat k := v)\<rparr>) (held(p \<mapsto> bs[k := v]))"
proof -
  from i obtain ns B where h: "heap_state s ns B" and H: "\<And>p bs. held p = Some bs \<Longrightarrow> holds_bytes s B p bs"
    by (auto simp: heap_inv_def)
  define b where "b = p - sizeof_mlT"
  let ?s = "s\<lparr>mem := (mem s)(p + of_nat k := v)\<rparr>"
  have b: "b \<in> B" "b + sizeof_mlT = p" "k < unat (load32 (mem s) b)" "length bs \<le> unat (load32 (mem s) b)"
    using H [OF p(1)] p(2) by (auto simp: holds_bytes_def b_def)
  note W = write_state [OF h b(1,3), where v = v, unfolded b(2)]
  have "p + of_nat j \<noteq> p + of_nat k" if "j < length bs" "j \<noteq> k" for j
  proof
    assume e: "p + of_nat j = p + of_nat k"
    have "j < unat (load32 (mem s) b)" using that(1) b(4) by simp
    from payload_byte(1) [OF h b(1) this] payload_byte(1) [OF h b(1,3)] e that(2) show False
      unfolding b(2) by simp
  qed
  then have "mem ?s (p + of_nat j) = bs[k := v] ! j" if "j < length bs" for j
    using H [OF p(1)] that by (cases "j = k") (auto simp: holds_bytes_def)
  then have "holds_bytes ?s B p (bs[k := v])"
    using H [OF p(1)] W(2) by (simp add: holds_bytes_def)
  moreover have "holds_bytes ?s B q cs" if q: "held q = Some cs" "q \<noteq> p" for q cs
  proof -
    have "q + of_nat j \<noteq> p + of_nat k" if "j < length cs" for j
      by (rule apart_neq [OF holds_disjoint [OF h H [OF q(1)] H [OF p(1)] q(2)] that p(2)])
    then show ?thesis using H [OF q(1)] W(2) by (auto simp: holds_bytes_def)
  qed
  ultimately show ?thesis using W(1) unfolding heap_inv_def by (intro exI [of _ ns] exI [of _ B]) auto
qed

lemma heap_run_inv:
  assumes "heap_run s0 s held" and "heap_at s0 [] {}"
  shows "heap_inv s held"
  using assms(1)
proof (induction rule: heap_run.induct)
  case start
  have "heap_state s0 [] {}" using assms(2) by (simp add: heap_state_def closed_def)
  then show ?case unfolding heap_inv_def by auto
next
  case (take s held sz p s')
  then show ?case by (blast intro: heap_inv_take(2))
next
  case (give s held p s')
  from heap_inv_give [OF give.IH give.hyps(2)] obtain t where
    t: "free p s = Some t" "heap_inv t (held(p := None))" by blast
  have "t = s'" using t(1) give.hyps(3) by simp
  with t(2) show ?case by (simp only:)
next
  case (fill s held p bs k v)
  then show ?case by (blast intro: heap_inv_write)
next
  case (other s held q s')
  then obtain ns B where h: "heap_state s ns B" and H: "\<And>p bs. held p = Some bs \<Longrightarrow> holds_bytes s B p bs"
    by (auto simp: heap_inv_def)
  have "holds_bytes s' B p bs" if "held p = Some bs" for p bs
    by (rule holds_bytes_same [OF H [OF that] page_kept [OF h other.hyps(2)]])
      (use H [OF that] in \<open>auto simp: holds_bytes_def\<close>)
  then show ?case using page_state [OF h other.hyps(2)] unfolding heap_inv_def by blast
qed

section \<open>Properties\<close>

text \<open>
  C5: a heap that starts empty behaves as a map from addresses to byte strings, over every
  sequence of \<open>malloc\<close>, \<open>free\<close>, writes by the holders inside the bytes they asked for, and pages
  taken by others. The addresses in use are disjoint ranges; each still holds what its holder last
  wrote there; each can be given back; \<open>malloc\<close> of one to 4080 bytes never returns an address in
  use, and returns as long as a page is free.
\<close>

theorem heap_is_map:
  assumes "heap_run s0 s held" and "heap_at s0 [] {}"
  shows "(\<forall>p bs k. held p = Some bs \<and> k < length bs \<longrightarrow> mem s (p + of_nat k) = bs ! k)
    \<and> (\<forall>p q bs cs. held p = Some bs \<and> held q = Some cs \<and> p \<noteq> q \<longrightarrow> apart p (length bs) q (length cs))
    \<and> (\<forall>p \<in> dom held. \<exists>s'. free p s = Some s')
    \<and> (\<forall>sz p s'. 0 < sz \<and> sz \<le> 4080 \<and> malloc sz s = Some (p, s') \<longrightarrow> p \<notin> dom held)
    \<and> (free_pages s \<noteq> {} \<longrightarrow> (\<forall>sz. 0 < sz \<and> sz \<le> 4080 \<longrightarrow> malloc sz s \<noteq> None))"
proof -
  note i = heap_run_inv [OF assms]
  then obtain ns B where h: "heap_state s ns B" and H: "\<And>p bs. held p = Some bs \<Longrightarrow> holds_bytes s B p bs"
    by (auto simp: heap_inv_def)
  have "malloc sz s \<noteq> None" if "free_pages s \<noteq> {}" "0 < sz" "sz \<le> 4080" for sz
  proof -
    have "sz \<le> 0xFFFFFFFC" "unat sz \<le> 4080" using that(3) by (simp_all add: word_le_nat_alt)
    note r = round4_ge [OF that(2) this(1)] and le = this(2)
    from malloc_slow [OF heap_stateD(1,4) [OF h] r(1) r(4) [OF le] that(1)] show ?thesis by auto
  qed
  moreover have "\<forall>p bs k. held p = Some bs \<and> k < length bs \<longrightarrow> mem s (p + of_nat k) = bs ! k"
    using H by (auto simp: holds_bytes_def)
  moreover have "apart p (length bs) q (length cs)" if "held p = Some bs" "held q = Some cs" "p \<noteq> q" for p q bs cs
    by (rule holds_disjoint [OF h H [OF that(1)] H [OF that(2)] that(3)])
  moreover have "\<forall>p \<in> dom held. \<exists>s'. free p s = Some s'" using heap_inv_give [OF i] by blast
  moreover have "\<forall>sz p s'. 0 < sz \<and> sz \<le> 4080 \<and> malloc sz s = Some (p, s') \<longrightarrow> p \<notin> dom held"
    using heap_inv_take(1) [OF i] by blast
  ultimately show ?thesis by blast
qed

section \<open>Witness\<close>

text \<open>From the machine that has nothing in use: a block is taken, written to, and given back.\<close>

theorem heap_is_map_witness:
  "\<exists>p s1. malloc 100 free_machine = Some (p, s1)
    \<and> (\<exists>s2. free p (s1\<lparr>mem := (mem s1)(p + of_nat 3 := 7)\<rparr>) = Some s2)"
proof -
  note h = free_machine_heap and r = heap_run.start [of free_machine]
  have "free_pages free_machine \<noteq> {}" using free_pages_get(1) [OF free_machine_get] by auto
  then obtain p s1 where m: "malloc 100 free_machine = Some (p, s1)"
    using heap_is_map [OF r h] by (cases "malloc 100 free_machine") force+
  have "heap_run free_machine s1 [p \<mapsto> held_bytes s1 p 100]" by (rule heap_run.take [OF r _ _ m]) simp_all
  then have w: "heap_run free_machine (s1\<lparr>mem := (mem s1)(p + of_nat 3 := 7)\<rparr>)
      ([p \<mapsto> held_bytes s1 p 100](p \<mapsto> (held_bytes s1 p 100)[3 := 7]))"
    by (rule heap_run.fill) (simp_all add: held_bytes_def)
  have "p \<in> dom ([p \<mapsto> held_bytes s1 p 100](p \<mapsto> (held_bytes s1 p 100)[3 := 7]))" by simp
  then have "\<exists>s2. free p (s1\<lparr>mem := (mem s1)(p + of_nat 3 := 7)\<rparr>) = Some s2"
    using heap_is_map [OF w h] by blast
  with m show ?thesis by blast
qed

end
