(* ===== verification/Cow.thy ===== *)
theory Cow
  imports Paging
begin

text \<open>
  Copy-on-write sharing in \<open>kernel/mm.c\<close>: what a write fault does to the page at fault, and what
  \<open>create_mm\<close> shares. The functions are defined in \<open>Paging\<close>.
\<close>

unbundle bit_operations_syntax

section \<open>Entries\<close>

lemma shared_flags:
  assumes "page p"
  shows "(p OR 7) AND NOT 0x3ff = p" and "drop_bit 12 (p OR 5) = drop_bit 12 p" and "p OR 5 = p + 5"
proof -
  have "(p OR 7) AND NOT (mask 10) = p"
  proof (rule bit_word_eqI)
    fix n
    assume "n < LENGTH(32)"
    have "\<not> bit (7 :: u32) n" if "10 \<le> n"
    proof -
      have "(7 :: u32) = mask 3" by (simp add: mask_eq_exp_minus_1)
      then show ?thesis unfolding \<open>7 = mask 3\<close> using that by (simp only: bit_mask_iff) simp
    qed
    then show "bit ((p OR 7) AND NOT (mask 10)) n = bit p n"
      using page_bit [OF assms, of n] \<open>n < LENGTH(32)\<close> by (auto simp: bit_simps)
  qed
  then show "(p OR 7) AND NOT 0x3ff = p" by (simp only: low_mask)
  have m: "(5 :: u32) = 5 AND mask 12" by (simp add: mask_eq_exp_minus_1)
  have "drop_bit 12 (p OR (5 AND mask 12)) = drop_bit 12 p"
    by (rule bit_word_eqI) (auto simp: bit_simps)
  then show "drop_bit 12 (p OR 5) = drop_bit 12 p" using m by simp
  have "p AND 5 = (p AND mask 12) AND 5"
    by (subst m, subst and.commute [of 5], simp only: and.assoc)
  then have "p AND 5 = 0" unfolding page_low [OF assms] by simp
  then show "p OR 5 = p + 5" by (rule disjunctive_add_eq_or [symmetric])
qed


lemma any_flags:
  "((x :: u32) OR 7) AND 1 = 1" "(x OR 7) AND 2 = 2" "(x OR 7) AND 4 = 4" "(x OR 7) AND NOT 0xfff = x AND NOT 0xfff"
proof -
  have k: "(x OR 7) AND k = k" if "k = 7 AND k" for k :: u32
  proof -
    have "(x OR 7) AND (7 AND k) = 7 AND k" by (rule bit_word_eqI) (auto simp: bit_simps)
    then show ?thesis using that by metis
  qed
  show "(x OR 7) AND 1 = 1" "(x OR 7) AND 2 = 2" "(x OR 7) AND 4 = 4" by (rule k, simp)+
  have "(7 :: u32) AND NOT 0xfff = 0" by simp
  then show "(x OR 7) AND NOT 0xfff = x AND NOT 0xfff" by (simp only: bit.conj_disj_distrib2 or.right_neutral)
qed


section \<open>A shared page is copied\<close>

text \<open>The bytes \<open>d\<close> to \<open>d + n\<close> lie in the page \<open>q\<close>.\<close>

lemma page_byte: "page q \<Longrightarrow> k < 4096 \<Longrightarrow> unat (q + of_nat k) = unat q + k"
  by (rule unat_add_nat) (use page_end [of q] in simp)

lemma kpage_clear:
  assumes "kpage q" and "k < 4096"
  shows "\<not> in_range MMAP_ADDR 0x100000 (q + of_nat k)"
  using assms page_byte [of q k] by (simp add: kpage_def in_range_def MMAP_ADDR_def)

lemma kpage_count: "kpage q \<Longrightarrow> k < 4096 \<Longrightarrow> q + of_nat k \<noteq> MMAP_ADDR + drop_bit 12 p"
  using kpage_clear [of q k] unat_mmap [of p] u32_bound [of p]
  by (auto simp: in_range_def MMAP_ADDR_def)


section \<open>Copying between pages that are mapped to themselves\<close>





section \<open>What \<open>create_mm\<close> write-protects\<close>



lemma get32_count:
  assumes "kpage q" and "k < 1024"
  shows "get32 (set_mmap (drop_bit 12 x) c s) (slot q k) = get32 s (slot q k)"
proof (rule load32_cong)
  fix l :: nat
  assume "l < 4"
  then have "q + of_nat (4 * k + l) \<noteq> MMAP_ADDR + drop_bit 12 x"
    by (intro kpage_count assms(1)) (use assms(2) in simp)
  then show "mem (set_mmap (drop_bit 12 x) c s) (slot q k + of_nat l) = mem s (slot q k + of_nat l)"
    by (simp add: add.assoc)
qed











section \<open>Properties\<close>


text \<open>
  C29: the same fault once the page has a single user left, as after every other user has been
  given its copy. The page is not kept: the entry is set from a variable that was never assigned,
  so the address is mapped, writable, to whatever frame number it holds.
\<close>

theorem do_wp_page_uninitialised:
  assumes ok: "space_ok s" and d: "dir_entry s (dir_of addr) = T OR 7" "page T"
    and t: "get32 s (slot T (ent_of addr)) = F OR 5" "page F" "mmap s (drop_bit 12 F) \<le> 1"
  shows "\<exists>s'. do_wp_page junk junk' err addr s = Some s'
    \<and> walk (mem s') (CR3 s') addr = Some ((junk' AND NOT 0xfff) OR (addr AND 0xfff), True, True)
    \<and> mmap s' (drop_bit 12 F) = mmap s (drop_bit 12 F)"
proof -
  let ?i = "dir_of addr" and ?j = "ent_of addr"
  have fl: "(T OR 7) AND 1 = 1" "(T OR 7) AND 2 = 2" "(T OR 7) AND 4 = 4"
    using entry_flags [OF d(2), of 1 7] entry_flags [OF d(2), of 2 7] entry_flags [OF d(2), of 4 7] by simp_all
  have p: "present s ?i" using d(1) dir_index [of addr] fl by (simp add: present_def)
  have T: "table_at s ?i = T" using entry_page [OF d(2), of 7] unfolding d(1) by simp
  define s' where "s' = put32 (slot T ?j) (junk' OR 7) s"
  have "un_wp_page junk' (F OR 5) s = Some (junk', s)"
    using t(3) unfolding un_wp_page_def Let_def shared_flags(2) [OF t(2)] not_less [symmetric]
    by (rule if_not_P)
  then have r: "do_wp_page junk junk' err addr s = Some s'"
    using d(1) t(1) fl shared_flags(1) [OF d(2)] by (simp add: do_wp_page_def Let_def refpage_def s'_def)
  have "s' = put32 (slot (table_at s ?i) ?j) (junk' OR 7) s" unfolding T s'_def ..
  note W = set_entry [OF ok p table_index this]
  have "walk (mem s') (CR3 s') addr = Some ((junk' AND NOT 0xfff) OR (addr AND 0xfff), True, True)"
  proof -
    have "entry_walk (T OR 7) (junk' OR 7) addr = Some ((junk' AND NOT 0xfff) OR (addr AND 0xfff), True, True)"
      unfolding entry_walk_def any_flags fl by simp
    then show ?thesis using W(4) [of addr] unfolding d(1) by (simp only: simp_thms if_True)
  qed
  moreover have "mmap s' (drop_bit 12 F) = mmap s (drop_bit 12 F)"
    unfolding s'_def by (rule mmap_slot [OF space_okD(4) [OF ok p, unfolded T] table_index])
  ultimately show ?thesis using r by blast
qed


section \<open>Witnesses\<close>

text \<open>
  An address space with one table, at \<open>0x401000\<close> for the 4 MB from \<open>0x40000000\<close> on, in which the first
  page is mapped read-only to the frame \<open>0x800000\<close>, used \<open>c\<close> times.
\<close>

definition cow_base :: "u8 \<Rightarrow> machine" where
  "cow_base c = set_mmap (drop_bit 12 0x800000) c (set_mmap (drop_bit 12 0x401000) 1 space_machine)"

definition cow_machine :: "u8 \<Rightarrow> machine" where
  "cow_machine c = put32 (slot 0x401000 0) (0x800000 OR 5) (put32 (slot 0x400000 256) (0x401000 OR 7) (cow_base c))"

lemma pages_at [simp]: "kpage 0x400000" "kpage 0x401000" "kpage 0x800000" "kpage 0x801000"
  "page 0x400000" "page 0x401000" "page 0x800000" "page 0x801000"
  by (simp_all add: kpage_def page_def)

lemma cow_base_ok:
  shows "space_ok (cow_base c)" and "\<not> present (cow_base c) i" and "CR3 (cow_base c) = 0x400000"
    and "taken (cow_base c) 0x401000" and "mmap (cow_base c) (drop_bit 12 0x800000) = c"
    and "mmap (cow_base c) (drop_bit 12 0x801000) = 0"
proof -
  have C: "CR3 (cow_base c) = CR3 space_machine" by (simp add: cow_base_def)
  have g: "get32 (cow_base c) (slot q k) = get32 space_machine (slot q k)" if "kpage q" "k < 1024" for q k
    unfolding cow_base_def by (simp only: get32_count [OF that])
  have t: "taken (cow_base c) q" if "page q" "taken space_machine q" for q
  proof -
    have "\<not> taken space_machine 0x800000"
      by (simp add: taken_def space_machine_simps MMAP_ADDR_def drop_bit_eq_div)
    then have "q \<noteq> 0x800000" using that(2) by auto
    then have "drop_bit 12 q \<noteq> drop_bit 12 0x800000" using frame_inj [OF that(1) pages_at(7)] by simp
    then show ?thesis using that(2) by (auto simp: cow_base_def taken_def)
  qed
  show "space_ok (cow_base c)" by (rule space_cong(1) [OF space_machine_ok C g t])
  show "\<not> present (cow_base c) i"
    using space_cong(2) [OF space_machine_ok C g t, of i] space_machine_empty by simp
  show "CR3 (cow_base c) = 0x400000" by (simp add: C space_machine_simps)
  show "taken (cow_base c) 0x401000" "mmap (cow_base c) (drop_bit 12 0x800000) = c"
    "mmap (cow_base c) (drop_bit 12 0x801000) = 0"
    by (simp_all add: cow_base_def taken_def drop_bit_eq_div space_machine_simps MMAP_ADDR_def)
qed

lemma cow_machine_ok:
  shows "space_ok (cow_machine c)" and "CR3 (cow_machine c) = 0x400000"
    and "dir_entry (cow_machine c) 256 = 0x401000 OR 7"
    and "get32 (cow_machine c) (slot 0x401000 0) = 0x800000 OR 5"
    and "mmap (cow_machine c) (drop_bit 12 q) = mmap (cow_base c) (drop_bit 12 q)"
    and "KMEM (cow_machine c) = 0x800000" and "HMEM (cow_machine c) = 0x1000000"
proof -
  note B = cow_base_ok [of c]
  define s2 where "s2 = put32 (slot 0x400000 256) (0x401000 OR 7) (cow_base c)"
  have s2: "s2 = put32 (slot (CR3 (cow_base c)) 256) (0x401000 OR 7) (cow_base c)" by (simp only: s2_def B(3))
  have N: "space_ok s2" "present s2 256" "dir_entry s2 256 = 0x401000 OR 7"
    using new_table [OF B(1) _ B(2) pages_at(2) B(4) _ _ s2] B(2,3) by auto
  have T: "table_at s2 256 = 0x401000" unfolding N(3) by simp
  have "cow_machine c = put32 (slot 0x401000 0) (0x800000 OR 5) s2" by (simp only: s2_def cow_machine_def)
  then have c: "cow_machine c = put32 (slot (table_at s2 256) 0) (0x800000 OR 5) s2" unfolding T .
  note E = set_entry [OF N(1,2) _ c]
  show "space_ok (cow_machine c)" by (rule E(1)) simp
  show "dir_entry (cow_machine c) 256 = 0x401000 OR 7" using E(3) [of 256] N(3) by simp
  show C: "CR3 (cow_machine c) = 0x400000" by (simp add: cow_machine_def B(3))
  show "get32 (cow_machine c) (slot 0x401000 0) = 0x800000 OR 5"
    unfolding cow_machine_def using get32_slot [of "0x401000" "0x401000" 0 0] by simp
  show "mmap (cow_machine c) (drop_bit 12 q) = mmap (cow_base c) (drop_bit 12 q)"
    unfolding cow_machine_def by (simp only: mmap_slot [OF pages_at(2), of 0] mmap_slot [OF pages_at(1), of 256])
  show "KMEM (cow_machine c) = 0x800000" "HMEM (cow_machine c) = 0x1000000"
    by (simp_all add: cow_machine_def cow_base_def space_machine_simps)
qed

theorem do_wp_page_uninitialised_witness:
  "\<exists>s'. do_wp_page 0 0xDEADB000 2 0x40000123 (cow_machine 1) = Some s'
    \<and> walk (mem s') (CR3 s') 0x40000123 = Some (0xDEADB123, True, True)"
proof -
  note M = cow_machine_ok [of 1]
  have i: "dir_of 0x40000123 = 256" "ent_of 0x40000123 = 0" by (simp_all add: drop_bit_eq_div)
  have m: "mmap (cow_machine 1) (drop_bit 12 0x800000) = 1" unfolding M(5) by (rule cow_base_ok(5))
  show ?thesis
    using do_wp_page_uninitialised [OF M(1), of "0x40000123" "0x401000" "0x800000" 0 "0xDEADB000" 2,
        unfolded i, OF M(3) pages_at(6) M(4) pages_at(7)] m by auto
qed











end
