(* ===== verification/Net802.thy ===== *)
theory Net802
  imports Ethernet
begin

text \<open>
  The earlier network layer, \<open>net/802/eth.c\<close> and \<open>net/ARP.c\<close>, which the makefile no longer builds:
  hardware addresses are the low six bytes of a 64-bit number there, copied out of the memory the
  compiler gives to a parameter. That memory is an argument of the definitions.
\<close>

unbundle bit_operations_syntax

section \<open>The code\<close>

definition store64 :: "mem \<Rightarrow> u32 \<Rightarrow> u64 \<Rightarrow> mem" where
  "store64 m a v = store32 (store32 m a (ucast v)) (a + 4) (ucast (drop_bit 32 v))"

definition ARP_TYPE :: u16 where "ARP_TYPE = 0x0608"

text \<open>\<open>ethPakcetT\<close>, packed: destination, source at 6, a union of type and length at 12.\<close>

definition sizeof_ethPakcetT :: u32 where "sizeof_ethPakcetT = 14"

text \<open>\<open>ethSend\<close> of \<open>net/802/eth.c\<close>; its parameter \<open>mac\<close> is kept at \<open>par_at\<close>.\<close>

definition ethSend802 :: "device \<Rightarrow> u32 \<Rightarrow> u32 \<Rightarrow> u64 \<Rightarrow> u16 \<Rightarrow> machine \<Rightarrow> (u32 \<times> machine) option" where
  "ethSend802 nic par_at src mac type s =
     (let s = s\<lparr>mem := store64 (mem s) par_at mac\<rparr>
      in do { (msg, s) \<leftarrow> malloc (sizeof_msgT + sizeof_ethPakcetT) s;
              let s = set_msg_len msg (ucast sizeof_ethPakcetT) s;
                  s = set_msg_next msg src s;
                  eth = msg_msg msg;
                  s = s\<lparr>mem := snd (memcpy (mem s) eth par_at 6)\<rparr>;
                  s = s\<lparr>mem := store64 (mem s) par_at (getNICMac s)\<rparr>;
                  s = s\<lparr>mem := snd (memcpy (mem s) (eth + 6) par_at 6)\<rparr>;
                  s = s\<lparr>mem := store16 (mem s) (eth + 12) (msg_len (mem s) src)\<rparr>;
                  s = s\<lparr>mem := store16 (mem s) (eth + 12) type\<rparr>
              in do { s \<leftarrow> neSend nic msg s; Some (0, s) } })"

text \<open>The compound literal of \<open>IPtoMac\<close> and \<open>replayARP\<close>: the fields named, the others zero.\<close>

definition arpHeadT :: "u32 \<Rightarrow> u16 \<Rightarrow> u32 \<Rightarrow> u32 \<Rightarrow> mem \<Rightarrow> mem" where
  "arpHeadT p op dip sip m =
     (let m = fill_bytes 28 p 0 m;
          m = store16 m p 0x0100;
          m = store16 m (p + 2) 0x0008;
          m = m(p + 4 := 6);
          m = m(p + 5 := 4);
          m = store16 m (p + 6) op;
          m = store32 m (p + 24) dip
      in store32 m (p + 14) sip)"

text \<open>\<open>IPtoMac\<close> of \<open>net/ARP.c\<close>; its parameter \<open>mac\<close> is kept at \<open>own_at\<close>.\<close>

definition IPtoMac :: "device \<Rightarrow> u32 \<Rightarrow> u32 \<Rightarrow> u32 \<Rightarrow> u64 \<Rightarrow> machine \<Rightarrow> (u64 \<times> machine) option" where
  "IPtoMac nic par_at own_at ip mac s =
     (let s = s\<lparr>mem := store64 (mem s) own_at mac\<rparr>
      in do { (msg, s) \<leftarrow> malloc (sizeof_msgT + 60 - 14) s;
              let s = set_msg_len msg (60 - 14) s;
                  s = set_msg_next msg 0 s;
                  arp = msg_msg msg;
                  s = s\<lparr>mem := arpHeadT arp 0x0100 ip 0 (mem s)\<rparr>;
                  s = s\<lparr>mem := snd (memcpy (mem s) (arp + 8) own_at 6)\<rparr>;
                  s = put32 (arp + 14) 0x6501a8c0 s
              in do { (r, s) \<leftarrow> ethSend802 nic par_at msg (- 1) ARP_TYPE s; Some (0, s) } })"

text \<open>\<open>replayARP\<close>; its parameters \<open>sMAC\<close> and \<open>dMAC\<close> are kept at \<open>src_at\<close> and \<open>dst_at\<close>.\<close>

definition replayARP :: "device \<Rightarrow> u32 \<Rightarrow> u32 \<Rightarrow> u32 \<Rightarrow> u32 \<Rightarrow> u32 \<Rightarrow> u64 \<Rightarrow> u64 \<Rightarrow> machine \<Rightarrow> machine option" where
  "replayARP nic par_at src_at dst_at sIP dIP sMAC dMAC s =
     (let s = s\<lparr>mem := store64 (store64 (mem s) src_at sMAC) dst_at dMAC\<rparr>
      in do { (msg, s) \<leftarrow> malloc (sizeof_msgT + 60 - 14) s;
              let s = set_msg_next msg 0 s;
                  s = set_msg_len msg (60 - 14) s;
                  arp = msg_msg msg;
                  s = s\<lparr>mem := arpHeadT arp 0x0200 dIP sIP (mem s)\<rparr>;
                  s = s\<lparr>mem := snd (memcpy (mem s) (arp + 8) src_at 6)\<rparr>;
                  s = s\<lparr>mem := snd (memcpy (mem s) (arp + 18) dst_at 6)\<rparr>
              in do { (r, s) \<leftarrow> ethSend802 nic par_at msg dMAC ARP_TYPE s; Some s } })"

section \<open>Memory as lists of bytes\<close>

definition view :: "mem \<Rightarrow> u32 \<Rightarrow> nat \<Rightarrow> u8 list" where
  "view m p k = map (\<lambda>j. m (p + of_nat j)) [0..<k]"

definition le16 :: "u16 \<Rightarrow> u8 list" where "le16 v = [ucast v, ucast (drop_bit 8 v)]"
definition le32 :: "u32 \<Rightarrow> u8 list" where
  "le32 v = [ucast v, ucast (drop_bit 8 v), ucast (drop_bit 16 v), ucast (drop_bit 24 v)]"

text \<open>The six bytes of a hardware address, in the order the driver's 64-bit number keeps them.\<close>

definition mac6 :: "u64 \<Rightarrow> u8 list" where
  "mac6 v = [ucast v, ucast (drop_bit 8 v), ucast (drop_bit 16 v), ucast (drop_bit 24 v),
     ucast (drop_bit 32 v), ucast (drop_bit 40 v)]"

lemma byte_lists [simp]: "length (le16 x) = 2" "length (le32 y) = 4" "length (mac6 v) = 6"
  by (simp_all add: le16_def le32_def mac6_def)

lemma length_view [simp]: "length (view m p k) = k"
  by (simp add: view_def)

lemma stores_as_bytes:
  "store16 m a x = store_bytes (le16 x) a m" "store32 m a y = store_bytes (le32 y) a m"
  "m(a := b) = store_bytes [b] a m" "fill_bytes n a c m = store_bytes (replicate n c) a m"
proof -
  show "fill_bytes n a c m = store_bytes (replicate n c) a m" by (induction n arbitrary: a m) simp_all
qed (simp_all add: store16_def store32_def le16_def le32_def add.assoc)

lemma view_store_bytes:
  assumes "unat p + k \<le> 2 ^ 32" and "i + length bs \<le> k"
  shows "view (store_bytes bs (p + of_nat i) m) p k
    = take i (view m p k) @ bs @ drop (i + length bs) (view m p k)"
proof (cases "bs = []")
  case False
  have u: "unat (p + of_nat j) = unat p + j" if "j < k" for j
    by (rule unat_add_nat) (use assms(1) that in simp)
  have i: "i < k" using False assms(2) by (cases bs) auto
  have m: "store_bytes bs (p + of_nat i) m (p + of_nat j)
      = (if i \<le> j \<and> j < i + length bs then bs ! (j - i) else m (p + of_nat j))" if j: "j < k" for j
  proof -
    have "unat (p + of_nat j - (p + of_nat i)) < length bs \<longleftrightarrow> i \<le> j \<and> j < i + length bs"
      using in_range_iff [of "p + of_nat i" "length bs" "p + of_nat j"] u [OF i] u [OF j] assms
      by (auto simp: in_range_def)
    moreover have "unat (p + of_nat j - (p + of_nat i)) = j - i" if "i \<le> j"
      using u [OF i] u [OF j] that by (subst unat_diff_word) simp_all
    ultimately show ?thesis using assms by (auto simp: store_bytes_at)
  qed
  show ?thesis
    by (rule nth_equalityI) (use assms i in \<open>auto simp: view_def nth_append m min_def\<close>)
qed simp

lemma view_apart:
  assumes "only_area q l m m'" and "apart q l p k"
  shows "view m' p k = view m p k"
proof -
  have "m' (p + of_nat j) = m (p + of_nat j)" if "j < k" for j
    by (rule only_areaD [OF assms(1) apart_not_range [OF assms(2) in_range_offset]])
      (use assms(2) that in \<open>auto simp: apart_def\<close>)
  then show ?thesis by (simp add: view_def)
qed

lemma view_same:
  assumes "same_areas R m m'" and "(q, l) \<in> R" and "areas_ok R" and "n \<le> l"
  shows "view m' q n = view m q n"
proof -
  have "m' (q + of_nat j) = m (q + of_nat j)" if "j < n" for j
    by (rule same_areasD [OF assms(1,2) in_range_offset [OF areas_bound [OF assms(3,2)]]]) (use that assms(4) in simp)
  then show ?thesis by (simp add: view_def)
qed

lemma copy_as_bytes:
  assumes "apart d n a n"
  shows "copy_bytes n d a m = store_bytes (view m a n) d m"
proof
  fix x
  have b: "unat d + n \<le> 2 ^ 32" "n \<le> 2 ^ 32" using assms by (auto simp: apart_def)
  have "copy_bytes n d a m x = (if in_range d n x then m (a + (x - d)) else m x)"
    by (rule copy_bytes_eq) (use assms in \<open>auto simp: apart_def\<close>)
  then show "copy_bytes n d a m x = store_bytes (view m a n) d m x"
    using b by (simp add: store_bytes_at in_range_iff [OF b(1)] view_def del: copy_bytes.simps)
qed

lemma view_store64: "view (store64 m a v) a 6 = mac6 v"
proof -
  have h: "ucast (drop_bit i (ucast v :: u32)) = (ucast (drop_bit i v) :: u8)" if "i \<le> 24" for i
    by (rule bit_word_eqI) (use that in \<open>auto simp: bit_simps\<close>)
  have u: "ucast (ucast v :: u32) = (ucast v :: u8)" "ucast (ucast (drop_bit 32 v) :: u32) = (ucast (drop_bit 32 v) :: u8)"
    "ucast (drop_bit 8 (ucast (drop_bit 32 v) :: u32)) = (ucast (drop_bit 40 v) :: u8)"
    by (rule bit_word_eqI; auto simp: bit_simps)+
  have "[0..<6] = [0, 1, 2, 3, 4, 5]" by (simp add: upt_rec)
  then show ?thesis by (simp add: view_def store64_def store32_def mac6_def h u)
qed

lemma store64_area: "unat a + 8 \<le> 2 ^ 32 \<Longrightarrow> only_area a 8 m (store64 m a v)"
  using only_area_store32 [of a 8 0 m "ucast v"] only_area_store32 [of a 8 4 "store32 m a (ucast v)"]
  by (auto simp: store64_def intro: only_area_trans)

lemma area_first: "unat p + k \<le> 2 ^ 32 \<Longrightarrow> length bs \<le> k \<Longrightarrow> only_area p k m (store_bytes bs p m)"
  using only_area_store_bytes [of p k 0 bs m] by simp

lemma view_first:
  "unat p + k \<le> 2 ^ 32 \<Longrightarrow> length bs \<le> k \<Longrightarrow> view (store_bytes bs p m) p k = bs @ drop (length bs) (view m p k)"
  using view_store_bytes [of p k 0 bs m] by simp

lemmas view_put = view_first view_store_bytes [where i = 4, simplified of_nat_numeral]
  view_store_bytes [where i = 6, simplified of_nat_numeral] view_store_bytes [where i = 12, simplified of_nat_numeral]
  view_store_bytes [where i = 18, simplified of_nat_numeral]

lemmas area_put = area_first only_area_store_bytes [where i = 4, simplified of_nat_numeral]
  only_area_store_bytes [where i = 6, simplified of_nat_numeral] only_area_store_bytes [where i = 12, simplified of_nat_numeral]
  only_area_store_bytes [where i = 18, simplified of_nat_numeral]

section \<open>The Ethernet header\<close>

text \<open>The message as it is before and after the parameter is used a second time.\<close>

definition head802 :: "u32 \<Rightarrow> u32 \<Rightarrow> u32 \<Rightarrow> mem \<Rightarrow> mem" where
  "head802 par_at src p m = copy_bytes 6 (p + 6) par_at (store32 (store16 m (p + 4) 14) p src)"

definition tail802 :: "u32 \<Rightarrow> u32 \<Rightarrow> u16 \<Rightarrow> u32 \<Rightarrow> mem \<Rightarrow> mem" where
  "tail802 par_at src type p m =
     (let m = copy_bytes 6 (p + 12) par_at m;
          m = store16 m (p + 18) (msg_len m src)
      in store16 m (p + 18) type)"

lemma ethSend802_parts:
  "ethSend802 nic par_at src mac type s =
    do { (msg, s) \<leftarrow> malloc 22 (s\<lparr>mem := store64 (mem s) par_at mac\<rparr>);
         s \<leftarrow> neSend nic msg (s\<lparr>mem := tail802 par_at src type msg
           (store64 (head802 par_at src msg (mem s)) par_at (MAC s))\<rparr>);
         Some (0, s) }"
  by (simp add: ethSend802_def head802_def tail802_def set_msg_len_def set_msg_next_def memcpy_def msg_msg_def
      sizeof_msgT_def sizeof_ethPakcetT_def getNICMac_def Let_def add.assoc del: copy_bytes.simps)

lemma head802_view:
  assumes b: "unat p + k \<le> 2 ^ 32" "22 \<le> k" and a: "apart p k par_at 8" and v: "view m par_at 6 = mac6 mac"
  shows "view (head802 par_at src p m) p 20 = le32 src @ le16 14 @ mac6 mac @ drop 12 (view m p 20)"
    and "only_area p k m (head802 par_at src p m)"
proof -
  define m1 where "m1 = store_bytes (le32 src) p (store_bytes (le16 14) (p + 4) m)"
  have u: "unat (p + 6) = unat p + 6" using unat_add_nat [of p 6] b by simp
  have o: "only_area p k m m1"
    unfolding m1_def by (rule only_area_trans [OF area_put(2) [OF b(1)] area_put(1) [OF b(1)]]) (use b in simp_all)
  have "apart p k par_at 6" by (rule apart_mono [OF a]) simp_all
  from view_apart [OF o this] v have v1: "view m1 par_at 6 = mac6 mac" by simp
  have "apart (p + 6) 6 par_at 6" using a b u by (auto simp: apart_def)
  then have h: "head802 par_at src p m = store_bytes (mac6 mac) (p + 6) m1"
    by (simp add: head802_def copy_as_bytes stores_as_bytes m1_def [symmetric] v1 del: copy_bytes.simps)
  have b20: "unat p + 20 \<le> 2 ^ 32" using b by simp
  show "only_area p k m (head802 par_at src p m)"
    unfolding h by (rule only_area_trans [OF o area_put(3) [OF b(1)]]) (use b in simp)
  show "view (head802 par_at src p m) p 20 = le32 src @ le16 14 @ mac6 mac @ drop 12 (view m p 20)"
    unfolding h m1_def by (simp add: view_put [OF b20])
qed

lemma tail802_view:
  assumes b: "unat p + k \<le> 2 ^ 32" "22 \<le> k" and a: "apart p k par_at 8" and v: "view m par_at 6 = mac6 mac"
  shows "view (tail802 par_at src type p m) p 20 = take 12 (view m p 20) @ mac6 mac @ le16 type"
    and "only_area p k m (tail802 par_at src type p m)"
proof -
  define m1 where "m1 = store_bytes (mac6 mac) (p + 12) m"
  have u: "unat (p + 12) = unat p + 12" using unat_add_nat [of p 12] b by simp
  have "apart (p + 12) 6 par_at 6" using a b u by (auto simp: apart_def)
  then have h: "tail802 par_at src type p m
      = store_bytes (le16 type) (p + 18) (store_bytes (le16 (msg_len m1 src)) (p + 18) m1)"
    by (simp add: tail802_def copy_as_bytes stores_as_bytes m1_def v Let_def del: copy_bytes.simps)
  have b20: "unat p + 20 \<le> 2 ^ 32" using b by simp
  show "only_area p k m (tail802 par_at src type p m)"
    unfolding h
  proof (rule only_area_trans [OF only_area_trans])
    show "only_area p k m m1" unfolding m1_def by (rule area_put(4) [OF b(1)]) (use b in simp)
    show "only_area p k m1 (store_bytes (le16 (msg_len m1 src)) (p + 18) m1)"
      by (rule area_put(5) [OF b(1)]) (use b in simp)
    show "only_area p k (store_bytes (le16 (msg_len m1 src)) (p + 18) m1)
        (store_bytes (le16 type) (p + 18) (store_bytes (le16 (msg_len m1 src)) (p + 18) m1))"
      by (rule area_put(5) [OF b(1)]) (use b in simp)
  qed
  show "view (tail802 par_at src type p m) p 20 = take 12 (view m p 20) @ mac6 mac @ le16 type"
    unfolding h m1_def by (simp add: view_put [OF b20])
qed

section \<open>The ARP message\<close>

lemmas view_put_arp = view_put view_store_bytes [where i = 8, simplified of_nat_numeral]
  view_store_bytes [where i = 10, simplified of_nat_numeral] view_store_bytes [where i = 11, simplified of_nat_numeral]
  view_store_bytes [where i = 14, simplified of_nat_numeral] view_store_bytes [where i = 20, simplified of_nat_numeral]
  view_store_bytes [where i = 24, simplified of_nat_numeral] view_store_bytes [where i = 30, simplified of_nat_numeral]

lemma area_step:
  assumes "only_area p k m m'" and "unat p + k \<le> 2 ^ 32" and "i + length bs \<le> k"
  shows "only_area p k m (store_bytes bs (p + of_nat i) m')"
  by (rule only_area_trans [OF assms(1) only_area_store_bytes [OF assms(2,3)]])

lemmas area_steps = area_step [where i = 6, simplified of_nat_numeral]
  area_step [where i = 8, simplified of_nat_numeral]
  area_step [where i = 10, simplified of_nat_numeral]
  area_step [where i = 11, simplified of_nat_numeral]
  area_step [where i = 12, simplified of_nat_numeral]
  area_step [where i = 14, simplified of_nat_numeral]
  area_step [where i = 20, simplified of_nat_numeral]
  area_step [where i = 24, simplified of_nat_numeral]
  area_step [where i = 30, simplified of_nat_numeral]

lemma arpHeadT_bytes:
  "arpHeadT (p + 6) op dip sip m = store_bytes (le32 sip) (p + 20) (store_bytes (le32 dip) (p + 30)
     (store_bytes (le16 op) (p + 12) (store_bytes [4] (p + 11) (store_bytes [6] (p + 10)
     (store_bytes (le16 0x0008) (p + 8) (store_bytes (le16 0x0100) (p + 6) (store_bytes (replicate 28 0) (p + 6) m)))))))"
  unfolding arpHeadT_def stores_as_bytes Let_def add.assoc by simp

lemma arpHeadT_view:
  assumes b: "unat p + k \<le> 2 ^ 32" "52 \<le> k"
  shows "view (arpHeadT (p + 6) op dip sip m) p 52 = take 6 (view m p 52) @ [0, 1, 8, 0, 6, 4] @ le16 op
      @ replicate 6 0 @ le32 sip @ replicate 6 0 @ le32 dip @ drop 34 (view m p 52)"
    and "only_area p k m (arpHeadT (p + 6) op dip sip m)"
proof -
  have b52: "unat p + 52 \<le> 2 ^ 32" using b by simp
  have l: "le16 0x0100 = [0, 1]" "le16 0x0008 = [8, 0]" by (simp_all add: le16_def drop_bit_eq_div)
  show "view (arpHeadT (p + 6) op dip sip m) p 52 = take 6 (view m p 52) @ [0, 1, 8, 0, 6, 4] @ le16 op
      @ replicate 6 0 @ le32 sip @ replicate 6 0 @ le32 dip @ drop 34 (view m p 52)"
    unfolding arpHeadT_bytes l by (simp add: view_put_arp [OF b52] del: store_bytes.simps)
  show "only_area p k m (arpHeadT (p + 6) op dip sip m)"
    unfolding arpHeadT_bytes l
    by (intro area_steps [OF _ b(1)] only_area_refl) (use b in simp_all)
qed

text \<open>A copy out of the memory of a parameter.\<close>

lemma copy_step:
  assumes "only_area p k m m'" and "unat p + k \<le> 2 ^ 32" and "i + n \<le> k"
  shows "only_area p k m (copy_bytes n (p + of_nat i) q m')"
proof (cases "n = 0")
  case False
  then have u: "unat (p + of_nat i) = unat p + i" by (intro unat_add_nat) (use assms in simp)
  have "only_area (p + of_nat i) n m' (copy_bytes n (p + of_nat i) q m')"
    by (rule copy_area) (use u assms in simp)
  then have "only_area p k m' (copy_bytes n (p + of_nat i) q m')"
    by (rule only_area_sub) (use u assms(3) in simp_all)
  with assms(1) show ?thesis by (rule only_area_trans)
qed (use assms(1) in simp)

lemma copy_param:
  assumes "only_area p k m m'" and b: "unat p + k \<le> 2 ^ 32" "i + 6 \<le> k" and a: "apart p k q 8"
    and v: "view m q 6 = mac6 mac"
  shows "copy_bytes 6 (p + of_nat i) q m' = store_bytes (mac6 mac) (p + of_nat i) m'"
proof -
  have "unat (p + of_nat i) = unat p + i" by (rule unat_add_nat) (use b in simp)
  then have "apart (p + of_nat i) 6 q 6" using a b by (auto simp: apart_def)
  moreover have "view m' q 6 = mac6 mac"
    using view_apart [OF assms(1) apart_mono [OF a, of k 6]] v by simp
  ultimately show ?thesis by (simp only: copy_as_bytes)
qed

lemmas copy_steps = copy_step [where i = 14, simplified of_nat_numeral] copy_step [where i = 24, simplified of_nat_numeral]
lemmas copy_params = copy_param [where i = 14, simplified of_nat_numeral] copy_param [where i = 24, simplified of_nat_numeral]

text \<open>What the two functions put into their block.\<close>

definition request_body :: "u32 \<Rightarrow> u32 \<Rightarrow> u32 \<Rightarrow> mem \<Rightarrow> mem" where
  "request_body own_at ip p m =
     store32 (copy_bytes 6 (p + 14) own_at (arpHeadT (p + 6) 0x0100 ip 0 (store32 (store16 m (p + 4) 46) p 0)))
       (p + 20) 0x6501a8c0"

definition reply_body :: "u32 \<Rightarrow> u32 \<Rightarrow> u32 \<Rightarrow> u32 \<Rightarrow> u32 \<Rightarrow> mem \<Rightarrow> mem" where
  "reply_body src_at dst_at sIP dIP p m =
     copy_bytes 6 (p + 24) dst_at
       (copy_bytes 6 (p + 14) src_at (arpHeadT (p + 6) 0x0200 dIP sIP (store16 (store32 m p 0) (p + 4) 46)))"

lemma IPtoMac_parts:
  "IPtoMac nic par_at own_at ip mac s =
    do { (msg, s) \<leftarrow> malloc 54 (s\<lparr>mem := store64 (mem s) own_at mac\<rparr>);
         (r, s) \<leftarrow> ethSend802 nic par_at msg (- 1) ARP_TYPE (s\<lparr>mem := request_body own_at ip msg (mem s)\<rparr>);
         Some (0, s) }"
  by (simp add: IPtoMac_def request_body_def set_msg_len_def set_msg_next_def memcpy_def msg_msg_def
      sizeof_msgT_def Let_def add.assoc del: copy_bytes.simps)

lemma replayARP_parts:
  "replayARP nic par_at src_at dst_at sIP dIP sMAC dMAC s =
    do { (msg, s) \<leftarrow> malloc 54 (s\<lparr>mem := store64 (store64 (mem s) src_at sMAC) dst_at dMAC\<rparr>);
         (r, s) \<leftarrow> ethSend802 nic par_at msg dMAC ARP_TYPE
           (s\<lparr>mem := reply_body src_at dst_at sIP dIP msg (mem s)\<rparr>);
         Some s }"
  by (simp add: replayARP_def reply_body_def set_msg_len_def set_msg_next_def memcpy_def msg_msg_def
      sizeof_msgT_def Let_def add.assoc del: copy_bytes.simps)

lemma head_bytes:
  "store32 (store16 m (p + 4) 46) p 0 = store_bytes (le32 0) p (store_bytes (le16 46) (p + 4) m)"
  "store16 (store32 m p 0) (p + 4) 46 = store_bytes (le16 46) (p + 4) (store_bytes (le32 0) p m)"
  by (simp_all only: stores_as_bytes)

lemma head_view:
  assumes b: "unat p + k \<le> 2 ^ 32" "52 \<le> k"
  shows "view (store32 (store16 m (p + 4) 46) p 0) p 52 = le32 0 @ le16 46 @ drop 6 (view m p 52)"
    and "view (store16 (store32 m p 0) (p + 4) 46) p 52 = le32 0 @ le16 46 @ drop 6 (view m p 52)"
    and "only_area p k m (store32 (store16 m (p + 4) 46) p 0)"
    and "only_area p k m (store16 (store32 m p 0) (p + 4) 46)"
proof -
  have b52: "unat p + 52 \<le> 2 ^ 32" using b by simp
  show "view (store32 (store16 m (p + 4) 46) p 0) p 52 = le32 0 @ le16 46 @ drop 6 (view m p 52)"
    "view (store16 (store32 m p 0) (p + 4) 46) p 52 = le32 0 @ le16 46 @ drop 6 (view m p 52)"
    unfolding head_bytes by (simp_all add: view_put [OF b52] del: store_bytes.simps)
  show "only_area p k m (store32 (store16 m (p + 4) 46) p 0)"
    "only_area p k m (store16 (store32 m p 0) (p + 4) 46)"
    unfolding head_bytes
    by (rule only_area_trans [OF area_put(2) [OF b(1)] area_first [OF b(1)]]; use b in simp)
      (rule only_area_trans [OF area_first [OF b(1)] area_put(2) [OF b(1)]]; use b in simp)
qed

lemma request_view:
  assumes b: "unat p + k \<le> 2 ^ 32" "52 \<le> k"
  shows "only_area p k m (request_body own_at ip p m)"
    and "apart p k own_at 8 \<Longrightarrow> view m own_at 6 = mac6 mac \<Longrightarrow> view (request_body own_at ip p m) p 52
      = le32 0 @ le16 46 @ [0, 1, 8, 0, 6, 4, 0, 1] @ mac6 mac @ [0xc0, 0xa8, 1, 0x65] @ replicate 6 0 @ le32 ip
        @ drop 34 (view m p 52)"
proof -
  have b52: "unat p + 52 \<le> 2 ^ 32" using b by simp
  let ?m = "arpHeadT (p + 6) 0x0100 ip 0 (store32 (store16 m (p + 4) 46) p 0)"
  have o: "only_area p k m ?m" by (rule only_area_trans [OF head_view(3) [OF b] arpHeadT_view(2) [OF b]])
  show "only_area p k m (request_body own_at ip p m)"
    unfolding request_body_def stores_as_bytes(2) [of _ "p + 20"]
    by (intro area_steps(7) [OF _ b(1)] copy_steps(1) [OF _ b(1)] o) (use b in simp_all)
  assume a: "apart p k own_at 8" and v: "view m own_at 6 = mac6 mac"
  have l: "le32 0x6501a8c0 = [0xc0, 0xa8, 1, 0x65]" "le16 0x0100 = [0, 1]" by (simp_all add: le32_def le16_def drop_bit_eq_div)
  have "request_body own_at ip p m = store_bytes (le32 0x6501a8c0) (p + 20) (store_bytes (mac6 mac) (p + 14) ?m)"
    unfolding request_body_def stores_as_bytes(2) [of _ "p + 20"] using copy_params(1) [OF o b(1) _ a v] b by simp
  then show "view (request_body own_at ip p m) p 52
      = le32 0 @ le16 46 @ [0, 1, 8, 0, 6, 4, 0, 1] @ mac6 mac @ [0xc0, 0xa8, 1, 0x65] @ replicate 6 0 @ le32 ip
        @ drop 34 (view m p 52)"
    by (simp add: l view_put_arp [OF b52] arpHeadT_view(1) [OF b] head_view(1) [OF b] del: store_bytes.simps)
qed

lemma reply_view:
  assumes b: "unat p + k \<le> 2 ^ 32" "52 \<le> k"
  shows "only_area p k m (reply_body src_at dst_at sIP dIP p m)"
    and "apart p k src_at 8 \<Longrightarrow> apart p k dst_at 8 \<Longrightarrow> view m src_at 6 = mac6 sMAC \<Longrightarrow> view m dst_at 6 = mac6 dMAC
      \<Longrightarrow> view (reply_body src_at dst_at sIP dIP p m) p 52
      = le32 0 @ le16 46 @ [0, 1, 8, 0, 6, 4, 0, 2] @ mac6 sMAC @ le32 sIP @ mac6 dMAC @ le32 dIP
        @ drop 34 (view m p 52)"
proof -
  have b52: "unat p + 52 \<le> 2 ^ 32" using b by simp
  let ?m = "arpHeadT (p + 6) 0x0200 dIP sIP (store16 (store32 m p 0) (p + 4) 46)"
  have o: "only_area p k m ?m" by (rule only_area_trans [OF head_view(4) [OF b] arpHeadT_view(2) [OF b]])
  show "only_area p k m (reply_body src_at dst_at sIP dIP p m)"
    unfolding reply_body_def by (intro copy_steps [OF _ b(1)] o) (use b in simp_all)
  have o': "only_area p k m (copy_bytes 6 (p + 14) src_at ?m)" by (intro copy_steps [OF _ b(1)] o) (use b in simp_all)
  assume a: "apart p k src_at 8" "apart p k dst_at 8" and v: "view m src_at 6 = mac6 sMAC" "view m dst_at 6 = mac6 dMAC"
  have l: "le16 0x0200 = [0, 2]" by (simp add: le16_def drop_bit_eq_div)
  have "reply_body src_at dst_at sIP dIP p m = store_bytes (mac6 dMAC) (p + 24) (store_bytes (mac6 sMAC) (p + 14) ?m)"
    unfolding reply_body_def using copy_params(2) [OF o' b(1) _ a(2) v(2)] copy_params(1) [OF o b(1) _ a(1) v(1)] b by simp
  then show "view (reply_body src_at dst_at sIP dIP p m) p 52
      = le32 0 @ le16 46 @ [0, 1, 8, 0, 6, 4, 0, 2] @ mac6 sMAC @ le32 sIP @ mac6 dMAC @ le32 dIP
        @ drop 34 (view m p 52)"
    by (simp add: l view_put_arp [OF b52] arpHeadT_view(1) [OF b] head_view(2) [OF b] del: store_bytes.simps)
qed

text \<open>A new block, filled from memory that is not in it.\<close>

lemma fresh_body:
  assumes o: "heap_owns s H S" and f: "heap_fits s 54"
    and body: "\<And>p k m. unat p + k \<le> 2 ^ 32 \<Longrightarrow> 52 \<le> k \<Longrightarrow> only_area p k m (body p m)"
  shows "\<exists>p k s'. malloc 54 s = Some (p, s') \<and> (p, k) \<notin> H \<union> S \<and> 52 \<le> k \<and> unat p + k \<le> 2 ^ 32
    \<and> s'\<lparr>mem := body p (mem s')\<rparr> = s\<lparr>mem := body p (mem s')\<rparr>
    \<and> heap_owns (s\<lparr>mem := body p (mem s')\<rparr>) (insert (p, k) H) S
    \<and> same_areas (H \<union> S) (mem s) (body p (mem s'))
    \<and> (\<forall>q. (q, 8) \<in> S \<longrightarrow> apart p k q 8 \<and> view (mem s') q 6 = view (mem s) q 6)"
proof -
  have n: "unat (54 :: u32) = 54" by simp
  from heap.alloc_fill [OF o f, of body] body n obtain p k s' where
    a: "malloc 54 s = Some (p, s')" "54 \<le> k" "unat p + k \<le> 2 ^ 32" "(p, k) \<notin> H \<union> S" "s' = s\<lparr>mem := mem s'\<rparr>"
      "heap_owns (s'\<lparr>mem := body p (mem s')\<rparr>) (insert (p, k) H) S" "same_areas (H \<union> S) (mem s) (body p (mem s'))"
    by auto
  have e: "s'\<lparr>mem := body p (mem s')\<rparr> = s\<lparr>mem := body p (mem s')\<rparr>" by (rule mem_only(1) [OF a(5)])
  have ok: "areas_ok (insert (p, k) H \<union> S)" by (rule heap.areas [OF a(6)])
  have "apart p k q 8 \<and> view (mem s') q 6 = view (mem s) q 6" if q: "(q, 8) \<in> S" for q
  proof
    show ap: "apart p k q 8" by (rule areas_apart [OF ok]) (use q a(4) in auto)
    have "view (body p (mem s')) q 6 = view (mem s') q 6"
      by (rule view_apart [OF body [OF a(3)] apart_mono [OF ap]]) (use a(2) in simp_all)
    moreover have "view (body p (mem s')) q 6 = view (mem s) q 6"
      by (rule view_same [OF a(7) _ heap.areas [OF o]]) (use q in auto)
    ultimately show "view (mem s') q 6 = view (mem s) q 6" by simp
  qed
  with a e show ?thesis by (intro exI [of _ p] exI [of _ k] exI [of _ s']) simp
qed

section \<open>Properties\<close>

text \<open>
  \<open>ethSend\<close> of the earlier layer hands the driver one new message in front of the one it was
  given: next pointer and length, the destination and the station's address, each the low six
  bytes of its number, and the type with its low byte first; the length written into the same
  field is overwritten. Besides the new block only the memory of the parameter has changed.
\<close>

theorem ethSend802_frame:
  assumes "heap_owns s H S" and "(par_at, 8) \<in> S" and "heap_fits s 22"
  shows "\<exists>msg k t. ethSend802 nic par_at src mac type s = do { s \<leftarrow> neSend nic msg t; Some (0, s) }
    \<and> heap_owns t (insert (msg, k) H) S \<and> (msg, k) \<notin> H \<union> S \<and> 22 \<le> k
    \<and> same_areas (H \<union> S - {(par_at, 8)}) (mem s) (mem t)
    \<and> view (mem t) msg 20 = le32 src @ le16 14 @ mac6 mac @ mac6 (getNICMac s) @ le16 type"
proof -
  let ?R = "H \<union> S - {(par_at, 8)}"
  have pin: "(par_at, 8) \<in> H \<union> S" using assms(2) by simp
  have pb: "unat par_at + 8 \<le> 2 ^ 32" by (rule areas_bound [OF heap.areas [OF assms(1)] pin])
  define s0 where "s0 = s\<lparr>mem := store64 (mem s) par_at mac\<rparr>"
  note w0 = store64_area [OF pb, of "mem s" mac]
  have o0: "heap_owns s0 H S" "same_areas ?R (mem s) (mem s0)" "heap_fits s0 22" "view (mem s0) par_at 6 = mac6 mac"
    using heap.write_frame [OF assms(1) pin w0] heap.fits_write [OF assms(1) pin w0 assms(3)]
    by (simp_all add: s0_def view_store64)
  from heap.allocs [OF o0(1,3)] obtain p k s1 where a: "malloc 22 s0 = Some (p, s1)" "22 \<le> k"
    "(p, k) \<notin> H \<union> S" "s1 = s0\<lparr>mem := mem s1\<rparr>" "heap_owns s1 (insert (p, k) H) S"
    "same_areas (H \<union> S) (mem s0) (mem s1)" by auto
  have ok: "areas_ok (insert (p, k) H \<union> S)" by (rule heap.areas [OF a(5)])
  have b: "unat p + k \<le> 2 ^ 32" by (rule areas_bound [OF ok]) simp
  have ap: "apart p k par_at 8" by (rule areas_apart [OF ok]) (use assms(2) a(3) in auto)
  have v1: "view (mem s1) par_at 6 = mac6 mac"
    using view_same [OF a(6) pin heap.areas [OF o0(1)], of 6] o0(4) by simp
  define m1 where "m1 = head802 par_at src p (mem s1)"
  define m2 where "m2 = store64 m1 par_at (MAC s)"
  define m3 where "m3 = tail802 par_at src type p m2"
  note hd = head802_view [OF b a(2) ap v1, where src = src, folded m1_def]
  have v2: "view m2 par_at 6 = mac6 (MAC s)" by (simp add: m2_def view_store64)
  note tl = tail802_view [OF b a(2) ap v2, where src = src and type = type, folded m3_def]
  have ar: "only_area p k (mem s1) m1" "only_area par_at 8 m1 m2" "only_area p k m2 m3"
    using hd(2) tl(2) store64_area [OF pb] by (simp_all add: m2_def)
  have s1: "s1\<lparr>mem := m\<rparr> = s\<lparr>mem := m\<rparr>" "MAC s1 = MAC s" for m
    using mem_only(1,5) [OF a(4)] by (simp_all add: s0_def)
  have own: "heap_owns (s\<lparr>mem := m1\<rparr>) (insert (p, k) H) S"
    using heap.writes [OF a(5) _ ar(1)] by (simp add: s1)
  from heap.writes [OF this, of par_at 8 m2] have own: "heap_owns (s\<lparr>mem := m2\<rparr>) (insert (p, k) H) S"
    using pin ar(2) by simp
  from heap.writes [OF this, of p k m3] have own: "heap_owns (s\<lparr>mem := m3\<rparr>) (insert (p, k) H) S"
    using ar(3) by simp
  have sub: "?R \<subseteq> insert (p, k) H \<union> S - {(p, k)}" "?R \<subseteq> insert (p, k) H \<union> S - {(par_at, 8)}" using a(3) by auto
  have sm: "same_areas ?R m m'" if "only_area p k m m'" for m m'
    by (rule same_areas_mono [OF only_area_others [OF ok _ that] sub(1)]) simp
  have "same_areas ?R m1 m2"
    by (rule same_areas_mono [OF only_area_others [OF ok _ ar(2)] sub(2)]) (use pin in simp)
  with sm [OF ar(1)] sm [OF ar(3)] have "same_areas ?R (mem s1) m3" by (blast intro: same_areas_trans)
  moreover have "same_areas ?R (mem s) (mem s1)"
    by (rule same_areas_trans [OF o0(2) same_areas_mono [OF a(6)]]) auto
  ultimately have fr: "same_areas ?R (mem s) m3" by (rule same_areas_trans [rotated])
  have "apart par_at 8 p 20" by (rule apart_mono [OF apart_sym [OF ap]]) (use a(2) in simp_all)
  from view_apart [OF ar(2) this] have "view m3 p 20 = le32 src @ le16 14 @ mac6 mac @ mac6 (MAC s) @ le16 type"
    using hd(1) tl(1) by simp
  moreover have "ethSend802 nic par_at src mac type s = do { s \<leftarrow> neSend nic p (s\<lparr>mem := m3\<rparr>); Some (0, s) }"
    unfolding ethSend802_parts s0_def [symmetric] using a(1) by (simp add: s1 m3_def m2_def m1_def)
  ultimately show ?thesis
    using own fr a(2,3) by (intro exI [of _ p] exI [of _ k] exI [of _ "s\<lparr>mem := m3\<rparr>"]) (simp add: getNICMac_def)
qed

text \<open>
  C30: \<open>IPtoMac\<close> of the earlier layer broadcasts an ARP request. The message is a new block of 46
  bytes: the header with the operation 1 and the fixed sender address 192.168.1.101, followed by
  18 bytes the code does not set, which are whatever the block of the heap held before. The
  answer is not awaited; the result is zero.
\<close>

theorem IPtoMac_request:
  assumes "heap_owns s H S" and "(own_at, 8) \<in> S" and "heap_fits s 54"
  shows "\<exists>msg k t u. IPtoMac nic par_at own_at ip mac s
      = do { (r, s) \<leftarrow> ethSend802 nic par_at msg (- 1) ARP_TYPE t; Some (0, s) }
    \<and> malloc 54 (s\<lparr>mem := store64 (mem s) own_at mac\<rparr>) = Some (msg, u)
    \<and> heap_owns t (insert (msg, k) H) S \<and> (msg, k) \<notin> H \<union> S
    \<and> same_areas (H \<union> S - {(own_at, 8)}) (mem s) (mem t)
    \<and> view (mem t) msg 52 = le32 0 @ le16 46 @ [0, 1, 8, 0, 6, 4, 0, 1] @ mac6 mac @ [0xc0, 0xa8, 1, 0x65]
        @ replicate 6 0 @ le32 ip @ drop 34 (view (mem u) msg 52)"
proof -
  have pin: "(own_at, 8) \<in> H \<union> S" using assms(2) by simp
  have pb: "unat own_at + 8 \<le> 2 ^ 32" by (rule areas_bound [OF heap.areas [OF assms(1)] pin])
  define s0 where "s0 = s\<lparr>mem := store64 (mem s) own_at mac\<rparr>"
  note w0 = store64_area [OF pb, of "mem s" mac]
  have o0: "heap_owns s0 H S" "same_areas (H \<union> S - {(own_at, 8)}) (mem s) (mem s0)" "heap_fits s0 54"
    "view (mem s0) own_at 6 = mac6 mac"
    using heap.write_frame [OF assms(1) pin w0] heap.fits_write [OF assms(1) pin w0 assms(3)]
    by (simp_all add: s0_def view_store64)
  from fresh_body [OF o0(1,3) request_view(1)] obtain p k s1 where a: "malloc 54 s0 = Some (p, s1)"
    "(p, k) \<notin> H \<union> S" "52 \<le> k" "unat p + k \<le> 2 ^ 32"
    "s1\<lparr>mem := request_body own_at ip p (mem s1)\<rparr> = s0\<lparr>mem := request_body own_at ip p (mem s1)\<rparr>"
    "heap_owns (s0\<lparr>mem := request_body own_at ip p (mem s1)\<rparr>) (insert (p, k) H) S"
    "same_areas (H \<union> S) (mem s0) (request_body own_at ip p (mem s1))"
    "apart p k own_at 8" "view (mem s1) own_at 6 = mac6 mac" using assms(2) o0(4) by metis
  have "same_areas (H \<union> S - {(own_at, 8)}) (mem s) (request_body own_at ip p (mem s1))"
    by (rule same_areas_trans [OF o0(2) same_areas_mono [OF a(7)]]) auto
  moreover note request_view(2) [OF a(4,3,8,9), of ip]
  moreover have "IPtoMac nic par_at own_at ip mac s = do { (r, s) \<leftarrow> ethSend802 nic par_at p (- 1) ARP_TYPE
      (s0\<lparr>mem := request_body own_at ip p (mem s1)\<rparr>); Some (0, s) }"
    unfolding IPtoMac_parts s0_def [symmetric] using a(1,5) by simp
  ultimately show ?thesis
    using a(1,2,6) unfolding s0_def [symmetric]
    by (intro exI [of _ p] exI [of _ k] exI [of _ "s0\<lparr>mem := request_body own_at ip p (mem s1)\<rparr>"] exI [of _ s1]) simp
qed

text \<open>
  \<open>replayARP\<close> sends an ARP reply with the four addresses it is given in their fields, each
  hardware address being the low six bytes of its number. The reply is sent to \<open>dMAC\<close>, and its last 18
  bytes are again whatever the heap block held.
\<close>

theorem replayARP_reply:
  assumes "heap_owns s H S" and "(src_at, 8) \<in> S" and "(dst_at, 8) \<in> S" and "src_at \<noteq> dst_at"
    and "heap_fits s 54"
  shows "\<exists>msg k t u. replayARP nic par_at src_at dst_at sIP dIP sMAC dMAC s
      = do { (r, s) \<leftarrow> ethSend802 nic par_at msg dMAC ARP_TYPE t; Some s }
    \<and> malloc 54 (s\<lparr>mem := store64 (store64 (mem s) src_at sMAC) dst_at dMAC\<rparr>) = Some (msg, u)
    \<and> heap_owns t (insert (msg, k) H) S \<and> (msg, k) \<notin> H \<union> S
    \<and> same_areas (H \<union> S - {(src_at, 8), (dst_at, 8)}) (mem s) (mem t)
    \<and> view (mem t) msg 52 = le32 0 @ le16 46 @ [0, 1, 8, 0, 6, 4, 0, 2] @ mac6 sMAC @ le32 sIP @ mac6 dMAC
        @ le32 dIP @ drop 34 (view (mem u) msg 52)"
proof -
  let ?R = "H \<union> S - {(src_at, 8), (dst_at, 8)}"
  note ok = heap.areas [OF assms(1)]
  have ps: "(src_at, 8) \<in> H \<union> S" "(dst_at, 8) \<in> H \<union> S" using assms(2,3) by simp_all
  note bs = areas_bound [OF ok ps(1)] and bd = areas_bound [OF ok ps(2)]
  define sa where "sa = s\<lparr>mem := store64 (mem s) src_at sMAC\<rparr>"
  define s0 where "s0 = sa\<lparr>mem := store64 (mem sa) dst_at dMAC\<rparr>"
  note wa = store64_area [OF bs, of "mem s" sMAC] and wd = store64_area [OF bd, of "mem sa" dMAC]
  have oa: "heap_owns sa H S" "same_areas (H \<union> S - {(src_at, 8)}) (mem s) (mem sa)" "heap_fits sa 54"
    using heap.write_frame [OF assms(1) ps(1) wa] heap.fits_write [OF assms(1) ps(1) wa assms(5)]
    by (simp_all add: sa_def)
  have o0: "heap_owns s0 H S" "same_areas (H \<union> S - {(dst_at, 8)}) (mem sa) (mem s0)" "heap_fits s0 54"
    using heap.write_frame [OF oa(1) ps(2) wd] heap.fits_write [OF oa(1) ps(2) wd oa(3)]
    by (simp_all add: s0_def)
  have "apart dst_at 8 src_at 6"
    by (rule apart_mono [OF areas_apart [OF ok ps(2,1)]]) (use assms(4) in simp_all)
  from view_apart [OF wd this] have v: "view (mem s0) src_at 6 = mac6 sMAC" "view (mem s0) dst_at 6 = mac6 dMAC"
    by (simp_all add: s0_def sa_def view_store64)
  from fresh_body [OF o0(1,3), of "reply_body src_at dst_at sIP dIP", OF reply_view(1)] obtain p k s1 where a: "malloc 54 s0 = Some (p, s1)"
    "(p, k) \<notin> H \<union> S" "52 \<le> k" "unat p + k \<le> 2 ^ 32"
    "s1\<lparr>mem := reply_body src_at dst_at sIP dIP p (mem s1)\<rparr> = s0\<lparr>mem := reply_body src_at dst_at sIP dIP p (mem s1)\<rparr>"
    "heap_owns (s0\<lparr>mem := reply_body src_at dst_at sIP dIP p (mem s1)\<rparr>) (insert (p, k) H) S"
    "same_areas (H \<union> S) (mem s0) (reply_body src_at dst_at sIP dIP p (mem s1))"
    "apart p k src_at 8" "apart p k dst_at 8" "view (mem s1) src_at 6 = mac6 sMAC" "view (mem s1) dst_at 6 = mac6 dMAC"
    using assms(2,3) v by metis
  have "same_areas ?R (mem s) (mem s0)"
    by (rule same_areas_trans [OF same_areas_mono [OF oa(2)] same_areas_mono [OF o0(2)]]) auto
  then have "same_areas ?R (mem s) (reply_body src_at dst_at sIP dIP p (mem s1))"
    by (rule same_areas_trans [OF _ same_areas_mono [OF a(7)]]) auto
  moreover note reply_view(2) [OF a(4,3,8-11), of sIP dIP]
  moreover have s0: "s0 = s\<lparr>mem := store64 (store64 (mem s) src_at sMAC) dst_at dMAC\<rparr>" by (simp add: s0_def sa_def)
  have "replayARP nic par_at src_at dst_at sIP dIP sMAC dMAC s = do { (r, s) \<leftarrow> ethSend802 nic par_at p dMAC ARP_TYPE
      (s0\<lparr>mem := reply_body src_at dst_at sIP dIP p (mem s1)\<rparr>); Some s }"
    unfolding replayARP_parts s0 [symmetric] using a(1,5) by simp
  ultimately show ?thesis
    using a(1,2,6) unfolding s0 [symmetric]
    by (intro exI [of _ p] exI [of _ k] exI [of _ "s0\<lparr>mem := reply_body src_at dst_at sIP dIP p (mem s1)\<rparr>"] exI [of _ s1]) simp
qed

section \<open>Witnesses\<close>

lemma queue_machine_params: "heap_owns queue_machine {(0x400010, 100)} {(0x7000, 8), (0x7020, 8)}"
proof -
  have "heap_owns block_machine {(0x400010, 100)} {(0x7000, 8), (0x7020, 8)}"
    unfolding heap_owns_def
    by (intro exI [of _ "[0x400074]"] exI [of _ "{0x400000}"])
      (simp add: block_machine_ok payload_def block_machine_fields sizeof_mlT_def areas_ok_def clear_of_def
        apart_def ext_def)
  then show ?thesis by (rule heap.others) (simp_all add: block_machine_fields)
qed

theorem ethSend802_frame_witness:
  "\<exists>msg t. ethSend802 (\<lambda>_ _. 0x40) 0x7000 0x5000 (- 1) ARP_TYPE queue_machine
      = do { s \<leftarrow> neSend (\<lambda>_ _. 0x40) msg t; Some (0, s) }
    \<and> drop 6 (view (mem t) msg 20) = replicate 6 0xFF @ mac6 (MAC queue_machine) @ [8, 6]"
proof -
  have "heap_fits queue_machine 22" by (rule queue_machine_fits) simp_all
  from ethSend802_frame [OF queue_machine_params _ this, of "0x7000" "\<lambda>_ _. 0x40" "0x5000" "- 1" ARP_TYPE]
  obtain msg t where "ethSend802 (\<lambda>_ _. 0x40) 0x7000 0x5000 (- 1) ARP_TYPE queue_machine
      = do { s \<leftarrow> neSend (\<lambda>_ _. 0x40) msg t; Some (0, s) }"
    "view (mem t) msg 20 = le32 0x5000 @ le16 14 @ mac6 (- 1) @ mac6 (getNICMac queue_machine) @ le16 ARP_TYPE" by auto
  moreover have "mac6 (- 1) = replicate 6 0xFF" "le16 ARP_TYPE = [8, 6]" by (code_simp, code_simp)
  ultimately show ?thesis by (intro exI [of _ msg] exI [of _ t]) (simp add: getNICMac_def)
qed

theorem IPtoMac_request_witness:
  "\<exists>msg t. IPtoMac (\<lambda>_ _. 0x40) 0x7020 0x7000 0x0100a8c0 0 queue_machine
      = do { (r, s) \<leftarrow> ethSend802 (\<lambda>_ _. 0x40) 0x7020 msg (- 1) ARP_TYPE t; Some (0, s) }
    \<and> take 4 (drop 30 (view (mem t) msg 52)) = [192, 168, 0, 1]"
proof -
  have f: "heap_fits queue_machine 54" and o: "(0x7000, 8) \<in> {(0x7000 :: u32, 8), (0x7020, 8 :: nat)}"
    by (rule queue_machine_fits) simp_all
  have l: "le32 0x0100a8c0 = [192, 168, 0, 1]" by code_simp
  from IPtoMac_request [OF queue_machine_params o f, of "\<lambda>_ _. 0x40" "0x7020" "0x0100a8c0" 0] show ?thesis
  proof (elim exE conjE)
    fix msg k t u
    assume r: "IPtoMac (\<lambda>_ _. 0x40) 0x7020 0x7000 0x0100a8c0 0 queue_machine
        = do { (r, s) \<leftarrow> ethSend802 (\<lambda>_ _. 0x40) 0x7020 msg (- 1) ARP_TYPE t; Some (0, s) }"
      and v: "view (mem t) msg 52 = le32 0 @ le16 46 @ [0, 1, 8, 0, 6, 4, 0, 1] @ mac6 0 @ [0xc0, 0xa8, 1, 0x65]
        @ replicate 6 0 @ le32 0x0100a8c0 @ drop 34 (view (mem u) msg 52)"
    show ?thesis by (rule exI [of _ msg], rule exI [of _ t], rule conjI [OF r]) (simp add: v l)
  qed
qed

theorem replayARP_reply_witness:
  "\<exists>msg t. replayARP (\<lambda>_ _. 0x40) 0x5000 0x7000 0x7020 1 2 3 4 queue_machine
      = do { (r, s) \<leftarrow> ethSend802 (\<lambda>_ _. 0x40) 0x5000 msg 4 ARP_TYPE t; Some s }
    \<and> take 6 (drop 24 (view (mem t) msg 52)) = [4, 0, 0, 0, 0, 0]"
proof -
  have f: "heap_fits queue_machine 54" and o: "(0x7000, 8) \<in> {(0x7000 :: u32, 8), (0x7020, 8 :: nat)}"
    "(0x7020, 8) \<in> {(0x7000 :: u32, 8), (0x7020, 8 :: nat)}" "(0x7000 :: u32) \<noteq> 0x7020"
    by (rule queue_machine_fits) simp_all
  have l: "mac6 4 = [4, 0, 0, 0, 0, 0]" by code_simp
  from replayARP_reply [OF queue_machine_params o f, of "\<lambda>_ _. 0x40" "0x5000" 1 2 3 4] show ?thesis
  proof (elim exE conjE)
    fix msg k t u
    assume r: "replayARP (\<lambda>_ _. 0x40) 0x5000 0x7000 0x7020 1 2 3 4 queue_machine
        = do { (r, s) \<leftarrow> ethSend802 (\<lambda>_ _. 0x40) 0x5000 msg 4 ARP_TYPE t; Some s }"
      and v: "view (mem t) msg 52 = le32 0 @ le16 46 @ [0, 1, 8, 0, 6, 4, 0, 2] @ mac6 3 @ le32 1 @ mac6 4
        @ le32 2 @ drop 34 (view (mem u) msg 52)"
    show ?thesis by (rule exI [of _ msg], rule exI [of _ t], rule conjI [OF r]) (simp add: v l)
  qed
qed

end
