(* ===== verification/Boot.thy ===== *)
theory Boot
  imports Trap
begin

text \<open>
  The segment descriptors of \<open>include/x86/section.h\<close>, and \<open>x86/setup.S\<close>, the first code of the
  kernel to run: it programs the two interrupt controllers, copies the descriptor table to
  \<open>0x101000\<close> and loads the segments that \<open>kernel/trap.c\<close> names in its gates.
\<close>

unbundle bit_operations_syntax

section \<open>The code\<close>

text \<open>Attributes of code segments, data segments and task states, and the rings.\<close>

definition CODE_READ :: u16 where "CODE_READ = 0x009a"
definition CODE_C :: u16 where "CODE_C = 0x009c"
definition CODE_G :: u16 where "CODE_G = 0x8098"
definition CODE_D :: u16 where "CODE_D = 0x4098"
definition DATA_WRITE :: u16 where "DATA_WRITE = 0x0092"
definition DATA_E :: u16 where "DATA_E = 0x0094"
definition DATA_G :: u16 where "DATA_G = 0x8090"
definition DATA_B :: u16 where "DATA_B = 0x4090"
definition TSS_G :: u16 where "TSS_G = 0x8089"
definition TSS :: u16 where "TSS = 0x0089"
definition R0 :: u16 where "R0 = 0x0000"
definition R1 :: u16 where "R1 = 0x0020"
definition R2 :: u16 where "R2 = 0x0040"
definition R3 :: u16 where "R3 = 0x0060"

text \<open>The assembler's \<open>.short\<close> and \<open>.byte\<close>.\<close>

definition short :: "u32 \<Rightarrow> u8 list" where "short v = [ucast v, ucast (drop_bit 8 v)]"
definition byte :: "u32 \<Rightarrow> u8 list" where "byte v = [ucast v]"

definition CreateSection :: "u32 \<Rightarrow> u32 \<Rightarrow> u16 \<Rightarrow> u8 list" where
  "CreateSection base limit attr =
     short (limit AND 0xffff)
     @ short (base AND 0xffff)
     @ byte (drop_bit 16 base AND 0xff)
     @ short (ucast attr OR (drop_bit 8 limit AND 0x0f00))
     @ byte (drop_bit 24 base AND 0xff)"

definition gdt_start :: "u8 list" where
  "gdt_start =
     CreateSection 0xAA 0 0xBB
     @ CreateSection 0x00000 0xFFFFF (CODE_READ OR CODE_D OR CODE_G)
     @ CreateSection 0x0 0xFFFFF (DATA_WRITE OR DATA_G OR R0 OR DATA_B)
     @ CreateSection 0x00000 0xFFFFF (CODE_READ OR CODE_D OR CODE_G OR R3)
     @ CreateSection 0x0 0xFFFFF (DATA_WRITE OR DATA_G OR R3 OR DATA_B)
     @ CreateSection 0x100800 0x100 (TSS OR R3)"

text \<open>\<open>rep movsl\<close> of a quarter of the length, in words of four bytes.\<close>

definition copy_gdt :: "mem \<Rightarrow> mem" where
  "copy_gdt m = fold (\<lambda>j m. m(0x101000 + of_nat j := gdt_start ! j)) [0..<4 * (length gdt_start div 4)] m"

text \<open>From \<open>start\<close> to the call of \<open>cmain\<close>.\<close>

definition boot_start :: "machine \<Rightarrow> machine" where
  "boot_start s =
     (let s = cli s;
          s = outb 0x11 0x20 s; s = outb 0x11 0xa0 s;
          s = outb 0x20 0x21 s; s = outb 0x28 0xa1 s;
          s = outb 0x04 0x21 s; s = outb 0x2 0xa1 s;
          s = outb 0x1 0x21 s; s = outb 0x1 0xa1 s;
          s = outb 0xFF 0x21 s; s = outb 0xFF 0xa1 s
      in s\<lparr>mem := copy_gdt (mem s)\<rparr>)"

text \<open>
  The header the boot loader looks for, its flags with the memory map wanted. In the assembler's
  expressions shifts and \<open>|\<close> bind before \<open>+\<close>.
\<close>

definition MULTIBOOT_HEADER_MAGIC :: u32 where "MULTIBOOT_HEADER_MAGIC = 0x1BADB002"
definition MULTIBOOT_HEADER_MMAP :: u32 where "MULTIBOOT_HEADER_MMAP = push_bit 1 0x1"
definition MULTIBOOT_HEADER_FLAGS :: u32 where
  "MULTIBOOT_HEADER_FLAGS = 0x00000003 OR MULTIBOOT_HEADER_MMAP"

definition multiboot_header :: "u32 list" where
  "multiboot_header =
     [MULTIBOOT_HEADER_MAGIC, MULTIBOOT_HEADER_FLAGS, - (MULTIBOOT_HEADER_MAGIC + MULTIBOOT_HEADER_FLAGS)]"

section \<open>What the processor reads from a descriptor\<close>

definition seg_base :: "u8 list \<Rightarrow> u32" where
  "seg_base d = push_bit 24 (ucast (d ! 7)) OR push_bit 16 (ucast (d ! 4)) OR push_bit 8 (ucast (d ! 3)) OR ucast (d ! 2)"

definition seg_limit :: "u8 list \<Rightarrow> u32" where
  "seg_limit d = push_bit 16 (ucast (d ! 6 AND 0x0f)) OR push_bit 8 (ucast (d ! 1)) OR ucast (d ! 0)"

definition seg_attr :: "u8 list \<Rightarrow> u16" where
  "seg_attr d = push_bit 8 (ucast (d ! 6 AND 0xf0)) OR ucast (d ! 5)"

text \<open>
  The descriptor a selector names, and the last address of its segment: limits count pages where
  the granularity bit is set.
\<close>

definition descriptor :: "mem \<Rightarrow> u32 \<Rightarrow> u8 list" where
  "descriptor m sel = map (\<lambda>j. m (0x101000 + (sel AND 0xfff8) + of_nat j)) [0..<8]"

definition seg_last :: "u8 list \<Rightarrow> u32" where
  "seg_last d = (if seg_attr d AND 0x8000 = 0 then seg_limit d else push_bit 12 (seg_limit d) OR 0xfff)"

lemma section_bytes:
  "CreateSection base limit attr =
     [ucast limit, ucast (drop_bit 8 limit), ucast base, ucast (drop_bit 8 base), ucast (drop_bit 16 base),
      ucast attr, ucast (drop_bit 8 attr) OR (ucast (drop_bit 16 limit) AND 0x0f), ucast (drop_bit 24 base)]"
proof -
  have m: "(0xffff :: u32) = mask 16" "(0xff :: u32) = mask 8" "(0x0f :: u8) = mask 4"
    "(0x0f00 :: u32) = push_bit 8 (mask 4)" by (simp_all add: mask_eq_exp_minus_1 push_bit_eq_mult)
  have "ucast (limit AND mask 16) = (ucast limit :: u8)" "ucast (base AND mask 16) = (ucast base :: u8)"
    "ucast (drop_bit 8 (limit AND mask 16)) = (ucast (drop_bit 8 limit) :: u8)"
    "ucast (drop_bit 8 (base AND mask 16)) = (ucast (drop_bit 8 base) :: u8)"
    "ucast (drop_bit 16 base AND mask 8) = (ucast (drop_bit 16 base) :: u8)"
    "ucast (drop_bit 24 base AND mask 8) = (ucast (drop_bit 24 base) :: u8)"
    "ucast (ucast attr OR (drop_bit 8 limit AND push_bit 8 (mask 4)) :: u32) = (ucast attr :: u8)"
    "ucast (drop_bit 8 (ucast attr OR (drop_bit 8 limit AND push_bit 8 (mask 4)) :: u32))
      = (ucast (drop_bit 8 attr) OR (ucast (drop_bit 16 limit) AND mask 4) :: u8)"
    by (rule bit_word_eqI; auto simp: bit_simps)+
  then show ?thesis unfolding CreateSection_def short_def byte_def m by simp
qed

section \<open>The table after the boot code\<close>

lemma gdt_length: "length gdt_start = 48"
  by (simp add: gdt_start_def section_bytes)

lemma gdt_address:
  assumes "i < 48"
  shows "unat (0x101000 + of_nat i :: u32) = 0x101000 + i"
  using unat_add_nat [of "0x101000" i] assms by simp

lemma copy_gdt_byte:
  assumes "j < 48"
  shows "copy_gdt m (0x101000 + of_nat j) = gdt_start ! j"
proof -
  have "fold (\<lambda>j m. m(0x101000 + of_nat j := gdt_start ! j)) [0..<n] m (0x101000 + of_nat j)
      = (if j < n then gdt_start ! j else m (0x101000 + of_nat j))" if "n \<le> 48" for n
    using that
  proof (induction n)
    case (Suc n)
    have "(0x101000 + of_nat j :: u32) = 0x101000 + of_nat n \<longleftrightarrow> j = n"
      unfolding word_unat_eq_iff using gdt_address [OF assms] gdt_address [of n] Suc.prems by simp
    then show ?case using Suc by (simp add: less_Suc_eq)
  qed simp
  from this [of 48] show ?thesis using assms by (simp add: copy_gdt_def gdt_length)
qed

lemma boot_descriptor:
  assumes "sel AND 0xfff8 = of_nat (8 * i)" and "i < 6"
  shows "descriptor (mem (boot_start s)) sel = take 8 (drop (8 * i) gdt_start)"
proof (rule nth_equalityI)
  show "length (descriptor (mem (boot_start s)) sel) = length (take 8 (drop (8 * i) gdt_start))"
    using assms(2) by (simp add: descriptor_def gdt_length)
  fix j
  assume "j < length (descriptor (mem (boot_start s)) sel)"
  then have j: "j < 8" by (simp add: descriptor_def)
  then have "copy_gdt (mem s) (0x101000 + of_nat (8 * i + j)) = gdt_start ! (8 * i + j)"
    by (intro copy_gdt_byte) (use assms(2) in simp)
  moreover have "mem (boot_start s) = copy_gdt (mem s)" by (simp add: boot_start_def Let_def cli_def outb_def)
  ultimately show "descriptor (mem (boot_start s)) sel ! j = take 8 (drop (8 * i) gdt_start) ! j"
    using j assms(2) by (simp add: descriptor_def gdt_length assms(1) add.assoc)
qed

lemma flags:
  "CODE_READ OR CODE_D OR CODE_G = 0xC09A" "DATA_WRITE OR DATA_G OR R0 OR DATA_B = 0xC092"
  "CODE_READ OR CODE_D OR CODE_G OR R3 = 0xC0FA" "DATA_WRITE OR DATA_G OR R3 OR DATA_B = 0xC0F2"
  "TSS OR R3 = 0x00E9"
  by code_simp+

lemma seg_decode:
  assumes "limit < 0x100000" and "attr AND 0x0f00 = 0"
  shows "seg_base (CreateSection base limit attr) = base" and "seg_limit (CreateSection base limit attr) = limit"
    and "seg_attr (CreateSection base limit attr) = attr"
proof -
  have m: "(0x0f :: u8) = mask 4" "(0xf0 :: u8) = push_bit 4 (mask 4)" "(0x0f00 :: u16) = push_bit 8 (mask 4)"
    by (simp_all add: mask_eq_exp_minus_1 push_bit_eq_mult)
  show "seg_base (CreateSection base limit attr) = base"
  proof (rule bit_word_eqI)
    fix n
    assume n: "n < LENGTH(32)"
    consider "n < 8" | "8 \<le> n \<and> n < 16" | "16 \<le> n \<and> n < 24" | "24 \<le> n" by linarith
    then show "bit (seg_base (CreateSection base limit attr)) n = bit base n"
      unfolding seg_base_def section_bytes using n by cases (auto simp: bit_simps nth_Cons')
  qed
  have "limit = take_bit 20 limit"
    using assms(1) by (simp add: word_less_nat_alt word_unat_eq_iff unsigned_take_bit_eq take_bit_nat_eq_self)
  then have l: "\<not> bit limit n" if "20 \<le> n" for n using that by (metis bit_take_bit_iff not_less)
  have a: "\<not> bit attr n" if "8 \<le> n" "n < 12" for n
  proof -
    have "\<not> bit (attr AND push_bit 8 (mask 4)) n" using assms(2) by (simp add: m)
    then show ?thesis using that by (auto simp: bit_simps)
  qed
  show "seg_limit (CreateSection base limit attr) = limit"
  proof (rule bit_word_eqI)
    fix n
    assume n: "n < LENGTH(32)"
    consider "n < 8" | "8 \<le> n \<and> n < 16" | "16 \<le> n \<and> n < 20" | "20 \<le> n" by linarith
    then show "bit (seg_limit (CreateSection base limit attr)) n = bit limit n"
      unfolding seg_limit_def section_bytes m using n l [of n] a [of "n - 8"]
      by cases (auto simp: bit_simps nth_Cons' a)
  qed
  show "seg_attr (CreateSection base limit attr) = attr"
  proof (rule bit_word_eqI)
    fix n
    assume n: "n < LENGTH(16)"
    consider "n < 8" | "8 \<le> n \<and> n < 12" | "12 \<le> n" by linarith
    then show "bit (seg_attr (CreateSection base limit attr)) n = bit attr n"
      unfolding seg_attr_def section_bytes m using n a [of n]
      by cases (auto simp: bit_simps nth_Cons')
  qed
qed

lemma gdt_section:
  "take 8 (drop (8 * 1) gdt_start) = CreateSection 0 0xFFFFF 0xC09A"
  "take 8 (drop (8 * 2) gdt_start) = CreateSection 0 0xFFFFF 0xC092"
  "take 8 (drop (8 * 3) gdt_start) = CreateSection 0 0xFFFFF 0xC0FA"
  "take 8 (drop (8 * 4) gdt_start) = CreateSection 0 0xFFFFF 0xC0F2"
  by (simp_all only: gdt_start_def flags) (simp_all add: section_bytes)

text \<open>The descriptor of a flat four-gigabyte segment with the given attributes.\<close>

definition flat_segment :: "u8 list \<Rightarrow> u16 \<Rightarrow> bool" where
  "flat_segment d attr \<longleftrightarrow> seg_base d = 0 \<and> seg_last d = 0xFFFFFFFF \<and> seg_attr d = attr"

lemma flat_section:
  assumes "attr AND 0x0f00 = 0" and "attr AND 0x8000 \<noteq> 0"
  shows "flat_segment (CreateSection 0 0xFFFFF attr) attr"
  using seg_decode [of "0xFFFFF" attr 0] assms by (simp add: flat_segment_def seg_last_def push_bit_eq_mult)

lemma copy_gdt_other:
  assumes "\<not> in_range 0x101000 48 a"
  shows "copy_gdt m a = m a"
proof -
  have "fold (\<lambda>j m. m(0x101000 + of_nat j := gdt_start ! j)) [0..<n] m a = m a" if "n \<le> 48" for n
    using that
  proof (induction n)
    case (Suc n)
    have "a \<noteq> 0x101000 + of_nat n"
      using assms gdt_address [of n] Suc.prems by (auto simp: in_range_def)
    then show ?case using Suc by simp
  qed simp
  from this [of 48] show ?thesis by (simp add: copy_gdt_def gdt_length)
qed

text \<open>
  What a boot loader checks: the three words add up to zero, and the flags ask for aligned modules
  and for the memory information \<open>cmain\<close> relies on.
\<close>

lemma multiboot_header_accepted:
  "fold (+) multiboot_header 0 = 0" "multiboot_header ! 0 = 0x1BADB002" "multiboot_header ! 1 AND 2 \<noteq> 0"
  by (simp_all add: multiboot_header_def MULTIBOOT_HEADER_MAGIC_def MULTIBOOT_HEADER_FLAGS_def MULTIBOOT_HEADER_MMAP_def)

section \<open>Properties\<close>

text \<open>
  C26: a descriptor the macro builds is read back by the processor as the base, limit and
  attributes given, for limits of 20 bits and attributes that leave the four bits between them
  clear; the limit bits above 16 are indeed moved by eight places only, as a comment in the file
  says.
\<close>

theorem section_roundtrip:
  assumes "limit < 0x100000" and "attr AND 0x0f00 = 0"
  shows "length (CreateSection base limit attr) = 8 \<and> seg_base (CreateSection base limit attr) = base
    \<and> seg_limit (CreateSection base limit attr) = limit \<and> seg_attr (CreateSection base limit attr) = attr"
  using seg_decode [OF assms] by (simp add: section_bytes)

theorem section_roundtrip_witness:
  shows "seg_base (CreateSection 0x100800 0x100 0x00E9) = 0x100800"
  using section_roundtrip [of "0x100" "0x00E9" "0x100800"] by simp

text \<open>
  C24: the segments after the boot code. The selector every gate of the kernel names is a readable
  code segment of ring 0, and the one it loads into the data registers a writable data segment
  of ring 0, both from address zero over all four gigabytes; the selectors of ring 3 name the
  same for user code. All external interrupts are masked, with vectors from 32 on, and nothing
  but the 48 bytes of the table has been written.
\<close>

theorem boot_segments:
  shows "flat_segment (descriptor (mem (boot_start s)) KER_CODE_SEC) 0xC09A
    \<and> flat_segment (descriptor (mem (boot_start s)) 0x10) 0xC092
    \<and> flat_segment (descriptor (mem (boot_start s)) 0x1b) 0xC0FA
    \<and> flat_segment (descriptor (mem (boot_start s)) 0x23) 0xC0F2
    \<and> drop (length (io s) + 9) (io (boot_start s)) = [OutB 0x21 0xFF, OutB 0xa1 0xFF]
    \<and> (\<forall>a. \<not> in_range 0x101000 48 a \<longrightarrow> mem (boot_start s) a = mem s a)"
proof (intro conjI allI impI)
  show "flat_segment (descriptor (mem (boot_start s)) KER_CODE_SEC) 0xC09A"
    by (subst boot_descriptor [where i = 1]) (simp_all only: gdt_section KER_CODE_SEC_def, simp_all add: flat_section)
  show "flat_segment (descriptor (mem (boot_start s)) 0x10) 0xC092"
    by (subst boot_descriptor [where i = 2]) (simp_all only: gdt_section, simp_all add: flat_section)
  show "flat_segment (descriptor (mem (boot_start s)) 0x1b) 0xC0FA"
    by (subst boot_descriptor [where i = 3]) (simp_all only: gdt_section, simp_all add: flat_section)
  show "flat_segment (descriptor (mem (boot_start s)) 0x23) 0xC0F2"
    by (subst boot_descriptor [where i = 4]) (simp_all only: gdt_section, simp_all add: flat_section)
  show "drop (length (io s) + 9) (io (boot_start s)) = [OutB 0x21 0xFF, OutB 0xa1 0xFF]"
    by (simp add: boot_start_def outb_def cli_def Let_def)
  fix a
  assume "\<not> in_range 0x101000 48 a"
  then show "mem (boot_start s) a = mem s a"
    by (simp add: boot_start_def outb_def cli_def Let_def copy_gdt_other)
qed

theorem boot_segments_witness:
  "let s = boot_start (boot_machine (\<lambda>_. 7) 0x310000)
   in flat_segment (descriptor (mem s) 0x10) 0xC092 \<and> mem s 0x101030 = 7"
  using boot_segments [of "boot_machine (\<lambda>_. 7) 0x310000"]
  by (simp add: Let_def boot_machine_def in_range_def)

end
