(* ===== verification/Stubs.thy ===== *)
theory Stubs
  imports Kernel Boot
begin

text \<open>
  The assembly entry points of \<open>kernel/int.S\<close> and \<open>move_user_mode\<close> of \<open>include/x86/system.h\<close>:
  the instructions they use on the registers, the stack in memory and the interrupt return, the
  stubs instruction by instruction, and what the processor does before it enters one. The C
  functions they call are those of the model; what their stack frames leave behind is a parameter.
\<close>

unbundle bit_operations_syntax

section \<open>Registers and instructions\<close>

datatype reg = EAX | ECX | EDX | EBX | ESI | EDI | EBP
datatype seg = DS | ES | FS | GS

text \<open>\<open>KEN_MODE\<close> is a variable of \<open>int.S\<close>.\<close>

record cpu =
  reg :: "reg \<Rightarrow> u32"
  seg :: "seg \<Rightarrow> u16"
  esp :: u32
  ss :: u16
  eip :: u32
  cs :: u16
  eflags :: u32
  CR2 :: u32
  KEN_MODE :: u32
  sys :: machine

datatype instr =
    Push u32
  | PushR reg
  | PushS seg
  | Pushf
  | PopR reg
  | PopS seg
  | Xchg reg nat        \<comment> \<open>with the word so far above \<open>esp\<close>\<close>
  | Lea nat reg
  | AddEsp nat
  | Mov u32 reg
  | MovS reg seg
  | MovCR2 reg
  | MovKen reg
  | LoadTop reg         \<comment> \<open>\<open>mov (%esp),reg\<close>\<close>
  | StoreTop reg        \<comment> \<open>\<open>mov reg,(%esp)\<close>\<close>
  | OrI u32 reg
  | Iret

definition push :: "u32 \<Rightarrow> cpu \<Rightarrow> cpu" where
  "push v c = c\<lparr>esp := esp c - 4, sys := put32 (esp c - 4) v (sys c)\<rparr>"

definition pop :: "cpu \<Rightarrow> u32 \<times> cpu" where
  "pop c = (get32 (sys c) (esp c), c\<lparr>esp := esp c + 4\<rparr>)"

text \<open>
  A selector pushed takes a word. The interrupt return to a less privileged ring also takes the
  stack from the stack. The arithmetic flags, which the interrupt return restores, are left out.
\<close>

fun exec :: "instr \<Rightarrow> cpu \<Rightarrow> cpu" where
  "exec (Push v) c = push v c"
| "exec (PushR r) c = push (reg c r) c"
| "exec (PushS r) c = push (ucast (seg c r)) c"
| "exec Pushf c = push (eflags c) c"
| "exec (PopR r) c = (let (v, c) = pop c in c\<lparr>reg := (reg c)(r := v)\<rparr>)"
| "exec (PopS r) c = (let (v, c) = pop c in c\<lparr>seg := (seg c)(r := ucast v)\<rparr>)"
| "exec (Xchg r i) c =
     (let a = esp c + of_nat i; v = get32 (sys c) a
      in c\<lparr>sys := put32 a (reg c r) (sys c), reg := (reg c)(r := v)\<rparr>)"
| "exec (Lea i r) c = c\<lparr>reg := (reg c)(r := esp c + of_nat i)\<rparr>"
| "exec (AddEsp i) c = c\<lparr>esp := esp c + of_nat i\<rparr>"
| "exec (Mov v r) c = c\<lparr>reg := (reg c)(r := v)\<rparr>"
| "exec (MovS r g) c = c\<lparr>seg := (seg c)(g := ucast (reg c r))\<rparr>"
| "exec (MovCR2 r) c = c\<lparr>reg := (reg c)(r := CR2 c)\<rparr>"
| "exec (MovKen r) c = c\<lparr>KEN_MODE := reg c r\<rparr>"
| "exec (LoadTop r) c = c\<lparr>reg := (reg c)(r := get32 (sys c) (esp c))\<rparr>"
| "exec (StoreTop r) c = c\<lparr>sys := put32 (esp c) (reg c r) (sys c)\<rparr>"
| "exec (OrI v r) c = c\<lparr>reg := (reg c)(r := reg c r OR v)\<rparr>"
| "exec Iret c =
     (let (ip, c) = pop c; (sel, c) = pop c; (fl, c) = pop c; old = cs c;
          c = c\<lparr>eip := ip, cs := ucast sel, eflags := fl\<rparr>
      in if old AND 3 < ucast sel AND 3
         then let (sp, c) = pop c; (st, c) = pop c in c\<lparr>esp := sp, ss := ucast st\<rparr>
         else c)"

definition run :: "instr list \<Rightarrow> cpu \<Rightarrow> cpu" where
  "run is c = fold exec is c"

text \<open>
  An interrupt in the kernel: the processor pushes the flags, the code segment, the address of
  the next instruction and, for some exceptions, an error code, then takes the gate of the
  vector, which clears the interrupt flag unless it is a trap gate.
\<close>

definition deliver :: "u32 \<Rightarrow> u32 option \<Rightarrow> cpu \<Rightarrow> cpu" where
  "deliver v err c =
     (let (off, sel, att) = gate_at (mem (sys c)) v;
          c = push (eip c) (push (ucast (cs c)) (push (eflags c) c));
          c = (case err of None \<Rightarrow> c | Some e \<Rightarrow> push e c)
      in c\<lparr>eip := off, cs := sel,
           eflags := (if att AND 0x0100 = 0 then eflags c AND NOT 0x200 else eflags c)\<rparr>)"

section \<open>The code\<close>

definition KER_DATA_SEC :: u32 where "KER_DATA_SEC = 0x10"

text \<open>
  The C functions the stubs call: their addresses, which the linker chooses, the addresses in the
  network code, and what the compiler decides: what a call leaves in \<open>eax\<close>, \<open>ecx\<close> and \<open>edx\<close>, how
  many bytes of stack the return address and the frames of the function take, what they leave there and
  in the words of the arguments, and the uninitialised variables of \<open>do_wp_page\<close>.
\<close>

record c_env =
  nop_at :: u32
  print_error_at :: u32
  neISR_at :: u32
  net :: net_env
  scratch :: "cpu \<Rightarrow> reg \<Rightarrow> u32"
  frame :: nat
  left :: "cpu \<Rightarrow> mem"
  junk1 :: "cpu \<Rightarrow> u32"
  junk2 :: "cpu \<Rightarrow> u32"

text \<open>The return from a function with \<open>n\<close> words of arguments that left the machine \<open>s\<close>.\<close>

definition c_returns :: "c_env \<Rightarrow> nat \<Rightarrow> machine \<Rightarrow> cpu \<Rightarrow> cpu" where
  "c_returns E n s c =
     c\<lparr>sys := s\<lparr>mem := \<lambda>a. if in_range (esp c - of_nat (frame E)) (frame E + 4 * n) a then left E c a else mem s a\<rparr>,
       reg := (reg c)(EAX := scratch E c EAX, ECX := scratch E c ECX, EDX := scratch E c EDX)\<rparr>"

text \<open>
  A call through a register. \<open>nop\<close> and \<open>print_error\<close> are empty functions; \<open>print_error\<close> has one
  argument, the others have none.
\<close>

definition call_c :: "c_env \<Rightarrow> u32 \<Rightarrow> cpu \<Rightarrow> cpu option" where
  "call_c E f c =
     (if f = nop_at E then Some (c_returns E 0 (sys c) c)
      else if f = print_error_at E then Some (c_returns E 1 (sys c) c)
      else if f = neISR_at E then do { s \<leftarrow> neISR (net E) (sys c); Some (c_returns E 0 s c) }
      else None)"

definition no_error_code :: "c_env \<Rightarrow> cpu \<Rightarrow> cpu option" where
  "no_error_code E c =
     do { let c = run [Xchg EAX 0, PushR ECX, PushR EDX, PushS DS, PushS ES, PushS GS, PushS FS,
                       Mov KER_DATA_SEC EDX, MovS EDX DS, MovS EDX ES, MovS EDX GS, MovS EDX FS] c;
          c \<leftarrow> call_c E (reg c EAX) c;
          Some (run [PopS FS, PopS GS, PopS ES, PopS DS, PopR EDX, PopR ECX, PopR EAX, Iret] c) }"

definition error_code :: "c_env \<Rightarrow> cpu \<Rightarrow> cpu option" where
  "error_code E c =
     do { let c = run [Xchg EAX 4, Xchg EBX 0, PushR ECX, PushR EDX, PushR EDI, PushR ESI, PushR EBP,
                       PushS DS, PushS ES, PushS FS, PushR EAX, Lea 44 EAX, PushR EAX,
                       Mov KER_DATA_SEC EAX, MovS EAX DS, MovS EAX ES, MovS EAX FS] c;
          c \<leftarrow> call_c E (reg c EBX) c;
          Some (run [AddEsp 8, PopS FS, PopS ES, PopS DS, PopR EBP, PopR ESI, PopR EDI, PopR EDX,
                     PopR ECX, PopR EBX, PopR EAX, Iret] c) }"

definition dg_error_code :: "c_env \<Rightarrow> cpu \<Rightarrow> cpu option" where
  "dg_error_code E c =
     do { let c = run [Xchg EAX 4, Xchg ECX 0, PushR EDX, PushS DS, PushS ES, PushS GS, PushS FS,
                       Mov KER_DATA_SEC EDX, MovS EDX DS, MovS EDX ES, MovS EDX GS, MovS EDX FS,
                       PushR ECX] c;
          c \<leftarrow> call_c E (reg c EAX) c;
          Some (run [PopR ECX, PopS FS, PopS GS, PopS ES, PopS DS, PopR EDX, PopR ECX, PopR EAX, Iret] c) }"

text \<open>\<open>do_no_page\<close> and \<open>do_wp_page\<close> find the error code and the address on the stack.\<close>

definition call_fault :: "c_env \<Rightarrow> cpu \<Rightarrow> cpu option" where
  "call_fault E c =
     (let error = get32 (sys c) (esp c); addr = get32 (sys c) (esp c + 4)
      in if 1 AND reg c EAX = 0
         then do { s \<leftarrow> do_no_page error addr (sys c); Some (c_returns E 2 s c) }
         else do { s \<leftarrow> do_wp_page (junk1 E c) (junk2 E c) error addr (sys c); Some (c_returns E 2 s c) })"

definition page_fault_code :: "c_env \<Rightarrow> cpu \<Rightarrow> cpu option" where
  "page_fault_code E c =
     do { let c = run [Xchg EAX 0, PushR ECX, PushR EDX, PushS DS, PushS ES, PushS FS,
                       Mov 1 ECX, MovKen ECX, Mov KER_DATA_SEC EDX, MovS EDX DS, MovS EDX ES, MovS EDX FS,
                       MovCR2 EDX, PushR EDX, PushR EAX] c;
          c \<leftarrow> call_fault E c;
          Some (run [AddEsp 8, Mov 0 ECX, MovKen ECX, Mov KER_DATA_SEC EDX, PopS FS, PopS ES, PopS DS,
                     PopR EDX, PopR ECX, PopR EAX, Iret] c) }"

definition null_int_code :: "c_env \<Rightarrow> cpu \<Rightarrow> cpu option" where
  "null_int_code E c = no_error_code E (exec (Push (nop_at E)) c)"

definition NCI_int_code :: "c_env \<Rightarrow> cpu \<Rightarrow> cpu option" where
  "NCI_int_code E c = no_error_code E (exec (Push (neISR_at E)) c)"

text \<open>The exceptions with an error code, and those without, each with its number.\<close>

definition ts_int_code :: "c_env \<Rightarrow> cpu \<Rightarrow> cpu option" where
  "ts_int_code E c = error_code E (exec (Push (print_error_at E)) c)"

definition int_code :: "u32 \<Rightarrow> c_env \<Rightarrow> cpu \<Rightarrow> cpu option" where
  "int_code n E c = dg_error_code E (run [Push (print_error_at E), Push n] c)"

text \<open>What stands at each entry point; the number of \<open>int_18\<close> is that of \<open>int_9\<close> in the code.\<close>

definition stubs :: "c_env \<Rightarrow> entry_points \<Rightarrow> (u32 \<times> (cpu \<Rightarrow> cpu option)) list" where
  "stubs E H =
     [(NCI_int H, NCI_int_code E), (ts_int H, ts_int_code E),
      (int_0 H, int_code 0 E), (int_1 H, int_code 1 E), (int_2 H, int_code 2 E), (int_3 H, int_code 3 E),
      (int_4 H, int_code 4 E), (int_5 H, int_code 5 E), (int_6 H, int_code 6 E), (int_7 H, int_code 7 E),
      (int_8 H, ts_int_code E), (int_9 H, int_code 9 E), (int_11 H, ts_int_code E),
      (int_12 H, ts_int_code E), (int_13 H, ts_int_code E), (int_15 H, int_code 15 E),
      (int_16 H, int_code 16 E), (int_17 H, ts_int_code E), (int_18 H, int_code 9 E),
      (int_19 H, int_code 19 E), (null_int H, null_int_code E), (page_fault H, page_fault_code E)]"

text \<open>The linked kernel: running from an entry point runs its stub.\<close>

definition linked :: "c_env \<Rightarrow> entry_points \<Rightarrow> (u32 \<Rightarrow> cpu \<Rightarrow> cpu option) \<Rightarrow> bool" where
  "linked E H code \<longleftrightarrow> (\<forall>(a, f) \<in> set (stubs E H). code a = f)"

definition interrupt :: "(u32 \<Rightarrow> cpu \<Rightarrow> cpu option) \<Rightarrow> u32 \<Rightarrow> u32 option \<Rightarrow> cpu \<Rightarrow> cpu option" where
  "interrupt code v err c = (let c = deliver v err c in code (eip c) c)"

text \<open>Entering ring 3; \<open>next\<close> is the address of the label behind the interrupt return.\<close>

definition move_user_mode :: "u32 \<Rightarrow> cpu \<Rightarrow> cpu" where
  "move_user_mode next c =
     run [Push 0x23, Push 0x7FFF00, Pushf, LoadTop EAX, OrI 0x200 EAX, StoreTop EAX, Push 0x1b,
          Push next, Iret, Mov 0x23 EAX, MovS EAX DS, MovS EAX ES, MovS EAX GS, MovS EAX FS] c"

section \<open>The stack as a list\<close>

text \<open>
  The same instructions on a stack that is a list of words, of at most 24. It fails where a word
  below the list would be read, and on a return to another ring. The registers are those of \<open>cpu\<close>, its memory plays no part.
\<close>

fun list_exec :: "instr \<Rightarrow> cpu \<times> u32 list \<Rightarrow> (cpu \<times> u32 list) option" where
  "list_exec (PopR r) (d, w # ws) = Some (d\<lparr>esp := esp d + 4, reg := (reg d)(r := w)\<rparr>, ws)"
| "list_exec (PopS r) (d, w # ws) = Some (d\<lparr>esp := esp d + 4, seg := (seg d)(r := ucast w)\<rparr>, ws)"
| "list_exec (Xchg r i) (d, ws) =
     (if i mod 4 = 0 \<and> i div 4 < length ws
      then Some (d\<lparr>reg := (reg d)(r := ws ! (i div 4))\<rparr>, ws[i div 4 := reg d r]) else None)"
| "list_exec (AddEsp i) (d, ws) =
     (if i mod 4 = 0 \<and> i div 4 \<le> length ws
      then Some (d\<lparr>esp := esp d + of_nat i\<rparr>, drop (i div 4) ws) else None)"
| "list_exec (LoadTop r) (d, w # ws) = Some (d\<lparr>reg := (reg d)(r := w)\<rparr>, w # ws)"
| "list_exec (StoreTop r) (d, w # ws) = Some (d, reg d r # ws)"
| "list_exec Iret (d, ip # sel # fl # ws) =
     (let d' = d\<lparr>esp := esp d + 12, eip := ip, cs := ucast sel, eflags := fl\<rparr>
      in if cs d AND 3 < ucast sel AND 3 then None else Some (d', ws))"
| "list_exec i (d, ws) =
     (case i of
        Push v \<Rightarrow> if length ws < 24 then Some (d\<lparr>esp := esp d - 4\<rparr>, v # ws) else None
      | PushR r \<Rightarrow> if length ws < 24 then Some (d\<lparr>esp := esp d - 4\<rparr>, reg d r # ws) else None
      | PushS r \<Rightarrow> if length ws < 24 then Some (d\<lparr>esp := esp d - 4\<rparr>, ucast (seg d r) # ws) else None
      | Pushf \<Rightarrow> if length ws < 24 then Some (d\<lparr>esp := esp d - 4\<rparr>, eflags d # ws) else None
      | Lea _ _ \<Rightarrow> Some (exec i d, ws) | Mov _ _ \<Rightarrow> Some (exec i d, ws) | MovS _ _ \<Rightarrow> Some (exec i d, ws)
      | MovCR2 _ \<Rightarrow> Some (exec i d, ws) | MovKen _ \<Rightarrow> Some (exec i d, ws) | OrI _ _ \<Rightarrow> Some (exec i d, ws)
      | _ \<Rightarrow> None)"

fun list_run :: "instr list \<Rightarrow> cpu \<times> u32 list \<Rightarrow> (cpu \<times> u32 list) option" where
  "list_run [] x = Some x"
| "list_run (i # is) x = (case list_exec i x of None \<Rightarrow> None | Some y \<Rightarrow> list_run is y)"

text \<open>
  \<open>c\<close> is \<open>d\<close> with the words \<open>ws\<close> on its stack, up to the address \<open>T\<close>; its memory is
  that of \<open>S\<close> except for the \<open>N\<close> bytes below \<open>T\<close>.
\<close>

definition near :: "nat \<Rightarrow> nat \<Rightarrow> machine \<Rightarrow> machine \<Rightarrow> bool" where
  "near N T S s \<longleftrightarrow> only_mem S s \<and> (\<forall>a. unat a < T - N \<or> T \<le> unat a \<longrightarrow> mem s a = mem S a)"

definition tracks :: "nat \<Rightarrow> nat \<Rightarrow> machine \<Rightarrow> cpu \<Rightarrow> cpu \<Rightarrow> u32 list \<Rightarrow> bool" where
  "tracks N T S c d ws \<longleftrightarrow> c = d\<lparr>sys := sys c\<rparr> \<and> unat (esp c) + 4 * length ws = T \<and> length ws \<le> 24
     \<and> (\<forall>i < length ws. get32 (sys c) (esp c + of_nat (4 * i)) = ws ! i)
     \<and> near N T S (sys c)"

lemma tracks_fields:
  assumes "tracks N T S c d ws"
  shows "reg c = reg d" "seg c = seg d" "esp c = esp d" "ss c = ss d" "eip c = eip d" "cs c = cs d"
    "eflags c = eflags d" "CR2 c = CR2 d" "KEN_MODE c = KEN_MODE d"
proof -
  have e: "c = d\<lparr>sys := sys c\<rparr>" using assms by (simp add: tracks_def)
  show "reg c = reg d" "seg c = seg d" "esp c = esp d" "ss c = ss d" "eip c = eip d" "cs c = cs d"
    "eflags c = eflags d" "CR2 c = CR2 d" "KEN_MODE c = KEN_MODE d"
    by (subst e, simp)+
qed

lemma tracks_slot:
  assumes "tracks N T S c d ws" and "T < 2 ^ 32" and "i \<le> length ws"
  shows "unat (esp c + of_nat (4 * i)) = unat (esp c) + 4 * i"
  by (rule unat_add_nat) (use assms in \<open>auto simp: tracks_def\<close>)

lemma tracks_load:
  assumes "tracks N T S c d ws" and "i < length ws"
  shows "get32 (sys c) (esp c + of_nat (4 * i)) = ws ! i"
  using assms by (simp add: tracks_def)

text \<open>Storing a word of the stack.\<close>

lemma tracks_store:
  assumes t: "tracks N T S c d ws" and T: "96 \<le> N \<and> N \<le> T" "T < 2 ^ 32" and i: "i < length ws"
  shows "tracks N T S (c\<lparr>sys := put32 (esp c + of_nat (4 * i)) v (sys c)\<rparr>) d (ws[i := v])"
proof -
  let ?a = "esp c + of_nat (4 * i)"
  note u = tracks_slot [OF t T(2)]
  have e: "unat (esp c) + 4 * length ws = T" "length ws \<le> 24" using t by (simp_all add: tracks_def)
  have "get32 (put32 ?a v (sys c)) (esp c + of_nat (4 * j)) = ws[i := v] ! j" if j: "j < length ws" for j
  proof (cases "j = i")
    case False
    then have "apart ?a 4 (esp c + of_nat (4 * j)) 4"
      using u [of i] u [of j] i j e T(2) by (auto simp: apart_def)
    then show ?thesis using tracks_load [OF t j] False by (simp add: load32_store32_apart)
  qed (use i in simp)
  moreover have "mem (put32 ?a v (sys c)) b = mem S b" if b: "unat b < T - N \<or> T \<le> unat b" for b
  proof -
    have "apart ?a 4 b 1" using b u [of i] i e T u32_bound [of b] by (auto simp: apart_def)
    moreover have "mem (sys c) b = mem S b" using t b unfolding tracks_def near_def by blast
    ultimately show ?thesis by (simp add: store32_byte)
  qed
  moreover have "c\<lparr>sys := m\<rparr> = d\<lparr>sys := m\<rparr>" for m
    using tracks_fields [OF t] by (auto intro: cpu.equality)
  ultimately show ?thesis using t tracks_fields(3) [OF t] by (simp add: tracks_def near_def)
qed

lemma tracks_push:
  assumes t: "tracks N T S c d ws" and T: "96 \<le> N \<and> N \<le> T" "T < 2 ^ 32" and l: "length ws < 24"
  shows "tracks N T S (push v c) (d\<lparr>esp := esp d - 4\<rparr>) (v # ws)"
proof -
  let ?c = "c\<lparr>esp := esp c - 4\<rparr>"
  let ?w = "get32 (sys c) (esp c - 4)"
  have e: "unat (esp c) + 4 * length ws = T" using t by (simp add: tracks_def)
  then have "4 \<le> unat (esp c)" using T l by linarith
  then have "(4 :: u32) \<le> esp c" by (simp add: word_le_nat_alt)
  then have s: "unat (esp c - 4) = unat (esp c) - 4" using unat_sub [of 4 "esp c"] by simp
  have "get32 (sys c) (esp c - 4 + of_nat (4 * i)) = (?w # ws) ! i" if "i < length (?w # ws)" for i
  proof (cases i)
    case (Suc j)
    with tracks_load [OF t, of j] that show ?thesis by (simp add: algebra_simps)
  qed simp
  then have "tracks N T S ?c (d\<lparr>esp := esp d - 4\<rparr>) (?w # ws)"
    using t e s \<open>4 \<le> unat (esp c)\<close> l tracks_fields [OF t] unfolding tracks_def
    by (auto intro: cpu.equality)
  from tracks_store [OF this T, of 0 v] show ?thesis by (simp add: push_def)
qed

lemma tracks_drop:
  assumes t: "tracks N T S c d ws" and T: "T < 2 ^ 32" and i: "i \<le> length ws"
  shows "tracks N T S (c\<lparr>esp := esp c + of_nat (4 * i)\<rparr>) (d\<lparr>esp := esp d + of_nat (4 * i)\<rparr>) (drop i ws)"
proof -
  have "get32 (sys c) (esp c + of_nat (4 * i) + of_nat (4 * j)) = drop i ws ! j"
    if "j < length (drop i ws)" for j
    using tracks_load [OF t, of "i + j"] that i by (simp add: algebra_simps)
  then show ?thesis
    using t tracks_slot [OF t T i] i tracks_fields [OF t] unfolding tracks_def
    by (auto intro: cpu.equality)
qed

text \<open>Changing registers only.\<close>

lemma tracks_upd:
  assumes t: "tracks N T S c d ws"
  shows "tracks N T S (c\<lparr>reg := f\<rparr>) (d\<lparr>reg := f\<rparr>) ws"
    and "tracks N T S (c\<lparr>seg := g\<rparr>) (d\<lparr>seg := g\<rparr>) ws"
    and "tracks N T S (c\<lparr>KEN_MODE := k\<rparr>) (d\<lparr>KEN_MODE := k\<rparr>) ws"
    and "tracks N T S (c\<lparr>eip := ip, cs := sel, eflags := fl\<rparr>) (d\<lparr>eip := ip, cs := sel, eflags := fl\<rparr>) ws"
  using t tracks_fields [OF t] unfolding tracks_def by (auto intro: cpu.equality)

lemma tracks_top: "tracks N T S c d (w # ws) \<Longrightarrow> get32 (sys c) (esp c) = w"
  using tracks_load [of N T S c d "w # ws" 0] by simp

lemma tracks_pop:
  assumes "tracks N T S c d (w # ws)" and "T < 2 ^ 32"
  shows "tracks N T S (c\<lparr>esp := esp c + 4\<rparr>) (d\<lparr>esp := esp d + 4\<rparr>) ws"
  using tracks_drop [OF assms, of 1] by simp

lemma list_exec_pops:
  "list_exec (PopR r) (d, ws) = (case ws of [] \<Rightarrow> None
     | w # ws \<Rightarrow> Some (d\<lparr>esp := esp d + 4, reg := (reg d)(r := w)\<rparr>, ws))"
  "list_exec (PopS g) (d, ws) = (case ws of [] \<Rightarrow> None
     | w # ws \<Rightarrow> Some (d\<lparr>esp := esp d + 4, seg := (seg d)(g := ucast w)\<rparr>, ws))"
  "list_exec (LoadTop r) (d, ws) = (case ws of [] \<Rightarrow> None
     | w # ws \<Rightarrow> Some (d\<lparr>reg := (reg d)(r := w)\<rparr>, w # ws))"
  "list_exec (StoreTop r) (d, ws) = (case ws of [] \<Rightarrow> None | w # ws \<Rightarrow> Some (d, reg d r # ws))"
  by (cases ws; simp)+

lemma list_exec_iret:
  assumes "list_exec Iret (d, ws) = Some (d', ws')"
  obtains ip sel fl where "ws = ip # sel # fl # ws'" and "\<not> cs d AND 3 < ucast sel AND 3"
    and "d' = d\<lparr>esp := esp d + 12, eip := ip, cs := ucast sel, eflags := fl\<rparr>"
  using assms by (cases "(Iret, d, ws)" rule: list_exec.cases) (auto simp: Let_def split: if_splits)

text \<open>The machine with its stack in memory does what the one with a list does.\<close>

lemma list_exec_tracks:
  assumes t: "tracks N T S c d ws" and T: "96 \<le> N \<and> N \<le> T" "T < 2 ^ 32"
    and e: "list_exec i (d, ws) = Some (d', ws')"
  shows "tracks N T S (exec i c) d' ws'"
proof (cases i)
  case (PopR r)
  then obtain w where w: "ws = w # ws'" "d' = d\<lparr>esp := esp d + 4, reg := (reg d)(r := w)\<rparr>"
    using e by (auto simp: list_exec_pops split: list.splits)
  have "tracks N T S (c\<lparr>esp := esp c + 4\<rparr>) (d\<lparr>esp := esp d + 4\<rparr>) ws'"
    by (rule tracks_pop [OF t [unfolded w(1)] T(2)])
  from tracks_upd(1) [OF this, of "(reg d)(r := w)"] show ?thesis
    using tracks_top [OF t [unfolded w(1)]] tracks_fields [OF t] by (simp add: PopR pop_def w(2))
next
  case (PopS r)
  then obtain w where w: "ws = w # ws'" "d' = d\<lparr>esp := esp d + 4, seg := (seg d)(r := ucast w)\<rparr>"
    using e by (auto simp: list_exec_pops split: list.splits)
  have "tracks N T S (c\<lparr>esp := esp c + 4\<rparr>) (d\<lparr>esp := esp d + 4\<rparr>) ws'"
    by (rule tracks_pop [OF t [unfolded w(1)] T(2)])
  from tracks_upd(2) [OF this, of "(seg d)(r := ucast w)"] show ?thesis
    using tracks_top [OF t [unfolded w(1)]] tracks_fields [OF t] by (simp add: PopS pop_def w(2))
next
  case (Xchg r j)
  then have j: "j = 4 * (j div 4)" "j div 4 < length ws"
    and d': "d' = d\<lparr>reg := (reg d)(r := ws ! (j div 4))\<rparr>" "ws' = ws[j div 4 := reg d r]"
    using e by (auto split: if_splits)
  have a: "of_nat (4 * (j div 4)) = (of_nat j :: u32)" using j(1) by simp
  have "tracks N T S (c\<lparr>sys := put32 (esp c + of_nat j) (reg d r) (sys c)\<rparr>) d ws'"
    using tracks_store [OF t T j(2), of "reg d r"] unfolding a d'(2) .
  from tracks_upd(1) [OF this, of "(reg d)(r := ws ! (j div 4))"] show ?thesis
    using tracks_load [OF t j(2)] tracks_fields [OF t] unfolding a by (simp add: Xchg d'(1) Let_def)
next
  case (AddEsp j)
  then have j: "j = 4 * (j div 4)" "j div 4 \<le> length ws"
    and d': "d' = d\<lparr>esp := esp d + of_nat j\<rparr>" "ws' = drop (j div 4) ws"
    using e by (auto split: if_splits)
  have a: "of_nat (4 * (j div 4)) = (of_nat j :: u32)" using j(1) by simp
  show ?thesis using tracks_drop [OF t T(2) j(2)] unfolding a by (simp add: AddEsp d')
next
  case (LoadTop r)
  then obtain w vs where w: "ws = w # vs" "d' = d\<lparr>reg := (reg d)(r := w)\<rparr>" "ws' = ws"
    using e by (auto simp: list_exec_pops split: list.splits)
  show ?thesis
    using tracks_upd(1) [OF t] tracks_top [OF t [unfolded w(1)]] tracks_fields [OF t] by (simp add: LoadTop w(2,3))
next
  case (StoreTop r)
  then obtain w vs where w: "ws = w # vs" "d' = d" "ws' = reg d r # vs"
    using e by (auto simp: list_exec_pops split: list.splits)
  show ?thesis
    using tracks_store [OF t T, of 0 "reg d r"] tracks_fields [OF t] by (simp add: StoreTop w)
next
  case Iret
  then obtain ip sel fl where w: "ws = ip # sel # fl # ws'" and r: "\<not> cs d AND 3 < ucast sel AND 3"
    and d': "d' = d\<lparr>esp := esp d + 12, eip := ip, cs := ucast sel, eflags := fl\<rparr>"
    using e list_exec_iret by blast
  have l: "get32 (sys c) (esp c) = ip" "get32 (sys c) (esp c + 4) = sel" "get32 (sys c) (esp c + 8) = fl"
    using tracks_load [OF t, of 0] tracks_load [OF t, of 1] tracks_load [OF t, of 2] by (simp_all add: w)
  have "tracks N T S (c\<lparr>esp := esp c + 12\<rparr>) (d\<lparr>esp := esp d + 12\<rparr>) ws'"
    using tracks_drop [OF t T(2), of 3] by (simp add: w)
  from tracks_upd(4) [OF this, where ip = ip and sel = "ucast sel" and fl = fl] show ?thesis
    using l r tracks_fields [OF t] by (simp add: Iret pop_def d' Let_def add.assoc)
qed (use e tracks_fields [OF t] tracks_push [OF t T] tracks_upd [OF t] in \<open>auto split: if_splits\<close>)

lemma list_run_tracks:
  assumes "tracks N T S c d ws" and T: "96 \<le> N \<and> N \<le> T" "T < 2 ^ 32" and "list_run is (d, ws) = Some (d', ws')"
  shows "tracks N T S (run is c) d' ws'"
  using assms(1,4)
proof (induction "is" arbitrary: c d ws)
  case (Cons i "is")
  then obtain d1 ws1 where i: "list_exec i (d, ws) = Some (d1, ws1)" and r: "list_run is (d1, ws1) = Some (d', ws')"
    by (auto split: option.splits)
  show ?case using Cons.IH [OF list_exec_tracks [OF Cons.prems(1) T i] r] by (simp add: run_def)
qed (simp add: run_def)

section \<open>The way into a stub\<close>

lemma tracks_start: "tracks N (unat (esp c)) (sys c) c c []"
  by (simp add: tracks_def near_def)

text \<open>What the processor leaves on the stack.\<close>

definition entry_words :: "u32 option \<Rightarrow> cpu \<Rightarrow> u32 list" where
  "entry_words err c = (case err of None \<Rightarrow> [] | Some e \<Rightarrow> [e]) @ [eip c, ucast (cs c), eflags c]"

definition entered :: "u32 \<Rightarrow> u16 \<Rightarrow> u32 option \<Rightarrow> cpu \<Rightarrow> cpu" where
  "entered off att err c =
     c\<lparr>esp := esp c - 4 * of_nat (length (entry_words err c)), eip := off, cs := 8,
       eflags := (if att AND 0x0100 = 0 then eflags c AND NOT 0x200 else eflags c)\<rparr>"

lemma deliver_tracks:
  assumes g: "gate_at (mem (sys c)) v = (off, 8, att)" and T: "96 \<le> N \<and> N \<le> unat (esp c)"
  shows "tracks N (unat (esp c)) (sys c) (deliver v err c) (entered off att err c) (entry_words err c)"
proof -
  let ?t = "tracks N (unat (esp c)) (sys c)"
  note p = tracks_push [OF _ T u32_bound]
  have t: "?t (push (eip c) (push (ucast (cs c)) (push (eflags c) c))) (c\<lparr>esp := esp c - 12\<rparr>) [eip c, ucast (cs c), eflags c]"
    using p [OF p [OF p [OF tracks_start]], of "eflags c" "ucast (cs c)" "eip c"] by simp
  obtain c1 where c1: "deliver v err c = c1\<lparr>eip := off, cs := 8,
      eflags := (if att AND 0x0100 = 0 then eflags c1 AND NOT 0x200 else eflags c1)\<rparr>"
    and t1: "?t c1 (c\<lparr>esp := esp c - 4 * of_nat (length (entry_words err c))\<rparr>) (entry_words err c)"
  proof (cases err)
    case None
    with t show ?thesis by (intro that) (simp_all add: deliver_def g entry_words_def Let_def)
  next
    case (Some e)
    with p [OF t, of e] show ?thesis by (intro that) (simp_all add: deliver_def g entry_words_def Let_def)
  qed
  have "eflags c1 = eflags c" using tracks_fields(7) [OF t1] by simp
  then show ?thesis unfolding c1 entered_def by (simp only:) (rule tracks_upd(4) [OF t1])
qed

section \<open>A call\<close>

text \<open>The 96 bytes below \<open>T\<close> are as before.\<close>

definition survives :: "nat \<Rightarrow> machine \<Rightarrow> machine \<Rightarrow> bool" where
  "survives T s s' \<longleftrightarrow> (\<forall>a. T - 96 \<le> unat a \<and> unat a < T \<longrightarrow> mem s' a = mem s a)"

lemma tracks_call:
  assumes t: "tracks N T S c d ws" and T: "96 + frame E \<le> N \<and> N \<le> T" "T < 2 ^ 32" and n: "n \<le> length ws"
    and s: "survives T (sys c) s'"
  shows "\<exists>x y z ws'. tracks N T s' (c_returns E n s' c) (d\<lparr>reg := (reg d)(EAX := x, ECX := y, EDX := z)\<rparr>) ws'
    \<and> length ws' = length ws \<and> drop n ws' = drop n ws"
proof -
  let ?c = "c_returns E n s' c"
  have e: "unat (esp c) + 4 * length ws = T" "length ws \<le> 24" using t by (simp_all add: tracks_def)
  have "frame E \<le> unat (esp c)" using e T by linarith
  moreover from this have "of_nat (frame E) \<le> esp c" using u32_bound [of "esp c"] by (simp add: word_le_nat_alt unat_of_nat)
  ultimately have f: "unat (esp c - of_nat (frame E)) = unat (esp c) - frame E"
    using unat_sub [of "of_nat (frame E)" "esp c"] u32_bound [of "esp c"] by (simp add: unat_of_nat)
  have m: "mem (sys ?c) a = mem s' a" if "unat a < unat (esp c) - frame E \<or> unat (esp c) + 4 * n \<le> unat a" for a
    using that f \<open>frame E \<le> unat (esp c)\<close> by (auto simp: c_returns_def in_range_def)
  define ws' where "ws' = map (\<lambda>i. get32 (sys ?c) (esp c + of_nat (4 * i))) [0..<length ws]"
  have "get32 (sys ?c) (esp c + of_nat (4 * i)) = ws ! i" if i: "n \<le> i" "i < length ws" for i
  proof -
    have "load32 (mem (sys ?c)) (esp c + of_nat (4 * i)) = get32 (sys c) (esp c + of_nat (4 * i))"
    proof (rule load32_cong)
      fix k :: nat
      assume k: "k < 4"
      then have "unat (esp c + of_nat (4 * i + k)) = unat (esp c) + (4 * i + k)"
        by (intro unat_add_nat) (use i e T in linarith)
      then have "unat (esp c) + 4 * n \<le> unat (esp c + of_nat (4 * i) + of_nat k)"
        "T - 96 \<le> unat (esp c + of_nat (4 * i) + of_nat k)" "unat (esp c + of_nat (4 * i) + of_nat k) < T"
        using i k e T by (simp_all add: add.assoc)
      then show "mem (sys ?c) (esp c + of_nat (4 * i) + of_nat k) = mem (sys c) (esp c + of_nat (4 * i) + of_nat k)"
        using s m unfolding survives_def by simp
    qed
    with tracks_load [OF t i(2)] show ?thesis by simp
  qed
  then have "ws' ! i = ws ! i" if "n \<le> i" "i < length ws" for i
    using that by (simp add: ws'_def)
  moreover have "length ws' = length ws" by (simp add: ws'_def)
  ultimately have "drop n ws' = drop n ws" by (intro nth_equalityI) simp_all
  moreover have "near N T s' (sys ?c)"
    unfolding near_def
  proof (intro conjI allI impI)
    show "only_mem s' (sys ?c)" by (simp add: c_returns_def)
    show "mem (sys ?c) a = mem s' a" if "unat a < T - N \<or> T \<le> unat a" for a
      by (rule m) (use that e T n in linarith)
  qed
  moreover have "?c = d\<lparr>reg := (reg d)(EAX := scratch E c EAX, ECX := scratch E c ECX, EDX := scratch E c EDX)\<rparr>\<lparr>sys := sys ?c\<rparr>"
    using tracks_fields [OF t] by (auto simp: c_returns_def intro: cpu.equality)
  moreover have "esp ?c = esp c" by (simp add: c_returns_def)
  ultimately show ?thesis
    using e by (intro exI [of _ "scratch E c EAX"] exI [of _ "scratch E c ECX"] exI [of _ "scratch E c EDX"] exI [of _ ws'])
      (simp add: tracks_def ws'_def)
qed

section \<open>Through a stub\<close>

text \<open>
  A stub around a handler with \<open>n\<close> argument words: its first half leaves the handler's address in a register,
  the handler returns \<open>s2\<close> and spares what the stub has saved, the second half takes everything back.
\<close>

lemma through_call:
  assumes t: "tracks N T S c d ws" and T: "96 + frame E \<le> N \<and> N \<le> T" "T < 2 ^ 32"
    and l1: "list_run is (d, ws) = Some (d1, ws1)" and n: "n \<le> length ws1"
    and call: "\<And>c1. tracks N T S c1 d1 ws1 \<Longrightarrow>
      \<exists>s2. f c1 = Some (c_returns E n s2 c1) \<and> survives T (sys c1) s2 \<and> R (sys c1) s2"
    and l2: "\<And>x y z ws'. length ws' = length ws1 \<Longrightarrow> drop n ws' = drop n ws1 \<Longrightarrow>
      list_run is' (d1\<lparr>reg := (reg d1)(EAX := x, ECX := y, EDX := z)\<rparr>, ws') = Some (d', [])"
  shows "\<exists>s1 s2 s3. Option.bind (f (run is c)) (\<lambda>c. Some (run is' c)) = Some (d'\<lparr>sys := s3\<rparr>)
    \<and> near N T S s1 \<and> R s1 s2 \<and> near N T s2 s3"
proof -
  let ?c1 = "run is c"
  have T': "96 \<le> N \<and> N \<le> T" using T(1) by simp
  have t1: "tracks N T S ?c1 d1 ws1" by (rule list_run_tracks [OF t T' T(2) l1])
  then obtain s2 where f: "f ?c1 = Some (c_returns E n s2 ?c1)" and s: "survives T (sys ?c1) s2" "R (sys ?c1) s2"
    using call by blast
  obtain x y z ws' where "tracks N T s2 (c_returns E n s2 ?c1) (d1\<lparr>reg := (reg d1)(EAX := x, ECX := y, EDX := z)\<rparr>) ws'"
    and w: "length ws' = length ws1" "drop n ws' = drop n ws1"
    using tracks_call [OF t1 T n s(1)] by blast
  from list_run_tracks [OF this(1) T' T(2) l2 [OF w]] have t2: "tracks N T s2 (run is' (c_returns E n s2 ?c1)) d' []" .
  then have "run is' (c_returns E n s2 ?c1) = d'\<lparr>sys := sys (run is' (c_returns E n s2 ?c1))\<rparr>"
    by (simp add: tracks_def)
  then show ?thesis using t1 t2 f s by (auto simp: tracks_def)
qed

lemma seg_all: "h(DS := k, ES := k, GS := k, FS := k) = (\<lambda>g. k)" for h :: "seg \<Rightarrow> u16" and k
proof
  show "(h(DS := k, ES := k, GS := k, FS := k)) g = k" for g by (cases g) simp_all
qed

lemma seg_back: "h(FS := g FS, GS := g GS, ES := g ES, DS := g DS) = g" for h :: "seg \<Rightarrow> u16"
proof
  show "(h(FS := g FS, GS := g GS, ES := g ES, DS := g DS)) r = g r" for r by (cases r) simp_all
qed

lemma selector_back: "ucast (ucast k :: u32) = (k :: u16)"
  by (rule bit_word_eqI) (auto simp: bit_simps)

lemma no_error_code_returns:
  assumes t: "tracks N T S c d [f, ip, sel, fl]" and T: "96 + frame E \<le> N \<and> N \<le> T" "T < 2 ^ 32"
    and ring: "\<not> cs d AND 3 < ucast sel AND 3"
    and call: "\<And>c1. near N T S (sys c1) \<Longrightarrow>
      \<exists>s2. call_c E f c1 = Some (c_returns E 0 s2 c1) \<and> survives T (sys c1) s2 \<and> R (sys c1) s2"
  shows "\<exists>s1 s2 s3. no_error_code E c = Some (d\<lparr>esp := esp d + 16, eip := ip, cs := ucast sel, eflags := fl, sys := s3\<rparr>)
    \<and> near N T S s1 \<and> R s1 s2 \<and> near N T s2 s3"
proof -
  define d1 where "d1 = d\<lparr>esp := esp d - 24, reg := (reg d)(EAX := f, EDX := KER_DATA_SEC), seg := \<lambda>g. ucast KER_DATA_SEC\<rparr>"
  define ws1 where "ws1 = [ucast (seg d FS), ucast (seg d GS), ucast (seg d ES), ucast (seg d DS), reg d EDX, reg d ECX,
    reg d EAX, ip, sel, fl :: u32]"
  let ?pro = "[Xchg EAX 0, PushR ECX, PushR EDX, PushS DS, PushS ES, PushS GS, PushS FS,
                       Mov KER_DATA_SEC EDX, MovS EDX DS, MovS EDX ES, MovS EDX GS, MovS EDX FS]"
  let ?epi = "[PopS FS, PopS GS, PopS ES, PopS DS, PopR EDX, PopR ECX, PopR EAX, Iret]"
  have l1: "list_run ?pro (d, [f, ip, sel, fl]) = Some (d1, ws1)"
    by (simp add: d1_def ws1_def seg_all)
  have l2: "list_run ?epi (d1\<lparr>reg := (reg d1)(EAX := x, ECX := y, EDX := z)\<rparr>, ws')
      = Some (d\<lparr>esp := esp d + 16, eip := ip, cs := ucast sel, eflags := fl\<rparr>, [])"
    if w: "length ws' = length ws1" "drop 0 ws' = drop 0 ws1" for x y z ws'
  proof -
    have "ws' = ws1" using w by simp
    then show ?thesis using ring by (auto simp: seg_back selector_back d1_def ws1_def intro!: cpu.equality ext)
  qed
  have "\<exists>s2. call_c E (reg c1 EAX) c1 = Some (c_returns E 0 s2 c1) \<and> survives T (sys c1) s2 \<and> R (sys c1) s2"
    if "tracks N T S c1 d1 ws1" for c1
    using call [of c1] that tracks_fields(1) [OF that] by (simp add: tracks_def d1_def)
  from through_call [OF t T l1 _ _ l2, of 0 "\<lambda>c. call_c E (reg c EAX) c", OF _ this] show ?thesis
    by (simp add: ws1_def no_error_code_def Let_def del: list_run.simps)
qed

lemma dg_error_code_returns:
  assumes t: "tracks N T S c d [n, f, ip, sel, fl]" and T: "96 + frame E \<le> N \<and> N \<le> T" "T < 2 ^ 32"
    and m: "m \<le> 1" and ring: "\<not> cs d AND 3 < ucast sel AND 3"
    and call: "\<And>c1. near N T S (sys c1) \<Longrightarrow>
      \<exists>s2. call_c E f c1 = Some (c_returns E m s2 c1) \<and> survives T (sys c1) s2 \<and> R (sys c1) s2"
  shows "\<exists>s1 s2 s3. dg_error_code E c = Some (d\<lparr>esp := esp d + 20, eip := ip, cs := ucast sel, eflags := fl, sys := s3\<rparr>)
    \<and> near N T S s1 \<and> R s1 s2 \<and> near N T s2 s3"
proof -
  define d1 where "d1 = d\<lparr>esp := esp d - 24, reg := (reg d)(EAX := f, ECX := n, EDX := KER_DATA_SEC),
    seg := \<lambda>g. ucast KER_DATA_SEC\<rparr>"
  define ws1 where "ws1 = [n, ucast (seg d FS), ucast (seg d GS), ucast (seg d ES), ucast (seg d DS), reg d EDX,
    reg d ECX, reg d EAX, ip, sel, fl :: u32]"
  let ?pro = "[Xchg EAX 4, Xchg ECX 0, PushR EDX, PushS DS, PushS ES, PushS GS, PushS FS,
                       Mov KER_DATA_SEC EDX, MovS EDX DS, MovS EDX ES, MovS EDX GS, MovS EDX FS,
                       PushR ECX]"
  let ?epi = "[PopR ECX, PopS FS, PopS GS, PopS ES, PopS DS, PopR EDX, PopR ECX, PopR EAX, Iret]"
  have l1: "list_run ?pro (d, [n, f, ip, sel, fl]) = Some (d1, ws1)"
    by (auto simp: d1_def ws1_def seg_all intro!: cpu.equality ext)
  have l2: "list_run ?epi (d1\<lparr>reg := (reg d1)(EAX := x, ECX := y, EDX := z)\<rparr>, ws')
      = Some (d\<lparr>esp := esp d + 20, eip := ip, cs := ucast sel, eflags := fl\<rparr>, [])"
    if w: "length ws' = length ws1" "drop m ws' = drop m ws1" for x y z ws'
  proof -
    have "drop 1 ws' = drop 1 ws1" using w(2) m by (metis drop_drop le_add_diff_inverse2)
    then obtain a where "ws' = a # tl ws1" using w(1) by (cases ws') (auto simp: ws1_def)
    then show ?thesis using ring by (auto simp: seg_back selector_back d1_def ws1_def intro!: cpu.equality ext)
  qed
  have "\<exists>s2. call_c E (reg c1 EAX) c1 = Some (c_returns E m s2 c1) \<and> survives T (sys c1) s2 \<and> R (sys c1) s2"
    if "tracks N T S c1 d1 ws1" for c1
    using call [of c1] that tracks_fields(1) [OF that] by (simp add: tracks_def d1_def)
  from through_call [OF t T l1 _ _ l2, of m "\<lambda>c. call_c E (reg c EAX) c", OF _ this] show ?thesis
    by (simp add: ws1_def m le_trans [OF m] dg_error_code_def Let_def del: list_run.simps)
qed

lemma error_code_returns:
  assumes t: "tracks N T S c d [f, e, ip, sel, fl]" and T: "96 + frame E \<le> N \<and> N \<le> T" "T < 2 ^ 32"
    and m: "m \<le> 2" and ring: "\<not> cs d AND 3 < ucast sel AND 3"
    and call: "\<And>c1. near N T S (sys c1) \<Longrightarrow>
      \<exists>s2. call_c E f c1 = Some (c_returns E m s2 c1) \<and> survives T (sys c1) s2 \<and> R (sys c1) s2"
  shows "\<exists>s1 s2 s3. error_code E c = Some (d\<lparr>esp := esp d + 20, eip := ip, cs := ucast sel, eflags := fl, sys := s3\<rparr>)
    \<and> near N T S s1 \<and> R s1 s2 \<and> near N T s2 s3"
proof -
  define d1 where "d1 = d\<lparr>esp := esp d - 40, reg := (reg d)(EAX := KER_DATA_SEC, EBX := f),
    seg := (seg d)(DS := ucast KER_DATA_SEC, ES := ucast KER_DATA_SEC, FS := ucast KER_DATA_SEC)\<rparr>"
  define ws1 where "ws1 = [esp d + 8, e, ucast (seg d FS), ucast (seg d ES), ucast (seg d DS), reg d EBP, reg d ESI,
    reg d EDI, reg d EDX, reg d ECX, reg d EBX, reg d EAX, ip, sel, fl :: u32]"
  let ?pro = "[Xchg EAX 4, Xchg EBX 0, PushR ECX, PushR EDX, PushR EDI, PushR ESI, PushR EBP,
                       PushS DS, PushS ES, PushS FS, PushR EAX, Lea 44 EAX, PushR EAX,
                       Mov KER_DATA_SEC EAX, MovS EAX DS, MovS EAX ES, MovS EAX FS]"
  let ?epi = "[AddEsp 8, PopS FS, PopS ES, PopS DS, PopR EBP, PopR ESI, PopR EDI, PopR EDX,
                     PopR ECX, PopR EBX, PopR EAX, Iret]"
  have l1: "list_run ?pro (d, [f, e, ip, sel, fl]) = Some (d1, ws1)"
    by (auto simp: d1_def ws1_def intro!: cpu.equality ext)
  have l2: "list_run ?epi (d1\<lparr>reg := (reg d1)(EAX := x, ECX := y, EDX := z)\<rparr>, ws')
      = Some (d\<lparr>esp := esp d + 20, eip := ip, cs := ucast sel, eflags := fl\<rparr>, [])"
    if w: "length ws' = length ws1" "drop m ws' = drop m ws1" for x y z ws'
  proof -
    have "drop 2 ws' = drop 2 ws1" using w(2) m by (metis drop_drop le_add_diff_inverse2)
    then obtain a b where "ws' = a # b # drop 2 ws1"
      using w(1) by (cases ws'; cases "tl ws'") (auto simp: ws1_def)
    then show ?thesis using ring by (auto simp: selector_back d1_def ws1_def intro!: cpu.equality ext)
  qed
  have "\<exists>s2. call_c E (reg c1 EBX) c1 = Some (c_returns E m s2 c1) \<and> survives T (sys c1) s2 \<and> R (sys c1) s2"
    if "tracks N T S c1 d1 ws1" for c1
    using call [of c1] that tracks_fields(1) [OF that] by (simp add: tracks_def d1_def)
  from through_call [OF t T l1 _ _ l2, of m "\<lambda>c. call_c E (reg c EBX) c", OF _ this] show ?thesis
    by (simp add: ws1_def m le_trans [OF m] error_code_def Let_def del: list_run.simps)
qed

lemma page_fault_code_returns:
  assumes t: "tracks N T S c d [e, ip, sel, fl]" and T: "96 + frame E \<le> N \<and> N \<le> T" "T < 2 ^ 32"
    and ring: "\<not> cs d AND 3 < ucast sel AND 3" and e: "e AND 1 = 0"
    and call: "\<And>s1. near N T S s1 \<Longrightarrow> \<exists>s2. do_no_page e (CR2 d) s1 = Some s2 \<and> survives T s1 s2"
  shows "\<exists>s1 s2 s3. page_fault_code E c
      = Some (d\<lparr>esp := esp d + 16, eip := ip, cs := ucast sel, eflags := fl, KEN_MODE := 0, sys := s3\<rparr>)
    \<and> near N T S s1 \<and> do_no_page e (CR2 d) s1 = Some s2 \<and> near N T s2 s3"
proof -
  define d1 where "d1 = d\<lparr>esp := esp d - 28, reg := (reg d)(EAX := e, ECX := 1, EDX := CR2 d),
    seg := (seg d)(DS := ucast KER_DATA_SEC, ES := ucast KER_DATA_SEC, FS := ucast KER_DATA_SEC), KEN_MODE := 1\<rparr>"
  define ws1 where "ws1 = [e, CR2 d, ucast (seg d FS), ucast (seg d ES), ucast (seg d DS), reg d EDX, reg d ECX,
    reg d EAX, ip, sel, fl :: u32]"
  let ?pro = "[Xchg EAX 0, PushR ECX, PushR EDX, PushS DS, PushS ES, PushS FS,
                       Mov 1 ECX, MovKen ECX, Mov KER_DATA_SEC EDX, MovS EDX DS, MovS EDX ES, MovS EDX FS,
                       MovCR2 EDX, PushR EDX, PushR EAX]"
  let ?epi = "[AddEsp 8, Mov 0 ECX, MovKen ECX, Mov KER_DATA_SEC EDX, PopS FS, PopS ES, PopS DS,
                     PopR EDX, PopR ECX, PopR EAX, Iret]"
  let ?d' = "d\<lparr>esp := esp d + 16, eip := ip, cs := ucast sel, eflags := fl, KEN_MODE := 0\<rparr>"
  have l1: "list_run ?pro (d, [e, ip, sel, fl]) = Some (d1, ws1)"
    by (auto simp: d1_def ws1_def intro!: cpu.equality ext)
  have l2: "list_run ?epi (d1\<lparr>reg := (reg d1)(EAX := x, ECX := y, EDX := z)\<rparr>, ws') = Some (?d', [])"
    if w: "length ws' = length ws1" "drop 2 ws' = drop 2 ws1" for x y z ws'
  proof -
    have "drop 2 ws' = drop 2 ws1" by (rule w(2))
    then obtain a b where "ws' = a # b # drop 2 ws1"
      using w(1) by (cases ws'; cases "tl ws'") (auto simp: ws1_def)
    then show ?thesis using ring by (auto simp: selector_back d1_def ws1_def intro!: cpu.equality ext)
  qed
  have "\<exists>s2. call_fault E c1 = Some (c_returns E 2 s2 c1) \<and> survives T (sys c1) s2
      \<and> do_no_page e (CR2 d) (sys c1) = Some s2"
    if t1: "tracks N T S c1 d1 ws1" for c1
  proof -
    have "get32 (sys c1) (esp c1) = e" "get32 (sys c1) (esp c1 + 4) = CR2 d"
      using tracks_load [OF t1, of 0] tracks_load [OF t1, of 1] by (simp_all add: ws1_def)
    moreover have "1 AND reg c1 EAX = 0" using tracks_fields(1) [OF t1] e by (simp add: d1_def and.commute)
    moreover have "near N T S (sys c1)" using t1 by (simp add: tracks_def)
    ultimately show ?thesis using call [of "sys c1"] by (auto simp: call_fault_def Let_def)
  qed
  from through_call [OF t T l1 _ _ l2, of 2 "call_fault E", OF _ this] show ?thesis
    by (simp add: ws1_def page_fault_code_def Let_def del: list_run.simps)
qed

end
