(* ===== verification/Interrupts.thy ===== *)
theory Interrupts
  imports Stubs
begin

text \<open>
  Interrupts from the processor and back: the stub each vector reaches through the table of
  \<open>trap_init\<close>, the page fault with \<open>do_no_page\<close> behind it, and the change to ring 3.
\<close>

unbundle bit_operations_syntax

section \<open>Every vector\<close>

lemma near_trans: "near N T s t \<Longrightarrow> near N T t u \<Longrightarrow> near N T s u"
  by (auto simp: near_def intro: only_mem_trans)

lemma survives_refl: "survives T s s"
  by (simp add: survives_def)

text \<open>The stub each vector reaches through the table of \<open>trap_init\<close>.\<close>

definition vector_code :: "c_env \<Rightarrow> u32 \<Rightarrow> cpu \<Rightarrow> cpu option" where
  "vector_code E v =
     (if v = 0x23 then NCI_int_code E
      else if v \<in> {8, 10, 11, 12, 13, 17} then ts_int_code E
      else if v \<in> {0, 1, 2, 3, 4, 5, 6, 7, 9, 15, 16, 19} then int_code v E
      else if v = 18 then int_code 9 E else null_int_code E)"

lemma linked_vector: "linked E H code \<Longrightarrow> code (handler_of H v) = vector_code E v"
  by (simp add: linked_def stubs_def handler_of_def exception_vectors_def vector_code_def)

text \<open>The words of arguments of a function called through a register.\<close>

definition arity :: "c_env \<Rightarrow> u32 \<Rightarrow> nat" where
  "arity E f = (if f \<noteq> nop_at E \<and> f = print_error_at E then 1 else 0)"

lemma empty_call:
  assumes "f = nop_at E \<or> f = print_error_at E"
  shows "\<exists>s2. call_c E f c = Some (c_returns E (arity E f) s2 c) \<and> survives T (sys c) s2 \<and> sys c = s2"
  using assms by (auto simp: call_c_def arity_def survives_refl)

text \<open>The handler the stub of a vector calls.\<close>

definition vector_handler :: "c_env \<Rightarrow> u32 \<Rightarrow> u32" where
  "vector_handler E v =
     (if v = 0x23 then neISR_at E
      else if v \<in> {0, 1, 2, 3, 4, 5, 6, 7, 8, 9, 10, 11, 12, 13, 15, 16, 17, 18, 19} then print_error_at E
      else nop_at E)"

lemma vector_cases:
  obtains (plain) "vector_code E v = (\<lambda>c. no_error_code E (exec (Push (vector_handler E v)) c))"
      "v \<notin> {8, 10, 11, 12, 13, 17}" "vector_handler E v \<in> {nop_at E, neISR_at E}"
    | (number) n where "vector_code E v = (\<lambda>c. dg_error_code E (run [Push (vector_handler E v), Push n] c))"
      "v \<notin> {8, 10, 11, 12, 13, 17}"
    | (error) "vector_code E v = (\<lambda>c. error_code E (exec (Push (vector_handler E v)) c))"
      "v \<in> {8, 10, 11, 12, 13, 17}"
proof -
  consider "v = 0x23" | "v \<in> {8, 10, 11, 12, 13, 17}" | "v \<in> {0, 1, 2, 3, 4, 5, 6, 7, 9, 15, 16, 19}" | "v = 18"
    | "v \<noteq> 0x23" "v \<notin> {8, 10, 11, 12, 13, 17}" "v \<notin> {0, 1, 2, 3, 4, 5, 6, 7, 9, 15, 16, 19}" "v \<noteq> 18"
    by blast
  then show ?thesis
  proof cases
    case 1
    then show ?thesis by (intro plain) (simp_all add: vector_code_def vector_handler_def NCI_int_code_def fun_eq_iff)
  next
    case 2
    then show ?thesis
      by (intro error) (auto simp: vector_code_def vector_handler_def ts_int_code_def fun_eq_iff)
  next
    case 3
    then show ?thesis
      by (intro number [of v]) (auto simp: vector_code_def vector_handler_def int_code_def fun_eq_iff)
  next
    case 4
    then show ?thesis
      by (intro number [of 9]) (auto simp: vector_code_def vector_handler_def int_code_def fun_eq_iff)
  next
    case 5
    then show ?thesis
      by (intro plain) (simp_all add: vector_code_def vector_handler_def null_int_code_def fun_eq_iff)
  qed
qed

lemma interrupt_returns:
  assumes link: "linked E H code" and g: "gate_at (mem (sys c)) v = (handler_of H v, 8, 0x8E00)"
    and err: "(err = None) = (v \<notin> {8, 10, 11, 12, 13, 17})"
    and T: "96 + frame E \<le> unat (esp c)" and ring: "cs c AND 3 = 0" and n: "neISR_at E \<noteq> print_error_at E"
    and call: "\<And>c1. near (96 + frame E) (unat (esp c)) (sys c) (sys c1) \<Longrightarrow>
      \<exists>s2. call_c E (vector_handler E v) c1 = Some (c_returns E (arity E (vector_handler E v)) s2 c1) \<and> survives (unat (esp c)) (sys c1) s2 \<and> R (sys c1) s2"
  shows "\<exists>s1 s2 s3. interrupt code v err c = Some (c\<lparr>sys := s3\<rparr>)
    \<and> near (96 + frame E) (unat (esp c)) (sys c) s1 \<and> R s1 s2 \<and> near (96 + frame E) (unat (esp c)) s2 s3"
proof -
  let ?d = "entered (handler_of H v) 0x8E00 err c"
  let ?N = "96 + frame E"
  have N: "96 \<le> ?N \<and> ?N \<le> unat (esp c)" "96 + frame E \<le> ?N \<and> ?N \<le> unat (esp c)" using T by simp_all
  have ar: "arity E (vector_handler E v) \<le> 1" by (simp add: arity_def)
  have t: "tracks ?N (unat (esp c)) (sys c) (deliver v err c) ?d (entry_words err c)"
    by (rule deliver_tracks [OF g N(1)])
  have "eip (deliver v err c) = handler_of H v" using tracks_fields(5) [OF t] by (simp add: entered_def)
  then have i: "interrupt code v err c = vector_code E v (deliver v err c)"
    by (simp add: interrupt_def Let_def linked_vector [OF link])
  note p = tracks_push [OF _ N(1) u32_bound]
  have r: "\<not> cs d AND 3 < ucast (ucast (cs c) :: u32) AND 3" for d by (simp add: selector_back ring)
  show ?thesis
  proof (cases rule: vector_cases [of E v])
    case plain
    then have "err = None" using err by simp
    then have t1: "tracks ?N (unat (esp c)) (sys c) (exec (Push (vector_handler E v)) (deliver v err c)) (?d\<lparr>esp := esp ?d - 4\<rparr>)
        [vector_handler E v, eip c, ucast (cs c), eflags c]"
      using p [OF t] by (simp add: entry_words_def)
    have "arity E (vector_handler E v) = 0" using plain(3) n by (auto simp: arity_def)
    note call' = call [unfolded this]
    from no_error_code_returns [OF t1 N(2) u32_bound r call'] show ?thesis
      unfolding i plain(1) using \<open>err = None\<close> by (simp add: entered_def entry_words_def selector_back)
  next
    case (number n)
    then have "err = None" using err by simp
    then have "tracks ?N (unat (esp c)) (sys c) (run [Push (vector_handler E v), Push n] (deliver v err c))
        (?d\<lparr>esp := esp ?d - 8\<rparr>) [n, vector_handler E v, eip c, ucast (cs c), eflags c]"
      using p [OF p [OF t]] by (simp add: entry_words_def run_def)
    from dg_error_code_returns [OF this N(2) u32_bound ar r call] show ?thesis
      unfolding i number(1) using \<open>err = None\<close> by (simp add: entered_def entry_words_def selector_back)
  next
    case error
    then obtain e where e: "err = Some e" using err by auto
    then have "tracks ?N (unat (esp c)) (sys c) (exec (Push (vector_handler E v)) (deliver v err c)) (?d\<lparr>esp := esp ?d - 4\<rparr>)
        [vector_handler E v, e, eip c, ucast (cs c), eflags c]"
      using p [OF t] by (simp add: entry_words_def)
    from error_code_returns [OF this N(2) u32_bound le_trans [OF ar one_le_numeral] r call] show ?thesis
      unfolding i error(1) using e by (simp add: entered_def entry_words_def selector_back)
  qed
qed

section \<open>Page faults\<close>

text \<open>Two machines that differ below the frame counts, or between them and the first page, only.\<close>

definition same_pages :: "machine \<Rightarrow> machine \<Rightarrow> bool" where
  "same_pages S s \<longleftrightarrow> only_mem S s
     \<and> (\<forall>a. in_range MMAP_ADDR 0x100000 a \<or> 0x400000 \<le> unat a \<longrightarrow> mem s a = mem S a)"

lemma near_same_pages:
  assumes "near N T S s" and "0x300000 + N \<le> T" and "T \<le> 0x400000"
  shows "same_pages S s"
proof -
  have "mem s a = mem S a" if "in_range MMAP_ADDR 0x100000 a \<or> 0x400000 \<le> unat a" for a
  proof -
    have "unat a < T - N \<or> T \<le> unat a" using that assms(2,3) by (auto simp: in_range_def MMAP_ADDR_def)
    then show ?thesis using assms(1) unfolding near_def by blast
  qed
  with assms(1) show ?thesis by (simp add: same_pages_def near_def)
qed

lemma same_pages_space:
  assumes n: "same_pages S s" and ok: "space_ok S"
  shows "space_ok s" and "CR3 s = CR3 S" and "taken s q = taken S q" and "free_pages s = free_pages S"
    and "present s i = present S i" and "walk (mem s) (CR3 s) va = walk (mem S) (CR3 S) va"
proof -
  have om: "only_mem S s" and m: "\<And>a. in_range MMAP_ADDR 0x100000 a \<or> 0x400000 \<le> unat a \<Longrightarrow> mem s a = mem S a"
    using n by (auto simp: same_pages_def)
  note f = only_mem_fields [OF om]
  show C: "CR3 s = CR3 S" by (rule f(5))
  have t: "taken s q = taken S q" for q
  proof -
    have "in_range MMAP_ADDR 0x100000 (MMAP_ADDR + drop_bit 12 q)"
      using unat_mmap [of q] u32_bound [of q] by (auto simp: in_range_def MMAP_ADDR_def)
    with m show ?thesis by (simp add: taken_def)
  qed
  then show "taken s q = taken S q" .
  show "free_pages s = free_pages S" by (rule free_pages_mem [OF t f(1)])
  have g: "get32 s (slot q k) = get32 S (slot q k)" if q: "kpage q" and k: "k < 1024" for q k
  proof (rule load32_cong)
    fix j :: nat
    assume j: "j < 4"
    have p: "page q" using q by (simp add: kpage_def)
    have "unat (slot q k + of_nat j) = unat (slot q k) + j"
      by (rule unat_add_nat) (use unat_slot [OF p k] page_end [OF p] k j in linarith)
    then have "0x400000 \<le> unat (slot q k + of_nat j)" using unat_slot [OF p k] q by (simp add: kpage_def)
    with m show "mem s (slot q k + of_nat j) = mem S (slot q k + of_nat j)" by blast
  qed
  show "space_ok s" "present s i = present S i" "walk (mem s) (CR3 s) va = walk (mem S) (CR3 S) va"
    by (rule space_cong [OF ok C g]; simp add: t)+
qed

lemma slot_low:
  assumes "kpage q" and "j < 1024" and "unat b < 0x400000"
  shows "mem (put32 (slot q j) v s) b = mem s b"
proof -
  have "page q" using assms(1) by (simp add: kpage_def)
  from unat_slot [OF this assms(2)] have "apart (slot q j) 4 b 1"
    using assms page_end [OF \<open>page q\<close>] by (auto simp: apart_def kpage_def)
  then show ?thesis by (simp add: store32_byte)
qed

text \<open>Serving a page fault leaves the memory between the frame counts and the first page alone.\<close>

lemma do_no_page_low:
  assumes "do_no_page e va s = Some s'" and ok: "space_ok s" and b: "0x300000 \<le> unat b" "unat b < 0x400000"
  shows "mem s' b = mem s b"
proof (rule do_no_page_steps [OF assms(1) ok])
  fix pd s1 r
  assume u: "uget_free_page s = Some (pd, s1)" and p: "put_page va pd s1 = Some (r, s')"
    and pd: "taken s1 pd" and ok1: "space_ok s1"
  have nb: "\<not> in_range MMAP_ADDR 0x100000 b" using b by (simp add: in_range_def MMAP_ADDR_def)
  have "mem s' b = mem s1 b"
  proof (cases "present s1 (dir_of va)")
    case True
    with put_page_old [OF ok1 pd True] p show ?thesis
      using slot_low [OF space_okD(4) [OF ok1 True] table_index b(2)] by auto
  next
    case False
    from put_page_new [OF ok1 pd False p] obtain pg s2 where g: "get_free_page s1 = Some (pg, s2)"
      and s': "s' = put32 (slot pg (ent_of va)) (pd OR 7) (put32 (slot (CR3 s1) (dir_of va)) (pg OR 7) s2)" .
    show ?thesis
      unfolding s' slot_low [OF kernel_kpage(1) [OF g] table_index b(2)]
        slot_low [OF space_okD(1) [OF ok1] dir_index b(2)]
      by (rule kernel_pages.mem_after [OF g nb])
  qed
  with user_pages.mem_after [OF u nb] show ?thesis by simp
qed

lemma page_fault_returns:
  assumes link: "linked E H code" and g: "gate_at (mem (sys c)) 14 = (page_fault H, 8, 0x8F00)"
    and e: "e AND 1 = 0" and T: "0x300000 + (96 + frame E) \<le> unat (esp c)" "unat (esp c) \<le> 0x400000" and ring: "cs c AND 3 = 0"
    and ok: "space_ok (sys c)" and free: "2 \<le> card (free_pages (sys c))"
  shows "\<exists>s1 s2 s3. interrupt code 14 (Some e) c = Some (c\<lparr>KEN_MODE := 0, sys := s3\<rparr>)
    \<and> near (96 + frame E) (unat (esp c)) (sys c) s1 \<and> do_no_page e (CR2 c) s1 = Some s2 \<and> near (96 + frame E) (unat (esp c)) s2 s3"
proof -
  let ?d = "entered (page_fault H) 0x8F00 (Some e) c"
  have T96: "96 \<le> 96 + frame E \<and> 96 + frame E \<le> unat (esp c)" "96 + frame E \<le> 96 + frame E \<and> 96 + frame E \<le> unat (esp c)"
    using T(1) by simp_all
  have t: "tracks (96 + frame E) (unat (esp c)) (sys c) (deliver 14 (Some e) c) ?d [e, eip c, ucast (cs c), eflags c]"
    using deliver_tracks [OF g T96(1), of "Some e"] by (simp add: entry_words_def)
  have "eip (deliver 14 (Some e) c) = page_fault H" using tracks_fields(5) [OF t] by (simp add: entered_def)
  then have i: "interrupt code 14 (Some e) c = page_fault_code E (deliver 14 (Some e) c)"
    using link by (simp add: interrupt_def Let_def linked_def stubs_def)
  have r: "\<not> cs ?d AND 3 < ucast (ucast (cs c) :: u32) AND 3" by (simp add: selector_back ring)
  have call: "\<exists>s2. do_no_page e (CR2 ?d) s1 = Some s2 \<and> survives (unat (esp c)) s1 s2"
    if n: "near (96 + frame E) (unat (esp c)) (sys c) s1" for s1
  proof -
    note sp = same_pages_space [OF near_same_pages [OF n T] ok]
    obtain s2 where s2: "do_no_page e (CR2 c) s1 = Some s2"
      using do_no_page_returns [OF sp(1)] free by (auto simp: sp(4))
    have "mem s2 a = mem s1 a" if "unat (esp c) - 96 \<le> unat a \<and> unat a < unat (esp c)" for a
      by (rule do_no_page_low [OF s2 sp(1)]) (use that T in linarith)+
    with s2 show ?thesis by (simp add: survives_def entered_def)
  qed
  from page_fault_code_returns [OF t T96(2) u32_bound r e call] show ?thesis
    unfolding i by (simp add: entered_def entry_words_def selector_back)
qed

section \<open>Properties\<close>

text \<open>
  C11: an interrupt taken in the kernel, of any vector but those of the page fault and the card, comes
  back to where it was taken, as long as its gate is the one \<open>trap_init\<close> installed. All registers, the flags
  and the stack pointer are as before, whether the processor pushes an error code or not and whatever
  the handler leaves in \<open>eax\<close>, \<open>ecx\<close>, \<open>edx\<close> and in its argument. Of memory only the 96 bytes below the
  stack pointer have changed and, below those, what the call of the handler takes.
\<close>

theorem interrupts_return:
  assumes "linked E H code" and "unat v < 256" and "v \<noteq> 14" and "v \<noteq> 0x23"
    and "gate_at (mem (sys c)) v = gate_at (mem (trap_init nic H s0)) v"
    and "(err = None) = (v \<notin> {8, 10, 11, 12, 13, 17})"
    and "96 + frame E \<le> unat (esp c)" and "cs c AND 3 = 0" and "neISR_at E \<noteq> print_error_at E"
  shows "\<exists>s'. interrupt code v err c = Some (c\<lparr>sys := s'\<rparr>) \<and> only_mem (sys c) s'
    \<and> (\<forall>a. unat a < unat (esp c) - (96 + frame E) \<or> unat (esp c) \<le> unat a \<longrightarrow> mem s' a = mem (sys c) a)"
proof -
  have g: "gate_at (mem (sys c)) v = (handler_of H v, 8, 0x8E00)"
    using assms(2,5) trap_init_gate by simp
  have "vector_handler E v = nop_at E \<or> vector_handler E v = print_error_at E"
    using assms(4) by (simp add: vector_handler_def)
  from interrupt_returns [OF assms(1) g assms(6-9) empty_call [OF this]]
  obtain s1 s2 s3 where "interrupt code v err c = Some (c\<lparr>sys := s3\<rparr>)" "s1 = s2"
    "near (96 + frame E) (unat (esp c)) (sys c) s1" "near (96 + frame E) (unat (esp c)) s2 s3" by blast
  moreover from this have "near (96 + frame E) (unat (esp c)) (sys c) s3" using near_trans by blast
  ultimately show ?thesis unfolding near_def by blast
qed

text \<open>
  The card's vector: if its interrupt routine returns and leaves alone what the stub has saved, the
  interrupt has the effect of the routine and the registers are as before.
\<close>

theorem card_interrupt_returns:
  assumes "linked E H code" and "gate_at (mem (sys c)) 0x23 = gate_at (mem (trap_init nic H s0)) 0x23"
    and "96 + frame E \<le> unat (esp c)" and "cs c AND 3 = 0" and "neISR_at E \<notin> {nop_at E, print_error_at E}"
    and "\<And>s1. near (96 + frame E) (unat (esp c)) (sys c) s1 \<Longrightarrow>
      \<exists>s2. neISR (net E) s1 = Some s2 \<and> survives (unat (esp c)) s1 s2"
  shows "\<exists>s1 s2 s3. interrupt code 0x23 None c = Some (c\<lparr>sys := s3\<rparr>)
    \<and> near (96 + frame E) (unat (esp c)) (sys c) s1 \<and> neISR (net E) s1 = Some s2
    \<and> near (96 + frame E) (unat (esp c)) s2 s3"
proof -
  have g: "gate_at (mem (sys c)) 0x23 = (handler_of H 0x23, 8, 0x8E00)"
    using assms(2) trap_init_gate by simp
  have n: "neISR_at E \<noteq> print_error_at E" and e: "(None = None) = (0x23 \<notin> {8, 10, 11, 12, 13, 17 :: u32})"
    using assms(5) by simp_all
  have call: "\<exists>s2. call_c E (vector_handler E 0x23) c1 = Some (c_returns E (arity E (vector_handler E 0x23)) s2 c1)
      \<and> survives (unat (esp c)) (sys c1) s2 \<and> neISR (net E) (sys c1) = Some s2"
    if "near (96 + frame E) (unat (esp c)) (sys c) (sys c1)" for c1
    using assms(6) [OF that] assms(5) by (auto simp: vector_handler_def call_c_def arity_def)
  from interrupt_returns [OF assms(1) g e assms(3,4) n call] show ?thesis .
qed

text \<open>
  C10: a page fault in the kernel for a page that is not present, from the processor to the processor:
  through the trap gate \<open>mmap_init\<close> installs, with no other interrupt in between. The stub finds the
  error code and the address, calls \<open>do_no_page\<close> and returns to the instruction at fault with all
  registers as they were. The address is then mapped to a frame nobody had and the tables stay well
  formed; no other translation changes, except in the 4 MB of the address where they had no table. The
  memory around the kernel stack is as before except for the 96 bytes below its pointer and, below
  those, what the call takes.
\<close>

theorem page_fault_serves:
  assumes "linked E H code" and "gate_at (mem (sys c)) 14 = (page_fault H, 8, 0x8F00)"
    and "e AND 1 = 0" and "0x300000 + (96 + frame E) \<le> unat (esp c)" and "unat (esp c) \<le> 0x400000" and "cs c AND 3 = 0"
    and "space_ok (sys c)" and "2 \<le> card (free_pages (sys c))"
  shows "\<exists>s'. interrupt code 14 (Some e) c = Some (c\<lparr>KEN_MODE := 0, sys := s'\<rparr>)
    \<and> space_ok s' \<and> CR3 s' = CR3 (sys c)
    \<and> (\<exists>pd w u. page pd \<and> \<not> taken (sys c) pd
        \<and> walk (mem s') (CR3 s') (CR2 c) = Some (pd OR (CR2 c AND 0xfff), w, u))
    \<and> (\<forall>va. drop_bit 12 va \<noteq> drop_bit 12 (CR2 c)
        \<longrightarrow> present (sys c) (dir_of (CR2 c)) \<or> dir_of va \<noteq> dir_of (CR2 c)
        \<longrightarrow> walk (mem s') (CR3 s') va = walk (mem (sys c)) (CR3 (sys c)) va)
    \<and> (\<forall>a. 0x300000 \<le> unat a \<and> unat a < 0x400000 \<and> \<not> in_range (esp c - of_nat (96 + frame E)) (96 + frame E) a
        \<longrightarrow> mem s' a = mem (sys c) a)"
proof -
  obtain s1 s2 s3 where i: "interrupt code 14 (Some e) c = Some (c\<lparr>KEN_MODE := 0, sys := s3\<rparr>)"
    and n1: "near (96 + frame E) (unat (esp c)) (sys c) s1" and f: "do_no_page e (CR2 c) s1 = Some s2"
    and n3: "near (96 + frame E) (unat (esp c)) s2 s3"
    using page_fault_returns [OF assms] by blast
  note p1 = same_pages_space [OF near_same_pages [OF n1 assms(4,5)] assms(7)]
  note d = do_no_page_ok [OF f p1(1)]
  then have ok2: "space_ok s2" by blast
  note p3 = same_pages_space [OF near_same_pages [OF n3 assms(4,5)] ok2]
  have n: "unat (of_nat (96 + frame E) :: u32) = 96 + frame E"
    using assms(4) u32_bound [of "esp c"] by (simp add: unat_of_nat take_bit_nat_eq_self_iff del: of_nat_add)
  then have u: "unat (esp c - of_nat (96 + frame E)) = unat (esp c) - (96 + frame E)"
    using unat_sub [of "of_nat (96 + frame E)" "esp c"] assms(4) by (simp add: word_le_nat_alt del: of_nat_add)
  have low: "mem s3 a = mem (sys c) a"
    if a: "0x300000 \<le> unat a" "unat a < 0x400000" "\<not> in_range (esp c - of_nat (96 + frame E)) (96 + frame E) a" for a
  proof -
    have o: "unat a < unat (esp c) - (96 + frame E) \<or> unat (esp c) \<le> unat a"
      using a(3) u assms(4) by (auto simp: in_range_def)
    have "mem s3 a = mem s2 a" "mem s1 a = mem (sys c) a" using n1 n3 o unfolding near_def by blast+
    with do_no_page_low [OF f p1(1) a(1,2)] show ?thesis by simp
  qed
  have "\<exists>pd w u. page pd \<and> \<not> taken (sys c) pd \<and> walk (mem s3) (CR3 s3) (CR2 c) = Some (pd OR (CR2 c AND 0xfff), w, u)"
    using d unfolding p1(3) p3(6) by blast
  moreover have "walk (mem s3) (CR3 s3) va = walk (mem (sys c)) (CR3 (sys c)) va"
    if "drop_bit 12 va \<noteq> drop_bit 12 (CR2 c)" "present (sys c) (dir_of (CR2 c)) \<or> dir_of va \<noteq> dir_of (CR2 c)" for va
    using d that unfolding p1(5) p3(6) p1(6) by blast
  moreover have "CR3 s3 = CR3 (sys c)" using d p1(2) p3(2) by simp
  ultimately show ?thesis using i p3(1) low by (intro exI [of _ s3] conjI allI impI) simp_all
qed

text \<open>
  C25: the tables the kernel starts with, after the boot code and \<open>trap_init\<close>. Each of the 256 gates
  is an interrupt gate of ring 0 to the entry point of its vector, and the segment it names is the
  flat readable code segment the boot code has put into the descriptor table: filling the one
  table leaves the other alone.
\<close>

theorem boot_gates:
  assumes "unat n < 256"
  shows "gate_at (mem (trap_init nic H (boot_start s))) n = (handler_of H n, 8, 0x8E00)
    \<and> flat_segment (descriptor (mem (trap_init nic H (boot_start s))) 8) 0xC09A"
proof
  show "gate_at (mem (trap_init nic H (boot_start s))) n = (handler_of H n, 8, 0x8E00)"
    by (rule trap_init_gate [OF assms])
  have "mem (trap_init nic H (boot_start s)) (0x101008 + of_nat j) = mem (boot_start s) (0x101008 + of_nat j)"
    if "j < 8" for j
  proof (rule trap_init_frame)
    show "\<not> in_range IDT_ADDR 2048 (0x101008 + of_nat j)"
      using gdt_address [of "8 + j"] that by (simp add: in_range_def IDT_ADDR_def)
  qed
  then have "descriptor (mem (trap_init nic H (boot_start s))) 8 = descriptor (mem (boot_start s)) 8"
    by (simp add: descriptor_def)
  moreover have "descriptor (mem (boot_start s)) 8 = CreateSection 0 0xFFFFF 0xC09A"
    by (subst boot_descriptor [where i = 1]) (simp_all only: gdt_section, simp_all)
  ultimately show "flat_segment (descriptor (mem (trap_init nic H (boot_start s))) 8) 0xC09A"
    by (simp add: flat_section)
qed

text \<open>
  \<open>move_user_mode\<close> enters ring 3 at the label behind its interrupt return, with the user selectors of the
  table the boot code sets up in all segment registers, interrupts on and the stack at \<open>0x7FFF00\<close>.
\<close>

theorem move_user_mode_enters:
  assumes "96 \<le> unat (esp c)" and "cs c AND 3 = 0"
  shows "cs (move_user_mode next c) = 0x1b \<and> ss (move_user_mode next c) = 0x23
    \<and> (\<forall>g. seg (move_user_mode next c) g = 0x23) \<and> esp (move_user_mode next c) = 0x7FFF00
    \<and> eip (move_user_mode next c) = next \<and> eflags (move_user_mode next c) = eflags c OR 0x200"
proof -
  let ?pre = "[Push 0x23, Push 0x7FFF00, Pushf, LoadTop EAX, OrI 0x200 EAX, StoreTop EAX, Push 0x1b, Push next]"
  let ?c = "run ?pre c"
  have l: "list_run ?pre (c, []) = Some (c\<lparr>esp := esp c - 20, reg := (reg c)(EAX := eflags c OR 0x200)\<rparr>,
      [next, 0x1b, eflags c OR 0x200, 0x7FFF00, 0x23])"
    by (auto intro!: cpu.equality ext)
  have T: "(96 :: nat) \<le> 96 \<and> 96 \<le> unat (esp c)" using assms(1) by simp
  from list_run_tracks [OF tracks_start T u32_bound l]
  have t: "tracks 96 (unat (esp c)) (sys c) ?c (c\<lparr>esp := esp c - 20, reg := (reg c)(EAX := eflags c OR 0x200)\<rparr>)
      [next, 0x1b, eflags c OR 0x200, 0x7FFF00, 0x23]" .
  have l: "get32 (sys ?c) (esp ?c) = next" "get32 (sys ?c) (esp ?c + 4) = 0x1b"
    "get32 (sys ?c) (esp ?c + 8) = eflags c OR 0x200" "get32 (sys ?c) (esp ?c + 12) = 0x7FFF00"
    "get32 (sys ?c) (esp ?c + 16) = 0x23"
    using tracks_load [OF t, of 0] tracks_load [OF t, of 1] tracks_load [OF t, of 2] tracks_load [OF t, of 3]
      tracks_load [OF t, of 4] by simp_all
  have cs: "cs ?c AND 3 = 0" using tracks_fields(6) [OF t] assms(2) by simp
  have m: "move_user_mode next c = run [Mov 0x23 EAX, MovS EAX DS, MovS EAX ES, MovS EAX GS, MovS EAX FS] (exec Iret ?c)"
    by (simp add: move_user_mode_def run_def)
  have "h(DS := k, ES := k, GS := k, FS := k) = (\<lambda>g. k)" for h :: "seg \<Rightarrow> u16" and k by (rule seg_all)
  then show ?thesis
    unfolding m using l cs by (simp add: run_def pop_def Let_def add.assoc)
qed

section \<open>Witnesses\<close>

theorem boot_gates_witness:
  "gate_at (mem (trap_init (\<lambda>_ _. 0) sample_stubs (boot_start (boot_machine (\<lambda>_. 0) 0x310000)))) 13 = (0x3010E0, 8, 0x8E00)"
  using boot_gates [of 13 "\<lambda>_ _. 0" sample_stubs "boot_machine (\<lambda>_. 0) 0x310000"]
  by (simp add: handler_of_def exception_vectors_def sample_stubs_def)

text \<open>C functions at arbitrary addresses, and the stubs at those of \<open>sample_stubs\<close>.\<close>

definition sample_c :: c_env where
  "sample_c = \<lparr>nop_at = 0x302000, print_error_at = 0x302010, neISR_at = 0x302020, net = sample_env,
     scratch = \<lambda>_ _. 7, frame = 64, left = \<lambda>_ _. 0xCC, junk1 = \<lambda>_. 0, junk2 = \<lambda>_. 0\<rparr>"

definition sample_code :: "u32 \<Rightarrow> cpu \<Rightarrow> cpu option" where
  "sample_code a = (case map_of (stubs sample_c sample_stubs) a of None \<Rightarrow> \<lambda>_. None | Some f \<Rightarrow> f)"

lemma sample_linked: "linked sample_c sample_stubs sample_code"
  by (simp add: linked_def stubs_def sample_code_def sample_stubs_def)

definition sample_cpu :: "machine \<Rightarrow> cpu" where
  "sample_cpu s = \<lparr>reg = \<lambda>_. 5, seg = \<lambda>_. 0x10, esp = 0x3FFF00, ss = 0x10, eip = 0x300100, cs = 8,
     eflags = 0x202, CR2 = 0x40000123, KEN_MODE = 0, sys = s\<rparr>"

lemma sample_cpu_simps [simp]:
  "esp (sample_cpu s) = 0x3FFF00" "cs (sample_cpu s) = 8" "sys (sample_cpu s) = s" "CR2 (sample_cpu s) = 0x40000123"
  "net sample_c = sample_env" "frame sample_c = 64" "neISR_at sample_c \<noteq> nop_at sample_c" "neISR_at sample_c \<noteq> print_error_at sample_c"
  by (simp_all add: sample_cpu_def sample_c_def)

text \<open>With this card there is nothing to receive and nothing has been sent.\<close>

lemma idle_isr: "\<exists>s2. neISR sample_env s = Some s2 \<and> survives T s s2"
  by (simp add: neISR_def io_defs sample_env_def neGetIntState_def neSetIntState_def neSetIntMask_def NE_ISR_PRX_def
      NE_ISR_PTX_def survives_def)

theorem interrupts_return_witness:
  "let c = sample_cpu (trap_init (\<lambda>_ _. 0) sample_stubs (boot_machine (\<lambda>_. 0) 0x310000))
   in \<exists>s'. interrupt sample_code 13 (Some 0x28) c = Some (c\<lparr>sys := s'\<rparr>)"
  using interrupts_return [OF sample_linked, of 13
      "sample_cpu (trap_init (\<lambda>_ _. 0) sample_stubs (boot_machine (\<lambda>_. 0) 0x310000))" "\<lambda>_ _. 0"
      "boot_machine (\<lambda>_. 0) 0x310000" "Some 0x28"]
  by (auto simp: Let_def)

theorem card_interrupt_returns_witness:
  "let c = sample_cpu (trap_init (\<lambda>_ _. 0) sample_stubs (boot_machine (\<lambda>_. 0) 0x310000))
   in \<exists>s'. interrupt sample_code 0x23 None c = Some (c\<lparr>sys := s'\<rparr>)"
  using card_interrupt_returns [OF sample_linked, of
      "sample_cpu (trap_init (\<lambda>_ _. 0) sample_stubs (boot_machine (\<lambda>_. 0) 0x310000))" "\<lambda>_ _. 0"
      "boot_machine (\<lambda>_. 0) 0x310000"] idle_isr
  by (auto simp: Let_def)

text \<open>The machine of the paging witnesses with the gate for page faults.\<close>

definition fault_machine :: machine where
  "fault_machine = install_int 14 (page_fault sample_stubs) KER_CODE_SEC (TRA_GATE OR IDT_R0) space_machine"

lemma fault_machine_pages: "same_pages space_machine fault_machine"
proof -
  have "only_mem space_machine fault_machine" by (simp add: fault_machine_def install_int_def Let_def)
  moreover have "mem fault_machine a = mem space_machine a"
    if "in_range MMAP_ADDR 0x100000 a \<or> 0x400000 \<le> unat a" for a
    unfolding fault_machine_def by (rule install_frame) (use that in \<open>auto simp: in_range_def MMAP_ADDR_def IDT_ADDR_def\<close>)
  ultimately show ?thesis by (simp add: same_pages_def)
qed

theorem page_fault_serves_witness:
  "\<exists>s' pd w u. interrupt sample_code 14 (Some 2) (sample_cpu fault_machine)
      = Some ((sample_cpu fault_machine)\<lparr>KEN_MODE := 0, sys := s'\<rparr>)
    \<and> walk (mem s') (CR3 s') 0x40000123 = Some (pd OR 0x123, w, u)"
proof -
  have "{0x401000, 0x402000} \<subseteq> free_pages space_machine"
    by (simp add: free_pages_def kpage_def page_def taken_def space_machine_simps MMAP_ADDR_def
        drop_bit_eq_div)
  from card_mono [OF finite this] have f: "2 \<le> card (free_pages space_machine)" by simp
  note sp = same_pages_space [OF fault_machine_pages space_machine_ok]
  have "gate_at (mem fault_machine) 14 = (page_fault sample_stubs, 8, 0x8F00)"
    using gate_install [of 14 14] by (simp add: fault_machine_def KER_CODE_SEC_def TRA_GATE_def IDT_R0_def)
  from page_fault_serves [OF sample_linked, of "sample_cpu fault_machine", simplified, OF this, of 2] sp(1,4) f
  show ?thesis by auto
qed

end
